(* ===== verification/Kit_Prelude.thy ===== *)
theory Kit_Prelude
  imports Complex_Main "HOL-Library.AList"
begin

section \<open>Prelude: results, dictionaries, step systems\<close>

text \<open>
  What the component theories share.  Python exceptions are the left summand of a sum, and
  \<open>rbind\<close>, \<open>rtraverse\<close>, \<open>rfold\<close> sequence fallible code as statements and loops do.  A Python
  dict whose insertion order is observable is an association list updated with
  \<open>AList.update\<close>, which keeps the position of a present key and appends a new one, as
  \<open>dict.__setitem__\<close> does.  \<open>dedup\<close> is \<open>tuple(dict.fromkeys(xs))\<close>: first occurrences, in
  order.  Two locales carry the reasoning about state machines: \<open>step_invariant\<close> lifts a
  one-step preservation lemma to every reachable state, \<open>decreasing_steps\<close> bounds the length
  of runs by a measure.
\<close>

named_theorems result_simps \<open>unfolding of the result combinators\<close>

subsection \<open>Fallible computations\<close>

definition rbind :: "('e + 'a) \<Rightarrow> ('a \<Rightarrow> 'e + 'b) \<Rightarrow> 'e + 'b" where
  "rbind r f = (case r of Inl e \<Rightarrow> Inl e | Inr a \<Rightarrow> f a)"

lemma rbind_simps [simp]:
  "rbind (Inl e) f = Inl e"
  "rbind (Inr a) f = f a"
  by (simp_all add: rbind_def)

lemma rbind_Inr_iff [result_simps]:
  "rbind r f = Inr b \<longleftrightarrow> (\<exists>a. r = Inr a \<and> f a = Inr b)"
  by (cases r) auto

lemma rbind_Inl_iff [result_simps]:
  "rbind r f = Inl e \<longleftrightarrow> r = Inl e \<or> (\<exists>a. r = Inr a \<and> f a = Inl e)"
  by (cases r) auto

definition rguard :: "bool \<Rightarrow> 'e \<Rightarrow> 'e + unit" where
  "rguard b e = (if b then Inr () else Inl e)"

lemma rguard_pass: "b \<Longrightarrow> rguard b e = Inr ()"
  by (simp add: rguard_def)

lemma rguard_Inr_iff [simp]: "rguard b e = Inr u \<longleftrightarrow> b"
  by (simp add: rguard_def)

lemma rguard_Inl_iff [simp]: "rguard b e = Inl e' \<longleftrightarrow> \<not> b \<and> e' = e"
  by (auto simp: rguard_def)

text \<open>A comprehension whose body may raise stops at the first error.\<close>

fun rtraverse :: "('a \<Rightarrow> 'e + 'b) \<Rightarrow> 'a list \<Rightarrow> 'e + 'b list" where
  "rtraverse f [] = Inr []"
| "rtraverse f (x # xs) = rbind (f x) (\<lambda>y. rbind (rtraverse f xs) (\<lambda>ys. Inr (y # ys)))"

lemma rtraverse_Inr_iff [result_simps]:
  "rtraverse f xs = Inr ys \<longleftrightarrow> list_all2 (\<lambda>x y. f x = Inr y) xs ys"
  by (induction xs arbitrary: ys) (auto simp: rbind_Inr_iff list_all2_Cons1)

lemma rtraverse_length: "rtraverse f xs = Inr ys \<Longrightarrow> length ys = length xs"
  by (simp add: rtraverse_Inr_iff list_all2_lengthD)

text \<open>A loop whose body may raise, threading a state.\<close>

fun rfold :: "('a \<Rightarrow> 's \<Rightarrow> 'e + 's) \<Rightarrow> 'a list \<Rightarrow> 's \<Rightarrow> 'e + 's" where
  "rfold f [] s = Inr s"
| "rfold f (x # xs) s = rbind (f x s) (rfold f xs)"

lemma rfold_append: "rfold f (xs @ ys) s = rbind (rfold f xs s) (rfold f ys)"
proof (induction xs arbitrary: s)
  case (Cons x xs)
  then show ?case by (cases "f x s") auto
qed simp

lemma rfold_invariant:
  assumes "rfold f xs s = Inr t" and "P s"
    and "\<And>x s t. x \<in> set xs \<Longrightarrow> P s \<Longrightarrow> f x s = Inr t \<Longrightarrow> P t"
  shows "P t"
  using assms
proof (induction xs arbitrary: s)
  case (Cons x xs)
  then obtain s' where s': "f x s = Inr s'" and rest: "rfold f xs s' = Inr t"
    by (auto simp: rbind_Inr_iff)
  have "P s'" using Cons.prems(2,3) s' by auto
  show ?case by (rule Cons.IH [OF rest \<open>P s'\<close>]) (use Cons.prems(3) in auto)
qed simp

lemma those_map_Some [simp]: "those (map Some xs) = Some xs"
  by (induction xs) simp_all

subsection \<open>Insertion-ordered dictionaries\<close>

type_synonym ('k, 'v) dict = "('k \<times> 'v) list"

abbreviation dict_set :: "'k \<Rightarrow> 'v \<Rightarrow> ('k, 'v) dict \<Rightarrow> ('k, 'v) dict" where
  "dict_set k v d \<equiv> AList.update k v d"

abbreviation dict_keys :: "('k, 'v) dict \<Rightarrow> 'k list" where
  "dict_keys d \<equiv> map fst d"

lemma map_of_dict_set [simp]: "map_of (dict_set k v d) = (map_of d)(k \<mapsto> v)"
  by (simp add: update_conv')

lemma dict_keys_set: "set (dict_keys (dict_set k v d)) = insert k (set (dict_keys d))"
  by (auto simp: update_keys)

lemma dict_keys_image [simp]: "fst ` set (dict_set k v d) = insert k (fst ` set d)"
  using dict_keys_set [of k v d] by simp

lemma dict_set_fresh: "k \<notin> set (dict_keys d) \<Longrightarrow> dict_set k v d = d @ [(k, v)]"
  by (induction d) auto

lemma map_of_Some_key: "map_of d k = Some v \<Longrightarrow> k \<in> set (dict_keys d)"
  by (metis map_of_SomeD in_set_zipE zip_map_fst_snd)

lemma map_of_None_key: "map_of d k = None \<longleftrightarrow> k \<notin> set (dict_keys d)"
  by (simp add: map_of_eq_None_iff)

lemma ex_map_of: "(\<exists>v. map_of d k = Some v) \<longleftrightarrow> k \<in> set (dict_keys d)"
  by (metis map_of_None_key not_None_eq)

subsection \<open>First occurrences, duplicates\<close>

definition dedup :: "'a list \<Rightarrow> 'a list" where
  "dedup xs = rev (remdups (rev xs))"

lemma set_dedup [simp]: "set (dedup xs) = set xs"
  by (simp add: dedup_def)

lemma distinct_dedup [simp]: "distinct (dedup xs)"
  by (simp add: dedup_def)

lemma dedup_Nil [simp]: "dedup [] = []"
  by (simp add: dedup_def)

lemma dedup_eq_Nil [simp]: "dedup xs = [] \<longleftrightarrow> xs = []"
  by (metis dedup_Nil set_dedup set_empty)

lemma dedup_distinct: "distinct xs \<Longrightarrow> dedup xs = xs"
  by (simp add: dedup_def distinct_remdups_id)

lemma dedup_single [simp]: "dedup [x] = [x]"
  by (simp add: dedup_def)

lemma dedup_snoc: "dedup (xs @ [x]) = (if x \<in> set xs then dedup xs else dedup xs @ [x])"
  by (simp add: dedup_def)

text \<open>\<open>sorted({x for x in xs if xs.count(x) > 1})\<close> is empty exactly for distinct lists; its
  elements are the names an error message lists.\<close>

definition repeated :: "'a list \<Rightarrow> 'a list" where
  "repeated xs = dedup (filter (\<lambda>x. 1 < count_list xs x) xs)"

lemma count_list_filter: "count_list (filter P xs) x = (if P x then count_list xs x else 0)"
  by (induction xs) auto

lemma count_list_distinct: "distinct xs \<Longrightarrow> count_list xs x = (if x \<in> set xs then 1 else 0)"
  by (induction xs) auto

lemma count_list_le_1_distinct: "(\<forall>x\<in>set xs. count_list xs x \<le> 1) \<longleftrightarrow> distinct xs"
proof (induction xs)
  case (Cons y ys)
  have "(\<forall>x\<in>set (y # ys). count_list (y # ys) x \<le> 1)
      \<longleftrightarrow> y \<notin> set ys \<and> (\<forall>x\<in>set ys. count_list ys x \<le> 1)"
    by (auto simp: count_list_0_iff split: if_splits)
  with Cons.IH show ?case by simp
qed simp

lemma repeated_eq_Nil [simp]: "repeated xs = [] \<longleftrightarrow> distinct xs"
  unfolding repeated_def dedup_eq_Nil filter_empty_conv
  by (metis count_list_le_1_distinct linorder_not_less)

subsection \<open>Grouping, counting, text\<close>

text \<open>\<open>d.setdefault(k, []).append(v)\<close>.\<close>

definition dict_append :: "'k \<Rightarrow> 'v \<Rightarrow> ('k, 'v list) dict \<Rightarrow> ('k, 'v list) dict" where
  "dict_append k v d = dict_set k ((case map_of d k of Some vs \<Rightarrow> vs | None \<Rightarrow> []) @ [v]) d"

fun group_by :: "('v \<Rightarrow> 'k) \<Rightarrow> 'v list \<Rightarrow> ('k, 'v list) dict \<Rightarrow> ('k, 'v list) dict" where
  "group_by f [] d = d"
| "group_by f (v # vs) d = group_by f vs (dict_append (f v) v d)"

lemma group_by_lookup:
  "map_of (group_by f vs d) k =
    (let ws = filter (\<lambda>v. f v = k) vs in
     case map_of d k of Some us \<Rightarrow> Some (us @ ws) | None \<Rightarrow> if ws = [] then None else Some ws)"
  by (induction vs arbitrary: d) (auto simp: dict_append_def Let_def split: option.splits)

lemma group_by_keys:
  "set (dict_keys (group_by f vs d)) = set (dict_keys d) \<union> f ` set vs"
  by (induction vs arbitrary: d) (simp_all add: dict_append_def)

text \<open>\<open>Counter(xs).most_common(1)\<close>: the first seen of the most frequent.\<close>

fun most_common :: "'a list \<Rightarrow> 'a list \<Rightarrow> 'a option" where
  "most_common xs [] = None"
| "most_common xs (y # ys) =
    (case most_common xs ys of
       None \<Rightarrow> Some y
     | Some z \<Rightarrow> if count_list xs z > count_list xs y then Some z else Some y)"

lemma most_common_max:
  "most_common xs ys = Some m \<Longrightarrow> m \<in> set ys \<and> (\<forall>y\<in>set ys. count_list xs y \<le> count_list xs m)"
proof (induction ys arbitrary: m)
  case (Cons y ys)
  show ?case
  proof (cases "most_common xs ys")
    case None
    then have "ys = []" by (cases ys) (auto split: option.splits if_splits)
    with Cons.prems show ?thesis by simp
  next
    case (Some z)
    with Cons.IH [OF Some] Cons.prems show ?thesis by (auto split: if_splits)
  qed
qed simp

fun join :: "string \<Rightarrow> string list \<Rightarrow> string" where
  "join sep [] = []"
| "join sep [x] = x"
| "join sep (x # y # ys) = x @ sep @ join sep (y # ys)"

definition ljust :: "nat \<Rightarrow> string \<Rightarrow> string" where
  "ljust w s = s @ replicate (w - length s) (CHR 0x20)"

abbreviation newline :: string where
  "newline \<equiv> [CHR 0x0A]"

fun nat_str :: "nat \<Rightarrow> string" where
  "nat_str n =
    (if n < 10 then [char_of (48 + n)] else nat_str (n div 10) @ [char_of (48 + n mod 10)])"

declare nat_str.simps [simp del]

subsection \<open>Step systems\<close>

text \<open>
  The interface between a state machine and its safety argument: the machine provides its
  start states and steps, the argument an invariant that holds at the start and that each
  step keeps.
\<close>

locale step_invariant =
  fixes start :: "'s \<Rightarrow> bool"
    and step :: "'s \<Rightarrow> 's \<Rightarrow> bool"
    and inv :: "'s \<Rightarrow> bool"
  assumes inv_start: "start s \<Longrightarrow> inv s"
    and inv_step: "inv s \<Longrightarrow> step s t \<Longrightarrow> inv t"
begin

lemma inv_steps: "step\<^sup>*\<^sup>* s t \<Longrightarrow> inv s \<Longrightarrow> inv t"
  by (induction rule: rtranclp_induct) (auto intro: inv_step)

lemma reachable_inv: "start s \<Longrightarrow> step\<^sup>*\<^sup>* s t \<Longrightarrow> inv t"
  by (blast intro: inv_start inv_steps)

end

text \<open>A measure that every step from an invariant state decreases bounds each run.\<close>

locale decreasing_steps = step_invariant start step inv
  for start :: "'s \<Rightarrow> bool" and step :: "'s \<Rightarrow> 's \<Rightarrow> bool" and inv :: "'s \<Rightarrow> bool" +
  fixes size_of :: "'s \<Rightarrow> nat"
  assumes size_step: "inv s \<Longrightarrow> step s t \<Longrightarrow> size_of t < size_of s"
begin

lemma run_size: "(step ^^ n) s t \<Longrightarrow> inv s \<Longrightarrow> n + size_of t \<le> size_of s"
proof (induction n arbitrary: t)
  case (Suc n)
  then obtain u where u: "(step ^^ n) s u" "step u t" by auto
  with Suc.IH Suc.prems have "n + size_of u \<le> size_of s" by blast
  moreover have "inv u"
    using u(1) Suc.prems(2) inv_steps by (metis relpowp_imp_rtranclp)
  ultimately show ?case using size_step [OF \<open>inv u\<close> u(2)] by simp
qed auto

lemma run_bounded: "start s \<Longrightarrow> (step ^^ n) s t \<Longrightarrow> n \<le> size_of s"
  using run_size inv_start by fastforce

end

end
