(* ===== verification/Common_Interval.thy ===== *)
theory Common_Interval
  imports Kit_Prelude "HOL-Library.Product_Lexorder"
begin

section \<open>Interval sweeps (core/src/sensorkit/common/interval.py)\<close>

text \<open>
  The four routines that build interval trees: the line sweeps of \<open>combine_interval_trees\<close> and
  \<open>intersect_interval_trees\<close>, and the two that work through an existing tree,
  \<open>stack_interval_trees\<close> and \<open>stamp_interval_trees\<close>.

  \<open>IntervalTree\<close> itself comes from a package outside the repository.  It is a parameter here: a
  record of the operations the routines call, with its documented behaviour as the predicate
  \<open>lawful\<close> the results assume.  A tree is only ever seen through \<open>it_items\<close>, the intervals an
  iteration yields, in whatever order.  \<open>list_tree\<close> is one implementation, for the concrete
  instances.

  Points are any linear order.  An interval \<open>(b, e, d)\<close> holds the points \<open>b \<le> p < e\<close>.  What the
  results say is pointwise: \<open>reads p S v\<close> states what the intervals \<open>S\<close> hold at \<open>p\<close>, nothing or
  exactly one interval with datum \<open>v\<close>.

  \<open>print_interval_tree\<close> writes a picture of a tree to the terminal and is left out.
\<close>

subsection \<open>The tree\<close>

datatype interval_error = NullInterval | NotInTree | ShortData | UnequalInputs

record ('t, 'd, 'tree) interval_tree =
  it_empty :: 'tree
  it_items :: "'tree \<Rightarrow> ('t \<times> 't \<times> 'd) list"
  it_addi :: "'t \<Rightarrow> 't \<Rightarrow> 'd \<Rightarrow> 'tree \<Rightarrow> interval_error + 'tree"
  it_remove :: "'t \<times> 't \<times> 'd \<Rightarrow> 'tree \<Rightarrow> interval_error + 'tree"
  it_chop :: "'t \<Rightarrow> 't \<Rightarrow> 'tree \<Rightarrow> 'tree"
  it_slice :: "'t \<Rightarrow> 'tree \<Rightarrow> 'tree"
  it_overlaps_point :: "'t \<Rightarrow> 'tree \<Rightarrow> bool"
  it_envelop :: "'t \<Rightarrow> 't \<Rightarrow> 'tree \<Rightarrow> ('t \<times> 't \<times> 'd) list"

text \<open>\<open>chop(b, e)\<close> removes what overlaps and trims what hangs in; \<open>slice(p)\<close> splits at \<open>p\<close>.\<close>

definition chopped :: "'t::linorder \<Rightarrow> 't \<Rightarrow> ('t \<times> 't \<times> 'd) set \<Rightarrow> ('t \<times> 't \<times> 'd) set" where
  "chopped b e S = {(x, y, d). (x, y, d) \<in> S \<and> (y \<le> b \<or> e \<le> x)}
    \<union> {(x, y, d). y = b \<and> x < b \<and> (\<exists>z. (x, z, d) \<in> S \<and> b < z)}
    \<union> {(x, y, d). x = e \<and> e < y \<and> (\<exists>z. (z, y, d) \<in> S \<and> z < e)}"

definition sliced :: "'t::linorder \<Rightarrow> ('t \<times> 't \<times> 'd) set \<Rightarrow> ('t \<times> 't \<times> 'd) set" where
  "sliced p S = {(x, y, d). (x, y, d) \<in> S \<and> \<not> (x < p \<and> p < y)}
    \<union> {(x, y, d). y = p \<and> x < p \<and> (\<exists>z. (x, z, d) \<in> S \<and> p < z)}
    \<union> {(x, y, d). x = p \<and> p < y \<and> (\<exists>z. (z, y, d) \<in> S \<and> z < p)}"

definition lawful :: "('t::linorder, 'd, 'tree) interval_tree \<Rightarrow> bool" where
  "lawful T \<longleftrightarrow>
     it_items T (it_empty T) = []
   \<and> (\<forall>t. distinct (it_items T t) \<and> (\<forall>(x, y, d)\<in>set (it_items T t). x < y))
   \<and> (\<forall>b e d t. if b < e
        then \<exists>t'. it_addi T b e d t = Inr t' \<and> set (it_items T t') = insert (b, e, d) (set (it_items T t))
        else it_addi T b e d t = Inl NullInterval)
   \<and> (\<forall>iv t. if iv \<in> set (it_items T t)
        then \<exists>t'. it_remove T iv t = Inr t' \<and> set (it_items T t') = set (it_items T t) - {iv}
        else it_remove T iv t = Inl NotInTree)
   \<and> (\<forall>b e t. b < e \<longrightarrow> set (it_items T (it_chop T b e t)) = chopped b e (set (it_items T t)))
   \<and> (\<forall>p t. set (it_items T (it_slice T p t)) = sliced p (set (it_items T t)))
   \<and> (\<forall>p t. it_overlaps_point T p t \<longleftrightarrow> (\<exists>(x, y, d)\<in>set (it_items T t). x \<le> p \<and> p < y))
   \<and> (\<forall>b e t. distinct (it_envelop T b e t) \<and> set (it_envelop T b e t) =
        {(x, y, d). (x, y, d) \<in> set (it_items T t) \<and> b < e \<and> b \<le> x \<and> y \<le> e})"

lemma lawful_empty: "lawful T \<Longrightarrow> it_items T (it_empty T) = []"
  unfolding lawful_def by (elim conjE)

lemma lawful_items: "lawful T \<Longrightarrow> \<forall>t. distinct (it_items T t) \<and> (\<forall>(x, y, d)\<in>set (it_items T t). x < y)"
  unfolding lawful_def by (elim conjE)

lemma lawful_distinct: "lawful T \<Longrightarrow> distinct (it_items T t)"
  by (drule lawful_items) simp

lemma lawful_nonnull: "lawful T \<Longrightarrow> (x, y, d) \<in> set (it_items T t) \<Longrightarrow> x < y"
  by (drule lawful_items) fastforce

lemma lawful_addi:
  assumes "lawful T" and "b < e"
  obtains t' where "it_addi T b e d t = Inr t'"
    and "set (it_items T t') = insert (b, e, d) (set (it_items T t))"
proof -
  have "\<forall>b e d t. if b < e
      then \<exists>t'. it_addi T b e d t = Inr t' \<and> set (it_items T t') = insert (b, e, d) (set (it_items T t))
      else it_addi T b e d t = Inl NullInterval"
    using assms(1) unfolding lawful_def by (elim conjE)
  then have "if b < e
      then \<exists>t'. it_addi T b e d t = Inr t' \<and> set (it_items T t') = insert (b, e, d) (set (it_items T t))
      else it_addi T b e d t = Inl NullInterval" by (elim allE)
  with assms(2) that show thesis by auto
qed

lemma lawful_remove:
  assumes "lawful T" and "iv \<in> set (it_items T t)"
  obtains t' where "it_remove T iv t = Inr t'" and "set (it_items T t') = set (it_items T t) - {iv}"
proof -
  have "\<forall>iv t. if iv \<in> set (it_items T t)
      then \<exists>t'. it_remove T iv t = Inr t' \<and> set (it_items T t') = set (it_items T t) - {iv}
      else it_remove T iv t = Inl NotInTree"
    using assms(1) unfolding lawful_def by (elim conjE)
  then have "if iv \<in> set (it_items T t)
      then \<exists>t'. it_remove T iv t = Inr t' \<and> set (it_items T t') = set (it_items T t) - {iv}
      else it_remove T iv t = Inl NotInTree" by (elim allE)
  with assms(2) that show thesis by auto
qed

lemma lawful_chop:
  assumes "lawful T" and "b < e"
  shows "set (it_items T (it_chop T b e t)) = chopped b e (set (it_items T t))"
proof -
  have "\<forall>b e t. b < e \<longrightarrow> set (it_items T (it_chop T b e t)) = chopped b e (set (it_items T t))"
    using assms(1) unfolding lawful_def by (elim conjE)
  with assms(2) show ?thesis by simp
qed

lemma lawful_slice:
  assumes "lawful T"
  shows "set (it_items T (it_slice T p t)) = sliced p (set (it_items T t))"
proof -
  have "\<forall>p t. set (it_items T (it_slice T p t)) = sliced p (set (it_items T t))"
    using assms unfolding lawful_def by (elim conjE)
  then show ?thesis by simp
qed

lemma lawful_overlaps:
  assumes "lawful T"
  shows "it_overlaps_point T p t \<longleftrightarrow> (\<exists>(x, y, d)\<in>set (it_items T t). x \<le> p \<and> p < y)"
proof -
  have "\<forall>p t. it_overlaps_point T p t \<longleftrightarrow> (\<exists>(x, y, d)\<in>set (it_items T t). x \<le> p \<and> p < y)"
    using assms unfolding lawful_def by (elim conjE)
  then show ?thesis by simp
qed

lemma lawful_envelop:
  assumes "lawful T"
  shows "distinct (it_envelop T b e t) \<and> set (it_envelop T b e t) =
    {(x, y, d). (x, y, d) \<in> set (it_items T t) \<and> b < e \<and> b \<le> x \<and> y \<le> e}"
proof -
  have "\<forall>b e t. distinct (it_envelop T b e t) \<and> set (it_envelop T b e t) =
      {(x, y, d). (x, y, d) \<in> set (it_items T t) \<and> b < e \<and> b \<le> x \<and> y \<le> e}"
    using assms unfolding lawful_def by (elim conjE)
  then show ?thesis by (elim allE)
qed

subsection \<open>What a set of intervals holds at a point\<close>

definition covering :: "'t::linorder \<Rightarrow> ('t \<times> 't \<times> 'd) set \<Rightarrow> ('t \<times> 't \<times> 'd) set" where
  "covering p S = {(x, y, d). (x, y, d) \<in> S \<and> x \<le> p \<and> p < y}"

definition reads :: "'t::linorder \<Rightarrow> ('t \<times> 't \<times> 'd) set \<Rightarrow> 'd option \<Rightarrow> bool" where
  "reads p S v = (case v of None \<Rightarrow> covering p S = {} | Some d \<Rightarrow> \<exists>x y. covering p S = {(x, y, d)})"

lemma covering_insert:
  "covering p (insert (b, e, d) S) = (if b \<le> p \<and> p < e then insert (b, e, d) (covering p S) else covering p S)"
  by (auto simp: covering_def)

lemma covering_Diff: "covering p (S - {z}) = covering p S - {z}"
  by (auto simp: covering_def)

lemma covering_empty [simp]: "covering p {} = {}"
  by (simp add: covering_def)

lemma reads_unique: "reads p S v \<Longrightarrow> reads p S w \<Longrightarrow> v = w"
  by (cases v; cases w) (auto simp: reads_def)

lemma reads_insert:
  assumes "reads p S v" and "b \<le> p \<and> p < e \<Longrightarrow> v = None"
  shows "reads p (insert (b, e, d) S) (if b \<le> p \<and> p < e then Some d else v)"
proof (cases "b \<le> p \<and> p < e")
  case True
  then show ?thesis using assms by (simp add: reads_def covering_insert)
next
  case False
  then show ?thesis using assms(1) unfolding reads_def covering_insert by (simp only: if_False)
qed

subsection \<open>combine_interval_trees\<close>

text \<open>
  Each input is sorted and the inputs are merged; tuples order lexicographically, so the merge
  is the sorted list of all tagged tuples.  The heap of end points pops its least entry, so it
  is kept as a sorted list.
\<close>

definition tagged :: "('t \<times> 't) list list \<Rightarrow> ('t \<times> nat \<times> 't) list" where
  "tagged inputs = concat (map (\<lambda>(i, ivs). map (\<lambda>(l, r). (l, i, r)) ivs) (List.enumerate 0 inputs))"

fun sweep :: "('t::linorder \<times> nat \<times> 't) list \<Rightarrow> ('t \<times> nat) list \<Rightarrow> ('t \<times> bool \<times> nat) list" where
  "sweep [] endpoints = map (\<lambda>(pt, j). (pt, False, j)) endpoints"
| "sweep ((left, i, right) # merged) endpoints =
    map (\<lambda>(pt, j). (pt, False, j)) (takeWhile (\<lambda>(pt, j). pt \<le> left) endpoints)
    @ (left, True, i) # sweep merged (insort (right, i) (dropWhile (\<lambda>(pt, j). pt \<le> left) endpoints))"

text \<open>\<open>active\<close> is a \<open>defaultdict(int)\<close>; a datum whose count ends is deleted.\<close>

definition held :: "('d, nat) dict \<Rightarrow> 'd \<Rightarrow> nat" where
  "held active d = (case map_of active d of None \<Rightarrow> 0 | Some n \<Rightarrow> n)"

definition count_datum :: "bool \<Rightarrow> 'd \<Rightarrow> ('d, nat) dict \<Rightarrow> ('d, nat) dict" where
  "count_datum rising d active =
    (if rising then dict_set d (held active d + 1) active
     else if 1 < held active d then dict_set d (held active d - 1) active
     else AList.delete d active)"

fun combine_step :: "('t::linorder, 'd list, 'tree) interval_tree \<Rightarrow> 'd list \<Rightarrow> 't \<times> bool \<times> nat
    \<Rightarrow> 't \<times> ('d, nat) dict \<times> 'tree \<Rightarrow> interval_error + 't \<times> ('d, nat) dict \<times> 'tree" where
  "combine_step T data (right, rising, i) (left, active, target) =
    rbind (if active \<noteq> [] \<and> left < right
           then it_addi T left right (filter (\<lambda>d. d \<in> set (dict_keys active)) data) target
           else Inr target) (\<lambda>target'.
      if i < length data then Inr (right, count_datum rising (data ! i) active, target')
      else Inl ShortData)"

definition combine_interval_trees :: "('t::linorder, 'd list, 'tree) interval_tree
    \<Rightarrow> ('t \<times> 't) list list \<Rightarrow> 'd list \<Rightarrow> 'tree \<Rightarrow> interval_error + 'tree" where
  "combine_interval_trees T inputs data target =
    (case sweep (sort (tagged inputs)) [] of
       [] \<Rightarrow> Inr target
     | (left, rising, i) # es \<Rightarrow>
         rbind (rfold (combine_step T data) ((left, rising, i) # es) (left, [], target))
           (\<lambda>(_, _, target'). Inr target'))"

subsection \<open>intersect_interval_trees\<close>

fun sweep_ends :: "('t::linorder \<times> 't) list \<Rightarrow> 't list \<Rightarrow> ('t \<times> bool) list" where
  "sweep_ends [] endpoints = map (\<lambda>pt. (pt, False)) endpoints"
| "sweep_ends ((left, right) # merged) endpoints =
    map (\<lambda>pt. (pt, False)) (takeWhile (\<lambda>pt. pt \<le> left) endpoints)
    @ (left, True) # sweep_ends merged (insort right (dropWhile (\<lambda>pt. pt \<le> left) endpoints))"

fun intersect_step :: "('t::linorder, unit, 'tree) interval_tree \<Rightarrow> nat \<Rightarrow> 't \<times> bool
    \<Rightarrow> int \<times> 't option \<times> 'tree \<Rightarrow> interval_error + int \<times> 't option \<times> 'tree" where
  "intersect_step T n (pt, rising) (depth, next_start, target) =
    (let depth' = (if rising then depth + 1 else depth - 1) in
     if depth' = int n
     then Inr (depth', (case next_start of None \<Rightarrow> Some pt | Some s \<Rightarrow> Some s), target)
     else case next_start of
            Some s \<Rightarrow>
              if s < pt then rbind (it_addi T s pt () target) (\<lambda>target'. Inr (depth', None, target'))
              else Inr (depth', None, target)
          | None \<Rightarrow> Inr (depth', None, target))"

definition intersect_interval_trees :: "('t::linorder, unit, 'tree) interval_tree
    \<Rightarrow> ('t \<times> 't) list list \<Rightarrow> 'tree \<Rightarrow> interval_error + 'tree" where
  "intersect_interval_trees T inputs target =
    rbind (rfold (intersect_step T (length inputs)) (sweep_ends (sort (concat inputs)) []) (0, None, target))
      (\<lambda>(_, _, target'). Inr target')"

subsection \<open>stack_interval_trees and stamp_interval_trees\<close>

text \<open>The trees are iterated in their own order; \<open>zip(\<dots>, strict=True)\<close> complains at the end.\<close>

definition stack_one :: "('t::linorder, 'd, 'tree) interval_tree \<Rightarrow> 'd \<Rightarrow> 't \<times> 't \<Rightarrow> 'tree
    \<Rightarrow> interval_error + 'tree" where
  "stack_one T d iv target = it_addi T (fst iv) (snd iv) d (it_chop T (fst iv) (snd iv) target)"

definition stack_interval_trees :: "('t::linorder, 'd, 'tree) interval_tree
    \<Rightarrow> ('t \<times> 't) list list \<Rightarrow> 'd list \<Rightarrow> 'tree \<Rightarrow> interval_error + 'tree" where
  "stack_interval_trees T inputs data target =
    rbind (rfold (\<lambda>(d, ivs). rfold (stack_one T d) ivs) (zip data inputs) target) (\<lambda>target'.
      if length data = length inputs then Inr target' else Inl UnequalInputs)"

definition replace_data :: "('t::linorder, 'd, 'tree) interval_tree \<Rightarrow> ('d \<Rightarrow> 'd)
    \<Rightarrow> 't \<times> 't \<times> 'd \<Rightarrow> 'tree \<Rightarrow> interval_error + 'tree" where
  "replace_data T f iv target =
    rbind (it_remove T iv target) (it_addi T (fst iv) (fst (snd iv)) (f (snd (snd iv))))"

definition split_at :: "('t::linorder, 'd, 'tree) interval_tree \<Rightarrow> 't \<Rightarrow> 'tree \<Rightarrow> 'tree" where
  "split_at T p target = (if it_overlaps_point T p target then it_slice T p target else target)"

fun stamp_one :: "('t::linorder, 'd, 'tree) interval_tree \<Rightarrow> ('d \<Rightarrow> 's \<Rightarrow> 'd) \<Rightarrow> 't \<times> 't \<times> 's
    \<Rightarrow> 'tree \<Rightarrow> interval_error + 'tree" where
  "stamp_one T merge_func (b, e, s) target =
    (let target' = split_at T e (split_at T b target)
     in rfold (replace_data T (\<lambda>d. merge_func d s)) (it_envelop T b e target') target')"

definition stamp_interval_trees :: "('t::linorder, 'd, 'tree) interval_tree \<Rightarrow> 'tree
    \<Rightarrow> ('t \<times> 't \<times> 's) list \<Rightarrow> ('d \<Rightarrow> 's \<Rightarrow> 'd) \<Rightarrow> interval_error + 'tree" where
  "stamp_interval_trees T target stamp merge_func = rfold (stamp_one T merge_func) stamp target"

subsection \<open>The events of a sweep\<close>

text \<open>
  \<open>level f es n\<close> is the count an event list leaves of the inputs \<open>f\<close> chooses, from \<open>n\<close>;
  \<open>upto p es\<close> are the events up to a point.
\<close>

fun level :: "(nat \<Rightarrow> bool) \<Rightarrow> ('t \<times> bool \<times> nat) list \<Rightarrow> nat \<Rightarrow> nat" where
  "level f [] n = n"
| "level f ((_, rising, i) # es) n = level f es (if f i then if rising then n + 1 else n - 1 else n)"

abbreviation upto_point :: "'t::linorder \<Rightarrow> ('t \<times> 'x) list \<Rightarrow> ('t \<times> 'x) list" where
  "upto_point p es \<equiv> takeWhile (\<lambda>e. fst e \<le> p) es"

lemma level_append: "level f (xs @ ys) n = level f ys (level f xs n)"
  by (induction f xs n rule: level.induct) auto

lemma level_falls:
  "level f (map (\<lambda>(pt, j). (pt, False, j)) hs) n = n - length (filter (\<lambda>(pt, j). f j) hs)"
  by (induction hs arbitrary: n) auto

lemma takeWhile_append_all:
  "\<forall>x\<in>set xs. P x \<Longrightarrow> takeWhile P (xs @ ys) = xs @ takeWhile P ys"
  by (induction xs) auto

lemma length_filter_insort: "length (filter P (insort x xs)) = (if P x then 1 else 0) + length (filter P xs)"
  by (induction xs) auto

lemma length_filter_split:
  "length (filter P (takeWhile Q xs)) + length (filter P (dropWhile Q xs)) = length (filter P xs)"
  by (metis filter_append length_append takeWhile_dropWhile_id)

lemma sorted_fst: "sorted xs \<Longrightarrow> sorted (map fst xs)"
  by (induction xs) (auto simp: less_eq_prod_def order.strict_implies_order)

lemma dropWhile_above:
  assumes "sorted (hs :: ('t::linorder \<times> 'j::linorder) list)"
    and "x \<in> set (dropWhile (\<lambda>(pt, j). pt \<le> l) hs)"
  shows "l < fst x"
  using assms
proof (induction hs)
  case (Cons h hs)
  show ?case
  proof (cases "fst h \<le> l")
    case True
    then show ?thesis using Cons by (auto simp: case_prod_unfold)
  next
    case False
    then have "fst h \<le> fst x"
      using Cons.prems sorted_fst [OF Cons.prems(1)] by (auto simp: case_prod_unfold)
    then show ?thesis using False by simp
  qed
qed simp

lemma takeWhile_sorted:
  "sorted (hs :: ('t::linorder \<times> 'j::linorder) list)
    \<Longrightarrow> takeWhile (\<lambda>(pt, j). pt \<le> l) hs = filter (\<lambda>(pt, j). pt \<le> l) hs"
proof (induction hs)
  case (Cons h hs)
  show ?case
  proof (cases "fst h \<le> l")
    case False
    then have "\<forall>x\<in>set hs. \<not> fst x \<le> l"
      using sorted_fst [OF Cons.prems] by (auto dest: order_trans)
    then have "filter (\<lambda>(pt, j). pt \<le> l) hs = []"
      by (simp add: filter_empty_conv case_prod_unfold)
    then show ?thesis using False by (simp add: case_prod_unfold)
  qed (use Cons in \<open>simp add: case_prod_unfold\<close>)
qed simp

lemma level_falls_upto:
  assumes "sorted (h :: ('t::linorder \<times> nat) list)"
  shows "level f (map (\<lambda>(pt, j). (pt, False, j)) (takeWhile (\<lambda>(pt, j). pt \<le> p) h)) n
    = n - length (filter (\<lambda>(pt, j). f j \<and> pt \<le> p) h)"
  by (simp only: level_falls takeWhile_sorted [OF assms] filter_filter) (simp add: case_prod_unfold conj_commute)

lemma upto_falls:
  "upto_point p (map (\<lambda>(pt, j). (pt, False, j)) h)
    = map (\<lambda>(pt, j). (pt, False, j)) (takeWhile (\<lambda>(pt, j). pt \<le> p) h)"
  by (simp add: takeWhile_map comp_def case_prod_unfold)

lemma takeWhile_stronger:
  "(\<And>x. Q x \<Longrightarrow> P x) \<Longrightarrow> takeWhile Q (takeWhile P xs) = takeWhile Q xs"
  by (induction xs) auto

lemma level_sweep:
  assumes "sorted ms" and "sorted h" and "length (filter (\<lambda>(pt, j). f j) h) \<le> n"
  shows "level f (upto_point p (sweep ms h)) n =
    n - length (filter (\<lambda>(pt, j). f j \<and> pt \<le> p) h)
      + length (filter (\<lambda>(l, i, r). f i \<and> l \<le> p \<and> p < r) ms)"
  using assms
proof (induction ms h arbitrary: n rule: sweep.induct)
  case (1 h)
  then show ?case by (simp add: upto_falls level_falls_upto)
next
  case (2 l i r ms h)
  let ?pop = "takeWhile (\<lambda>(pt, j). pt \<le> l) h" and ?rest = "dropWhile (\<lambda>(pt, j). pt \<le> l) h"
  let ?F = "\<lambda>(pt, j). f j" and ?G = "\<lambda>(pt, j). f j \<and> pt \<le> p"
  have ms: "sorted ms" "\<forall>m\<in>set ms. l \<le> fst m"
    using 2(2) sorted_fst [OF 2(2)] by simp_all
  have count: "length (filter ?F ?pop) + length (filter ?F ?rest) \<le> n"
    using 2(4) by (simp only: length_filter_split)
  have split: "length (filter ?G h) = length (filter ?G ?pop) + length (filter ?G ?rest)"
    by (simp only: length_filter_split)
  show ?case
  proof (cases "l \<le> p")
    case True
    have pop: "filter ?G ?pop = filter ?F ?pop"
      using True by (intro filter_cong) (auto dest: set_takeWhileD)
    have falls: "\<forall>x\<in>set (map (\<lambda>(pt, j). (pt, False, j)) ?pop). fst x \<le> p"
      using True by (auto dest: set_takeWhileD)
    let ?n = "if f i then n - length (filter ?F ?pop) + 1 else n - length (filter ?F ?pop)"
    have IH: "level f (upto_point p (sweep ms (insort (r, i) ?rest))) ?n =
        ?n - length (filter ?G (insort (r, i) ?rest))
          + length (filter (\<lambda>(l, i, r). f i \<and> l \<le> p \<and> p < r) ms)"
      by (rule 2(1)) (use ms(1) 2(3) count in
        \<open>auto simp: length_filter_insort sorted_insort intro: sorted_dropWhile\<close>)
    have "length (filter ?G xs) \<le> length (filter ?F xs)" for xs
      by (induction xs) auto
    note le = this [of ?rest]
    have "level f (upto_point p (sweep ((l, i, r) # ms) h)) n
        = level f (upto_point p (sweep ms (insort (r, i) ?rest))) ?n"
      using True by (simp add: takeWhile_append_all [OF falls] level_append level_falls)
    then show ?thesis
      using True le count unfolding IH split pop length_filter_insort by auto
  next
    case False
    have none: "filter (\<lambda>(l, i, r). f i \<and> l \<le> p \<and> p < r) ms = []"
      using ms(2) False by (fastforce simp: filter_empty_conv)
    have "upto_point p (sweep ((l, i, r) # ms) h) = upto_point p (map (\<lambda>(pt, j). (pt, False, j)) ?pop)"
      using False by (simp add: takeWhile_tail)
    also have "\<dots> = map (\<lambda>(pt, j). (pt, False, j)) (takeWhile (\<lambda>(pt, j). pt \<le> p) h)"
      unfolding upto_falls by (subst takeWhile_stronger) (use False in auto)
    finally show ?thesis
      using False none 2(3) by (simp add: level_falls_upto)
  qed
qed

lemma level_sweep_end:
  assumes "length (filter (\<lambda>(pt, j). f j) h) \<le> n"
  shows "level f (sweep ms h) n = n - length (filter (\<lambda>(pt, j). f j) h)"
  using assms
proof (induction ms h arbitrary: n rule: sweep.induct)
  case (1 h)
  show ?case by (simp add: level_falls)
next
  case (2 l i r ms h)
  let ?pop = "takeWhile (\<lambda>(pt, j). pt \<le> l) h" and ?rest = "dropWhile (\<lambda>(pt, j). pt \<le> l) h"
  let ?F = "\<lambda>(pt, j). f j"
  have split: "length (filter ?F h) = length (filter ?F ?pop) + length (filter ?F ?rest)"
    by (simp only: length_filter_split)
  let ?n = "if f i then n - length (filter ?F ?pop) + 1 else n - length (filter ?F ?pop)"
  have IH: "level f (sweep ms (insort (r, i) ?rest)) ?n = ?n - length (filter ?F (insort (r, i) ?rest))"
    by (rule 2(1)) (use 2(2) split in \<open>auto simp: length_filter_insort\<close>)
  have "level f (sweep ((l, i, r) # ms) h) n = level f (sweep ms (insort (r, i) ?rest)) ?n"
    by (simp add: level_append level_falls)
  then show ?case
    using 2(2) split unfolding IH length_filter_insort by auto
qed

lemma sweep_set:
  "set (sweep ms h) = (\<lambda>m. (fst m, True, fst (snd m))) ` set ms
    \<union> (\<lambda>m. (snd (snd m), False, fst (snd m))) ` set ms \<union> (\<lambda>x. (fst x, False, snd x)) ` set h"
proof (induction ms h rule: sweep.induct)
  case (2 l i r ms h)
  have "set (takeWhile (\<lambda>(pt, j). pt \<le> l) h) \<union> set (dropWhile (\<lambda>(pt, j). pt \<le> l) h) = set h"
    by (metis set_append takeWhile_dropWhile_id)
  with 2 show ?case by (auto simp: set_insort_key case_prod_unfold)
qed (simp add: case_prod_unfold)

lemma sweep_sorted:
  assumes "sorted ms" and "sorted h" and "\<forall>m\<in>set ms. fst m \<le> snd (snd m)"
  shows "sorted (map fst (sweep ms h))"
  using assms
proof (induction ms h rule: sweep.induct)
  case (1 h)
  then show ?case using sorted_fst [of h] by (simp add: comp_def case_prod_unfold)
next
  case (2 l i r ms h)
  let ?pop = "takeWhile (\<lambda>(pt, j). pt \<le> l) h" and ?rest = "insort (r, i) (dropWhile (\<lambda>(pt, j). pt \<le> l) h)"
  have ms: "sorted ms" "\<forall>m\<in>set ms. l \<le> fst m"
    using 2(2) sorted_fst [OF 2(2)] by simp_all
  have IH: "sorted (map fst (sweep ms ?rest))"
    by (rule 2(1)) (use ms 2(3,4) in \<open>auto simp: sorted_insort intro: sorted_dropWhile\<close>)
  have "\<forall>x\<in>set ?rest. l \<le> fst x"
    using dropWhile_above [OF 2(3), of _ l] 2(4) by (fastforce simp: set_insort_key)
  moreover have "\<forall>m\<in>set ms. l \<le> snd (snd m)"
    using ms(2) 2(4) by (meson list.set_intros(2) order_trans)
  ultimately have above: "\<forall>e\<in>set (sweep ms ?rest). l \<le> fst e"
    using ms unfolding sweep_set by auto
  have pop: "sorted (map fst ?pop)"
    using sorted_fst [OF 2(3)] by (metis sorted_append map_append takeWhile_dropWhile_id)
  have low: "\<forall>x\<in>set ?pop. fst x \<le> l" by (auto dest: set_takeWhileD)
  have eq: "map fst (sweep ((l, i, r) # ms) h) = map fst ?pop @ l # map fst (sweep ms ?rest)"
    by (simp add: comp_def case_prod_unfold)
  have cross: "\<forall>x\<in>set (map fst ?pop). \<forall>y\<in>set (l # map fst (sweep ms ?rest)). x \<le> y"
  proof (intro ballI)
    fix x y
    assume "x \<in> set (map fst ?pop)" and y: "y \<in> set (l # map fst (sweep ms ?rest))"
    then have "x \<le> l" using low by auto
    moreover have "l \<le> y" using y above by auto
    ultimately show "x \<le> y" by (rule order_trans)
  qed
  have "sorted (l # map fst (sweep ms ?rest))" using IH above by simp
  with pop cross show ?case
    unfolding eq sorted_append by (intro conjI)
qed

subsection \<open>What combining yields\<close>

definition counted :: "('d, nat) dict \<Rightarrow> bool" where
  "counted active \<longleftrightarrow> (\<forall>d. map_of active d \<noteq> Some 0)"

lemma counted_keys:
  assumes "counted active"
  shows "d \<in> set (dict_keys active) \<longleftrightarrow> 0 < held active d"
proof (cases "map_of active d")
  case None
  then have "d \<notin> set (dict_keys active)" unfolding map_of_None_key .
  with None show ?thesis by (simp add: held_def)
next
  case (Some n)
  moreover have "n \<noteq> 0" using assms Some unfolding counted_def by (intro notI) simp
  ultimately show ?thesis using map_of_Some_key [OF Some] by (simp add: held_def)
qed

lemma count_datum_counted: "counted active \<Longrightarrow> counted (count_datum rising d active)"
  by (auto simp: counted_def count_datum_def delete_conv restrict_map_def)

lemma held_count_datum:
  assumes "counted active"
  shows "held (count_datum rising d active) d' =
    (if d' = d then if rising then held active d' + 1 else held active d' - 1 else held active d')"
proof -
  have "map_of active d \<noteq> Some 0" using assms by (simp add: counted_def)
  then show ?thesis
    by (auto simp: held_def count_datum_def delete_conv' split: option.splits)
qed

lemma combine_loop:
  assumes T: "lawful T" and "counted active"
    and "sorted (map fst es)" and "\<forall>e\<in>set es. left \<le> fst e" and "\<forall>e\<in>set es. snd (snd e) < length data"
    and "\<forall>d. 0 < held active d \<longrightarrow> d \<in> set data"
    and "\<forall>d. level (\<lambda>i. data ! i = d) es (held active d) = 0"
  shows "\<exists>l a t'. rfold (combine_step T data) es (left, active, t) = Inr (l, a, t')
    \<and> (p < left \<longrightarrow> covering p (set (it_items T t')) = covering p (set (it_items T t)))
    \<and> (left \<le> p \<and> covering p (set (it_items T t)) = {} \<longrightarrow>
        (let now = filter (\<lambda>d. 0 < level (\<lambda>i. data ! i = d) (upto_point p es) (held active d)) data
         in reads p (set (it_items T t')) (if now = [] then None else Some now)))"
  using assms(2-)
proof (induction es arbitrary: left active t)
  case Nil
  then show ?case by (simp add: reads_def filter_empty_conv)
next
  case (Cons e es)
  obtain right rising i where e: "e = (right, rising, i)" by (cases e)
  let ?hs = "filter (\<lambda>d. d \<in> set (dict_keys active)) data"
  let ?active = "count_datum rising (data ! i) active"
  have lr: "left \<le> right" and i: "i < length data" using Cons.prems e by auto
  have hs: "?hs = filter (\<lambda>d. 0 < held active d) data"
    by (rule filter_cong) (simp_all add: counted_keys [OF Cons.prems(1)] del: set_map list.set_map)
  have empty: "active = [] \<longleftrightarrow> ?hs = []"
  proof
    assume "?hs = []"
    then have "\<forall>d. d \<notin> set (dict_keys active)"
      using Cons.prems(5) unfolding counted_keys [OF Cons.prems(1)] filter_empty_conv by blast
    then show "active = []" by (cases active) auto
  qed simp
  obtain t1 where t1: "(if active \<noteq> [] \<and> left < right then it_addi T left right ?hs t else Inr t) = Inr t1"
    and items: "set (it_items T t1) = (if active \<noteq> [] \<and> left < right
      then insert (left, right, ?hs) (set (it_items T t)) else set (it_items T t))"
  proof (cases "active \<noteq> [] \<and> left < right")
    case True
    then obtain t' where "it_addi T left right ?hs t = Inr t'"
      and "set (it_items T t') = insert (left, right, ?hs) (set (it_items T t))"
      using lawful_addi [OF T] by blast
    with True that [of t'] show thesis by simp
  qed (use that [of t] in auto)
  have held: "held ?active d = (if data ! i = d then if rising then held active d + 1 else held active d - 1 else held active d)" for d
    by (simp add: held_count_datum [OF Cons.prems(1)])
  have step: "rfold (combine_step T data) (e # es) (left, active, t) = rfold (combine_step T data) es (right, ?active, t1)"
    using t1 i by (simp add: e)
  have "\<exists>l a t'. rfold (combine_step T data) es (right, ?active, t1) = Inr (l, a, t')
    \<and> (p < right \<longrightarrow> covering p (set (it_items T t')) = covering p (set (it_items T t1)))
    \<and> (right \<le> p \<and> covering p (set (it_items T t1)) = {} \<longrightarrow>
        (let now = filter (\<lambda>d. 0 < level (\<lambda>i. data ! i = d) (upto_point p es) (held ?active d)) data
         in reads p (set (it_items T t')) (if now = [] then None else Some now)))"
  proof (rule Cons.IH)
    show "counted ?active" by (rule count_datum_counted [OF Cons.prems(1)])
    show "sorted (map fst es)" "\<forall>e\<in>set es. right \<le> fst e" "\<forall>e\<in>set es. snd (snd e) < length data"
      using Cons.prems(2,4) e by auto
    show "\<forall>d. 0 < held ?active d \<longrightarrow> d \<in> set data"
      using Cons.prems(5) i by (auto simp: held)
    show "\<forall>d. level (\<lambda>i. data ! i = d) es (held ?active d) = 0"
      using Cons.prems(6) by (simp add: e held)
  qed
  then obtain l a t' where run: "rfold (combine_step T data) es (right, ?active, t1) = Inr (l, a, t')"
    and before: "p < right \<longrightarrow> covering p (set (it_items T t')) = covering p (set (it_items T t1))"
    and after: "right \<le> p \<and> covering p (set (it_items T t1)) = {} \<longrightarrow>
        (let now = filter (\<lambda>d. 0 < level (\<lambda>i. data ! i = d) (upto_point p es) (held ?active d)) data
         in reads p (set (it_items T t')) (if now = [] then None else Some now))"
    by blast
  have cov: "covering p (set (it_items T t1)) = (if active \<noteq> [] \<and> left \<le> p \<and> p < right
      then insert (left, right, ?hs) (covering p (set (it_items T t))) else covering p (set (it_items T t)))"
    unfolding items by (auto simp: covering_insert)
  show ?case
  proof (intro exI conjI impI)
    show "rfold (combine_step T data) (e # es) (left, active, t) = Inr (l, a, t')"
      using step run by simp
    show "covering p (set (it_items T t')) = covering p (set (it_items T t))" if "p < left"
      using before cov that lr by auto
    assume p: "left \<le> p \<and> covering p (set (it_items T t)) = {}"
    show "let now = filter (\<lambda>d. 0 < level (\<lambda>i. data ! i = d) (upto_point p (e # es)) (held active d)) data
         in reads p (set (it_items T t')) (if now = [] then None else Some now)"
    proof (cases "p < right")
      case True
      have "covering p (set (it_items T t')) = (if active \<noteq> [] then {(left, right, ?hs)} else {})"
        using before cov p True by auto
      then have "reads p (set (it_items T t')) (if ?hs = [] then None else Some ?hs)"
        by (auto simp: reads_def empty)
      moreover have "upto_point p (e # es) = []" using True by (simp add: e)
      ultimately show ?thesis unfolding hs Let_def by (simp only: level.simps)
    next
      case False
      then have "covering p (set (it_items T t1)) = {}" using cov p by auto
      moreover have "right \<le> p" using False by simp
      ultimately show ?thesis using after by (simp add: e held)
    qed
  qed
qed

text \<open>The specification: the data, in order, of the inputs that hold the point.\<close>

definition holds_at :: "'t::linorder \<Rightarrow> ('t \<times> 't) list \<Rightarrow> bool" where
  "holds_at p ivs \<longleftrightarrow> (\<exists>iv\<in>set ivs. fst iv \<le> p \<and> p < snd iv)"

definition holding :: "'d list \<Rightarrow> ('t::linorder \<times> 't) list list \<Rightarrow> 't \<Rightarrow> 'd list" where
  "holding data inputs p = filter (\<lambda>d. \<exists>i<length inputs. data ! i = d \<and> holds_at p (inputs ! i)) data"

lemma tagged_iff:
  "(l, i, r) \<in> set (tagged inputs) \<longleftrightarrow> i < length inputs \<and> (l, r) \<in> set (inputs ! i)"
proof
  assume "i < length inputs \<and> (l, r) \<in> set (inputs ! i)"
  moreover from this have "(i, inputs ! i) \<in> set (List.enumerate 0 inputs)"
    by (simp add: in_set_enumerate_eq)
  ultimately show "(l, i, r) \<in> set (tagged inputs)"
    unfolding tagged_def set_concat set_map image_image by (intro UN_I [of "(i, inputs ! i)"]) auto
qed (auto simp: tagged_def in_set_enumerate_eq)

lemma holding_count:
  "(\<exists>i<length inputs. data ! i = d \<and> holds_at p (inputs ! i))
    \<longleftrightarrow> 0 < length (filter (\<lambda>(l, i, r). data ! i = d \<and> l \<le> p \<and> p < r) (sort (tagged inputs)))"
  unfolding length_greater_0_conv filter_empty_conv holds_at_def set_sort
  by (force simp: tagged_iff)

lemma combine_correct:
  assumes T: "lawful T" and proper: "\<forall>ivs\<in>set inputs. \<forall>iv\<in>set ivs. fst iv \<le> snd iv"
    and len: "length data = length inputs"
  shows "\<exists>t. combine_interval_trees T inputs data (it_empty T) = Inr t
    \<and> (\<forall>p. reads p (set (it_items T t)) (if holding data inputs p = [] then None else Some (holding data inputs p)))"
proof -
  let ?ms = "sort (tagged inputs)" and ?f = "\<lambda>d i. data ! i = d"
  have ms: "\<forall>m\<in>set ?ms. fst m \<le> snd (snd m)" "\<forall>m\<in>set ?ms. fst (snd m) < length data"
    using proper len by (auto simp: tagged_iff) (metis fst_conv nth_mem snd_conv)
  have sorted: "sorted (map fst (sweep ?ms []))"
    using ms(1) by (intro sweep_sorted) simp_all
  have now: "holding data inputs p = filter (\<lambda>d. 0 < level (?f d) (upto_point p (sweep ?ms [])) (held [] d)) data" for p
    unfolding holding_def holding_count
    using level_sweep [of ?ms "[]"] by (simp add: held_def)
  show ?thesis
  proof (cases "sweep ?ms []")
    case Nil
    then show ?thesis
      using now by (simp add: combine_interval_trees_def held_def reads_def lawful_empty [OF T])
  next
    case (Cons e es)
    obtain left rising i where e: "e = (left, rising, i)" by (cases e)
    have loop: "\<exists>l a t'. rfold (combine_step T data) (e # es) (left, [], it_empty T) = Inr (l, a, t')
      \<and> (p < left \<longrightarrow> covering p (set (it_items T t')) = covering p (set (it_items T (it_empty T))))
      \<and> (left \<le> p \<and> covering p (set (it_items T (it_empty T))) = {} \<longrightarrow>
          (let now = filter (\<lambda>d. 0 < level (?f d) (upto_point p (e # es)) (held [] d)) data
           in reads p (set (it_items T t')) (if now = [] then None else Some now)))" for p
    proof (rule combine_loop [OF T])
      show "\<forall>e'\<in>set (e # es). snd (snd e') < length data"
        using ms(2) unfolding Cons [symmetric] sweep_set by auto
      show "\<forall>d. level (?f d) (e # es) (held [] d) = 0"
        unfolding Cons [symmetric] using level_sweep_end [of "?f d" "[]" 0 ?ms for d]
        by (simp add: held_def)
    qed (use sorted in \<open>auto simp: Cons e counted_def held_def\<close>)
    then obtain l a t where run: "rfold (combine_step T data) (e # es) (left, [], it_empty T) = Inr (l, a, t)"
      by blast
    have "reads p (set (it_items T t)) (if holding data inputs p = [] then None else Some (holding data inputs p))" for p
    proof (cases "p < left")
      case True
      then have "upto_point p (e # es) = []" by (simp add: e)
      then have "holding data inputs p = []" unfolding now Cons by (simp add: held_def)
      then show ?thesis using loop [of p] run True by (simp add: lawful_empty [OF T] reads_def)
    next
      case False
      have "covering p (set (it_items T (it_empty T))) = {}" by (simp add: lawful_empty [OF T])
      moreover obtain l' a' t' where run': "rfold (combine_step T data) (e # es) (left, [], it_empty T) = Inr (l', a', t')"
        and rd: "left \<le> p \<and> covering p (set (it_items T (it_empty T))) = {} \<longrightarrow>
          (let now = filter (\<lambda>d. 0 < level (?f d) (upto_point p (e # es)) (held [] d)) data
           in reads p (set (it_items T t')) (if now = [] then None else Some now))"
        using loop [of p] by (elim exE conjE)
      moreover have "t' = t" using run run' by simp
      moreover have "left \<le> p" using False by simp
      ultimately have "let now = filter (\<lambda>d. 0 < level (?f d) (upto_point p (e # es)) (held [] d)) data
          in reads p (set (it_items T t)) (if now = [] then None else Some now)"
        by (intro mp [OF rd [unfolded \<open>t' = t\<close>]] conjI)
      then show ?thesis unfolding now Cons Let_def .
    qed
    then show ?thesis using run unfolding combine_interval_trees_def by (simp add: Cons e)
  qed
qed

subsection \<open>What intersecting yields\<close>

fun depth_after :: "('t \<times> bool) list \<Rightarrow> int \<Rightarrow> int" where
  "depth_after [] depth = depth"
| "depth_after ((_, rising) # es) depth = depth_after es (if rising then depth + 1 else depth - 1)"

text \<open>Is the point inside the open interval, or will the events up to it leave it inside?\<close>

definition inside :: "nat \<Rightarrow> 't::linorder \<Rightarrow> 't \<Rightarrow> ('t \<times> bool) list \<Rightarrow> int \<Rightarrow> 't option \<Rightarrow> bool" where
  "inside n p lo es depth next_start =
    (if p < lo then (case next_start of None \<Rightarrow> False | Some s \<Rightarrow> s \<le> p)
     else depth_after (upto_point p es) depth = int n)"

definition gains :: "bool \<Rightarrow> 't::linorder \<Rightarrow> ('t \<times> 't \<times> unit) set \<Rightarrow> ('t \<times> 't \<times> unit) set \<Rightarrow> bool" where
  "gains hit p S S' \<longleftrightarrow>
    (if hit then covering p S = {} \<longrightarrow> reads p S' (Some ()) else covering p S' = covering p S)"

lemma intersect_loop:
  assumes T: "lawful T"
    and "sorted (map fst es)" and "\<forall>e\<in>set es. lo \<le> fst e"
    and "case next_start of None \<Rightarrow> depth \<noteq> int n | Some s \<Rightarrow> depth = int n \<and> s \<le> lo"
    and "depth_after es depth \<noteq> int n"
  shows "\<exists>d ns t'. rfold (intersect_step T n) es (depth, next_start, t) = Inr (d, ns, t')
    \<and> gains (inside n p lo es depth next_start) p (set (it_items T t)) (set (it_items T t'))"
  using assms(2-)
proof (induction es arbitrary: lo depth next_start t)
  case Nil
  then show ?case by (auto simp: gains_def inside_def split: option.splits)
next
  case (Cons e es)
  obtain pt rising where e: "e = (pt, rising)" by (cases e)
  let ?depth = "if rising then depth + 1 else depth - 1"
  have lo: "lo \<le> pt" and es: "sorted (map fst es)" "\<forall>e\<in>set es. pt \<le> fst e"
    and end_: "depth_after es ?depth \<noteq> int n"
    using Cons.prems e by auto
  let ?ns = "if ?depth = int n then Some (case next_start of None \<Rightarrow> pt | Some s \<Rightarrow> s) else None"
  have ns: "case ?ns of None \<Rightarrow> ?depth \<noteq> int n | Some s \<Rightarrow> ?depth = int n \<and> s \<le> pt"
    using Cons.prems(3) lo by (auto split: option.splits)
  obtain t1 where step: "intersect_step T n e (depth, next_start, t) = Inr (?depth, ?ns, t1)"
    and items: "set (it_items T t1) = set (it_items T t) \<union>
      (case next_start of None \<Rightarrow> {} | Some s \<Rightarrow> if ?depth \<noteq> int n \<and> s < pt then {(s, pt, ())} else {})"
  proof (cases "\<exists>s. next_start = Some s \<and> ?depth \<noteq> int n \<and> s < pt")
    case True
    then obtain s where s: "next_start = Some s" "?depth \<noteq> int n" "s < pt" by blast
    obtain t' where "it_addi T s pt () t = Inr t'" "set (it_items T t') = insert (s, pt, ()) (set (it_items T t))"
      using lawful_addi [OF T s(3)] by blast
    then show thesis using s that [of t'] by (simp add: e Let_def)
  next
    case False
    show thesis
    proof (rule that [of t])
      show "intersect_step T n e (depth, next_start, t) = Inr (?depth, ?ns, t)"
        using False by (cases next_start) (auto simp: e Let_def)
      show "set (it_items T t) = set (it_items T t) \<union>
          (case next_start of None \<Rightarrow> {} | Some s \<Rightarrow> if ?depth \<noteq> int n \<and> s < pt then {(s, pt, ())} else {})"
        using False by (cases next_start) auto
    qed
  qed
  from Cons.IH [OF es ns end_, of t1] obtain d ns' t' where
    run: "rfold (intersect_step T n) es (?depth, ?ns, t1) = Inr (d, ns', t')"
    and g: "gains (inside n p pt es ?depth ?ns) p (set (it_items T t1)) (set (it_items T t'))"
    by blast
  have "gains (inside n p lo (e # es) depth next_start) p (set (it_items T t)) (set (it_items T t'))"
  proof (cases "pt \<le> p")
    case True
    then have "inside n p lo (e # es) depth next_start = inside n p pt es ?depth ?ns"
      using order.strict_trans2 [of p lo pt] lo by (auto simp: inside_def e not_less)
    moreover have "covering p (set (it_items T t1)) = covering p (set (it_items T t))"
      unfolding items using True by (auto simp: covering_def split: option.splits)
    ultimately show ?thesis using g by (simp add: gains_def)
  next
    case False
    have open_: "inside n p lo (e # es) depth next_start = (case next_start of None \<Rightarrow> False | Some s \<Rightarrow> s \<le> p)"
      using False Cons.prems(3) by (auto simp: inside_def e split: option.splits)
    have rest: "inside n p pt es ?depth ?ns = (case ?ns of None \<Rightarrow> False | Some s \<Rightarrow> s \<le> p)"
      using False by (simp add: inside_def not_le)
    show ?thesis
    proof (cases "?depth = int n")
      case True
      have "covering p (set (it_items T t1)) = covering p (set (it_items T t))"
        unfolding items using True by (cases next_start) (simp_all only: if_False simp_thms Un_empty_right option.case)
      moreover have "inside n p pt es ?depth ?ns = inside n p lo (e # es) depth next_start"
        unfolding open_ rest using True False by (auto split: option.splits)
      ultimately show ?thesis using g by (simp add: gains_def)
    next
      case no: False
      have "\<not> inside n p pt es ?depth ?ns" unfolding rest using no by simp
      then have "covering p (set (it_items T t')) = covering p (set (it_items T t1))"
        using g by (simp add: gains_def)
      also have "\<dots> = (if inside n p lo (e # es) depth next_start
          then insert (the next_start, pt, ()) (covering p (set (it_items T t)))
          else covering p (set (it_items T t)))"
        unfolding items open_ using no False Cons.prems(3) lo
        by (auto simp: covering_def split: option.splits)
      finally show ?thesis by (simp add: gains_def reads_def)
    qed
  qed
  then show ?case using step run by auto
qed

text \<open>The events are those of the counting sweep with a single input index.\<close>

fun no_underflow :: "('t \<times> bool \<times> nat) list \<Rightarrow> nat \<Rightarrow> bool" where
  "no_underflow [] n = True"
| "no_underflow ((_, rising, _) # es) n =
    ((rising \<or> 0 < n) \<and> no_underflow es (if rising then n + 1 else n - 1))"

abbreviation unindexed :: "('t \<times> bool \<times> nat) list \<Rightarrow> ('t \<times> bool) list" where
  "unindexed \<equiv> map (\<lambda>e. (fst e, fst (snd e)))"

lemma depth_level:
  "no_underflow es n \<Longrightarrow> depth_after (unindexed es) (int n) = int (level (\<lambda>_. True) es n)"
proof (induction es n rule: no_underflow.induct)
  case (2 t rising i es n)
  then show ?case by (cases rising) (auto simp: add.commute of_nat_diff)
qed simp

lemma no_underflow_falls: "no_underflow (map (\<lambda>(pt, j). (pt, False, j)) h @ es) n \<longleftrightarrow>
    length h \<le> n \<and> no_underflow es (n - length h)"
  by (induction h arbitrary: n) auto

lemma no_underflow_upto: "no_underflow es n \<Longrightarrow> no_underflow (upto_point p es) n"
  by (induction es n rule: no_underflow.induct) auto

lemma no_underflow_sweep: "length h \<le> n \<Longrightarrow> no_underflow (sweep ms h) n"
proof (induction ms h arbitrary: n rule: sweep.induct)
  case (1 h)
  then show ?case using no_underflow_falls [of h "[]" n] by simp
next
  case (2 l i r ms h)
  have split: "length h = length (takeWhile (\<lambda>(pt, j). pt \<le> l) h) + length (dropWhile (\<lambda>(pt, j). pt \<le> l) h)"
    by (metis length_append takeWhile_dropWhile_id)
  show ?case unfolding sweep.simps no_underflow_falls no_underflow.simps
    using 2 split by auto
qed

lemma insort_index: "insort (r, 0 :: nat) (map (\<lambda>t. (t, 0)) h) = map (\<lambda>t. (t, 0)) (insort r h)"
  by (induction h) auto

lemma sweep_ends_unindexed:
  "sweep_ends ms h = unindexed (sweep (map (\<lambda>(l, r). (l, 0, r)) ms) (map (\<lambda>t. (t, 0)) h))"
proof (induction ms h rule: sweep_ends.induct)
  case (2 l r ms h)
  then show ?case
    by (simp add: takeWhile_map dropWhile_map comp_def insort_index)
qed simp

lemma sorted_index: "sorted ms \<Longrightarrow> sorted (map (\<lambda>(l, r). (l, 0 :: nat, r)) ms)"
  by (induction ms) auto

definition disjoint :: "('t::linorder \<times> 't) list \<Rightarrow> bool" where
  "disjoint ivs \<longleftrightarrow> distinct ivs
    \<and> (\<forall>iv\<in>set ivs. fst iv < snd iv \<and> (\<forall>jv\<in>set ivs. iv = jv \<or> snd iv \<le> fst jv \<or> snd jv \<le> fst iv))"

lemma disjoint_holds:
  assumes "disjoint ivs"
  shows "length (filter (\<lambda>iv. fst iv \<le> p \<and> p < snd iv) ivs) = (if holds_at p ivs then 1 else 0)"
proof (cases "holds_at p ivs")
  case True
  then obtain iv where iv: "iv \<in> set ivs" "fst iv \<le> p" "p < snd iv" by (auto simp: holds_at_def)
  have "set (filter (\<lambda>iv. fst iv \<le> p \<and> p < snd iv) ivs) = {iv}"
    using assms iv unfolding disjoint_def by (fastforce simp: not_le)
  moreover have "distinct (filter (\<lambda>iv. fst iv \<le> p \<and> p < snd iv) ivs)"
    using assms by (simp add: disjoint_def)
  ultimately show ?thesis
    using True distinct_card by (metis One_nat_def card.empty card_insert_disjoint empty_iff finite.emptyI)
next
  case False
  then show ?thesis by (auto simp: holds_at_def filter_empty_conv)
qed

lemma length_filter_sort: "length (filter P (sort xs)) = length (filter P xs)"
  by (simp add: filter_sort)

lemma all_hold_count:
  assumes "\<forall>ivs\<in>set inputs. disjoint ivs"
  shows "length (filter (\<lambda>iv. fst iv \<le> p \<and> p < snd iv) (concat inputs)) \<le> length inputs
    \<and> (length (filter (\<lambda>iv. fst iv \<le> p \<and> p < snd iv) (concat inputs)) = length inputs
       \<longleftrightarrow> (\<forall>ivs\<in>set inputs. holds_at p ivs))"
  using assms
proof (induction inputs)
  case (Cons ivs inputs)
  then show ?case by (auto simp: disjoint_holds)
qed simp

lemma intersect_correct:
  assumes T: "lawful T" and ok: "\<forall>ivs\<in>set inputs. disjoint ivs" and some: "inputs \<noteq> []"
  shows "\<exists>t. intersect_interval_trees T inputs (it_empty T) = Inr t
    \<and> (\<forall>p. reads p (set (it_items T t)) (if \<forall>ivs\<in>set inputs. holds_at p ivs then Some () else None))"
proof -
  let ?n = "length inputs" and ?ms = "sort (concat inputs)"
  let ?idx = "map (\<lambda>(l, r). (l, 0 :: nat, r)) ?ms"
  let ?es = "sweep ?idx []"
  have events: "sweep_ends ?ms [] = unindexed ?es" by (simp add: sweep_ends_unindexed)
  have "\<forall>m\<in>set ?idx. fst m \<le> snd (snd m)"
    using ok by (fastforce simp: disjoint_def)
  then have sorted: "sorted (map fst (unindexed ?es))"
    using sweep_sorted [of ?idx "[]"] by (simp add: sorted_index comp_def)
  have depth: "depth_after (upto_point p (unindexed ?es)) 0
      = int (length (filter (\<lambda>iv. fst iv \<le> p \<and> p < snd iv) (concat inputs)))" for p
  proof -
    have "upto_point p (unindexed ?es) = unindexed (upto_point p ?es)"
      by (simp add: takeWhile_map comp_def)
    then have "depth_after (upto_point p (unindexed ?es)) 0 = int (level (\<lambda>_. True) (upto_point p ?es) 0)"
      using depth_level [OF no_underflow_upto [OF no_underflow_sweep], of "[]" 0 p ?idx] by simp
    also have "level (\<lambda>_. True) (upto_point p ?es) 0 = length (filter (\<lambda>(l, i, r). l \<le> p \<and> p < r) ?idx)"
      using level_sweep [of ?idx "[]" "\<lambda>_. True" 0 p] by (simp add: sorted_index)
    also have "\<dots> = length (filter (\<lambda>iv. fst iv \<le> p \<and> p < snd iv) (concat inputs))"
      by (simp add: filter_map comp_def case_prod_unfold length_filter_sort)
    finally show ?thesis by simp
  qed
  have final: "depth_after (unindexed ?es) 0 = 0"
    using depth_level [OF no_underflow_sweep, of "[]" 0 ?idx] level_sweep_end [of "\<lambda>_. True" "[]" 0 ?idx] by simp
  have loop: "\<exists>d ns t'. rfold (intersect_step T ?n) (unindexed ?es) (0, None, it_empty T) = Inr (d, ns, t')
    \<and> gains (inside ?n p lo (unindexed ?es) 0 None) p (set (it_items T (it_empty T))) (set (it_items T t'))"
    if "\<forall>e\<in>set (unindexed ?es). lo \<le> fst e" for p lo
    by (rule intersect_loop [OF T sorted that]) (use some final in auto)
  then obtain d ns t where run: "rfold (intersect_step T ?n) (unindexed ?es) (0, None, it_empty T) = Inr (d, ns, t)"
    using loop [of "Min (fst ` set (unindexed ?es))"] by fastforce
  have "reads p (set (it_items T t)) (if \<forall>ivs\<in>set inputs. holds_at p ivs then Some () else None)" for p
  proof -
    let ?lo = "Min (insert p (fst ` set (unindexed ?es)))"
    have "\<forall>e\<in>set (unindexed ?es). ?lo \<le> fst e" by simp
    from loop [OF this, of p] run
    have g: "gains (inside ?n p ?lo (unindexed ?es) 0 None) p (set (it_items T (it_empty T))) (set (it_items T t))"
      by simp
    have "\<not> p < ?lo" by (simp add: not_less)
    then have "inside ?n p ?lo (unindexed ?es) 0 None \<longleftrightarrow> (\<forall>ivs\<in>set inputs. holds_at p ivs)"
      using all_hold_count [OF ok, of p] by (simp add: inside_def depth)
    then show ?thesis using g by (auto simp: gains_def lawful_empty [OF T] reads_def)
  qed
  then show ?thesis using run by (simp add: intersect_interval_trees_def events)
qed

subsection \<open>What stacking and stamping yield\<close>

lemma coveringI: "(x, y, d) \<in> S \<Longrightarrow> x \<le> p \<Longrightarrow> p < y \<Longrightarrow> (x, y, d) \<in> covering p S"
  by (simp add: covering_def)

lemma coveringD: "(x, y, d) \<in> covering p S \<Longrightarrow> (x, y, d) \<in> S \<and> x \<le> p \<and> p < y"
  by (simp add: covering_def)

lemma reads_trimmed:
  assumes r: "reads p S v"
    and fwd: "\<And>x y d. (x, y, d) \<in> S \<Longrightarrow> x \<le> p \<Longrightarrow> p < y \<Longrightarrow> (g x y, h x y, d) \<in> covering p S'"
    and bwd: "\<And>x y d. (x, y, d) \<in> S' \<Longrightarrow> x \<le> p \<Longrightarrow> p < y
      \<Longrightarrow> \<exists>x' y'. (x', y', d) \<in> covering p S \<and> x = g x' y' \<and> y = h x' y'"
  shows "reads p S' v"
proof (cases v)
  case None
  then have "covering p S = {}" using r by (simp add: reads_def)
  have "(x, y, d) \<notin> covering p S'" for x y d
  proof
    assume "(x, y, d) \<in> covering p S'"
    note c = coveringD [OF this]
    have "\<exists>x' y'. (x', y', d) \<in> covering p S \<and> x = g x' y' \<and> y = h x' y'"
      using c by (intro bwd) simp_all
    then show False by (simp add: \<open>covering p S = {}\<close>)
  qed
  then show ?thesis using None by (auto simp: reads_def)
next
  case (Some d)
  then obtain x y where one: "covering p S = {(x, y, d)}" using r by (auto simp: reads_def)
  have "(g x y, h x y, d) \<in> covering p S'"
    using one coveringD [of x y d p S] by (intro fwd) simp_all
  moreover have "z = (g x y, h x y, d)" if z: "z \<in> covering p S'" for z
  proof (cases z)
    case (fields x' y' d')
    note c = coveringD [OF z [unfolded fields]]
    have "\<exists>u w. (u, w, d') \<in> covering p S \<and> x' = g u w \<and> y' = h u w"
      using c by (intro bwd) simp_all
    then show ?thesis by (auto simp: one fields)
  qed
  ultimately have "covering p S' = {(g x y, h x y, d)}" by blast
  then show ?thesis using Some by (simp add: reads_def)
qed

lemma choppedD:
  "(x, y, d) \<in> chopped b e S \<Longrightarrow>
    (x, y, d) \<in> S \<and> (y \<le> b \<or> e \<le> x)
    \<or> y = b \<and> x < b \<and> (\<exists>z. (x, z, d) \<in> S \<and> b < z) \<or> x = e \<and> e < y \<and> (\<exists>z. (z, y, d) \<in> S \<and> z < e)"
  by (simp add: chopped_def)

lemma choppedI:
  "(x, y, d) \<in> S \<Longrightarrow> y \<le> b \<or> e \<le> x \<Longrightarrow> (x, y, d) \<in> chopped b e S"
  "(x, z, d) \<in> S \<Longrightarrow> b < z \<Longrightarrow> x < b \<Longrightarrow> (x, b, d) \<in> chopped b e S"
  "(z, y, d) \<in> S \<Longrightarrow> z < e \<Longrightarrow> e < y \<Longrightarrow> (e, y, d) \<in> chopped b e S"
  by (auto simp: chopped_def)

lemma reads_chopped:
  assumes "b < e" and r: "reads p S v"
  shows "reads p (chopped b e S) (if b \<le> p \<and> p < e then None else v)"
proof -
  consider (before) "p < b" | (within) "b \<le> p" "p < e" | (after) "e \<le> p" by force
  then show ?thesis
  proof cases
    case before
    have "reads p (chopped b e S) v"
    proof (rule reads_trimmed [OF r, of "\<lambda>x y. x" "\<lambda>x y. if b < y then b else y"])
      fix x y d
      assume s: "(x, y, d) \<in> S" "x \<le> p" "p < y"
      show "(x, if b < y then b else y, d) \<in> covering p (chopped b e S)"
      proof (cases "b < y")
        case True
        then show ?thesis using s before choppedI(2) [of x y d S b e] by (simp add: covering_def)
      next
        case False
        then have "(x, y, d) \<in> chopped b e S" using s by (intro choppedI(1)) auto
        then show ?thesis using s False by (simp add: covering_def)
      qed
    next
      fix x y d
      assume s: "(x, y, d) \<in> chopped b e S" "x \<le> p" "p < y"
      have "x < e" using s before assms(1) by simp
      with choppedD [OF s(1)] consider "(x, y, d) \<in> S" "y \<le> b" | z where "y = b" "(x, z, d) \<in> S" "b < z"
        by auto
      then show "\<exists>x' y'. (x', y', d) \<in> covering p S \<and> x = x' \<and> y = (if b < y' then b else y')"
      proof cases
        case 1
        then show ?thesis using s by - (rule exI [of _ x], rule exI [of _ y], auto simp: covering_def)
      next
        case (2 z)
        then show ?thesis using s before by - (rule exI [of _ x], rule exI [of _ z], simp add: covering_def)
      qed
    qed
    moreover have "\<not> (b \<le> p \<and> p < e)" using before by (auto simp: not_le not_less)
    ultimately show ?thesis by (simp only: if_not_P not_False_eq_True if_False)
  next
    case within
    have "(x, y, d) \<notin> covering p (chopped b e S)" for x y d
    proof
      assume "(x, y, d) \<in> covering p (chopped b e S)"
      then have xy: "(x, y, d) \<in> chopped b e S" "x \<le> p" "p < y" by (simp_all add: covering_def)
      then show False using choppedD [OF xy(1)] within by auto
    qed
    then show ?thesis using within by (auto simp: reads_def)
  next
    case after
    have "reads p (chopped b e S) v"
    proof (rule reads_trimmed [OF r, of "\<lambda>x y. if x < e then e else x" "\<lambda>x y. y"])
      fix x y d
      assume s: "(x, y, d) \<in> S" "x \<le> p" "p < y"
      show "(if x < e then e else x, y, d) \<in> covering p (chopped b e S)"
      proof (cases "x < e")
        case True
        then show ?thesis using s after choppedI(3) [of x y d S e b] by (simp add: covering_def)
      next
        case False
        then have "(x, y, d) \<in> chopped b e S" using s by (intro choppedI(1)) auto
        then show ?thesis using s False by (simp add: covering_def)
      qed
    next
      fix x y d
      assume s: "(x, y, d) \<in> chopped b e S" "x \<le> p" "p < y"
      have "b < y" using s after assms(1) by simp
      with choppedD [OF s(1)] consider "(x, y, d) \<in> S" "e \<le> x" | z where "x = e" "(z, y, d) \<in> S" "z < e"
        by auto
      then show "\<exists>x' y'. (x', y', d) \<in> covering p S \<and> x = (if x' < e then e else x') \<and> y = y'"
      proof cases
        case 1
        then show ?thesis using s by - (rule exI [of _ x], rule exI [of _ y], auto simp: covering_def)
      next
        case (2 z)
        then show ?thesis using s after by - (rule exI [of _ z], rule exI [of _ y], auto simp: covering_def)
      qed
    qed
    moreover have "\<not> (b \<le> p \<and> p < e)" using after by (auto simp: not_le not_less)
    ultimately show ?thesis by (simp only: if_not_P not_False_eq_True if_False)
  qed
qed

lemma slicedD:
  "(x, y, d) \<in> sliced p S \<Longrightarrow>
    (x, y, d) \<in> S \<and> \<not> (x < p \<and> p < y)
    \<or> y = p \<and> x < p \<and> (\<exists>z. (x, z, d) \<in> S \<and> p < z) \<or> x = p \<and> p < y \<and> (\<exists>z. (z, y, d) \<in> S \<and> z < p)"
  by (simp add: sliced_def)

lemma slicedI:
  "(x, y, d) \<in> S \<Longrightarrow> \<not> (x < p \<and> p < y) \<Longrightarrow> (x, y, d) \<in> sliced p S"
  "(x, y, d) \<in> S \<Longrightarrow> x < p \<Longrightarrow> p < y \<Longrightarrow> (x, p, d) \<in> sliced p S"
  "(x, y, d) \<in> S \<Longrightarrow> x < p \<Longrightarrow> p < y \<Longrightarrow> (p, y, d) \<in> sliced p S"
  by (auto simp: sliced_def)

lemma reads_sliced:
  assumes r: "reads q S v"
  shows "reads q (sliced p S) v"
proof (rule reads_trimmed [OF r, of "\<lambda>x y. if x < p \<and> p < y \<and> p \<le> q then p else x"
      "\<lambda>x y. if x < p \<and> p < y \<and> q < p then p else y"])
  fix x y d
  assume s: "(x, y, d) \<in> S" "x \<le> q" "q < y"
  show "(if x < p \<and> p < y \<and> p \<le> q then p else x, if x < p \<and> p < y \<and> q < p then p else y, d)
      \<in> covering q (sliced p S)"
  proof (cases "x < p \<and> p < y")
    case True
    then show ?thesis
      using s slicedI(2,3) [OF s(1), of p] by (cases "q < p") (auto simp: covering_def not_less)
  next
    case False
    then show ?thesis using s slicedI(1) [OF s(1) False] by (auto simp: covering_def)
  qed
next
  fix x y d
  assume s: "(x, y, d) \<in> sliced p S" "x \<le> q" "q < y"
  from slicedD [OF s(1)] consider "(x, y, d) \<in> S" "\<not> (x < p \<and> p < y)"
    | z where "y = p" "x < p" "(x, z, d) \<in> S" "p < z" | z where "x = p" "p < y" "(z, y, d) \<in> S" "z < p"
    by blast
  then show "\<exists>x' y'. (x', y', d) \<in> covering q S \<and> x = (if x' < p \<and> p < y' \<and> p \<le> q then p else x')
      \<and> y = (if x' < p \<and> p < y' \<and> q < p then p else y')"
  proof cases
    case 1
    then show ?thesis using s by (rule_tac exI [of _ x], rule_tac exI [of _ y]) (auto simp: covering_def)
  next
    case (2 z)
    then show ?thesis using s by (rule_tac exI [of _ x], rule_tac exI [of _ z]) (auto simp: covering_def)
  next
    case (3 z)
    then show ?thesis using s by (rule_tac exI [of _ z], rule_tac exI [of _ y]) (auto simp: covering_def)
  qed
qed

lemma stack_one_reads:
  assumes T: "lawful T" and iv: "fst iv < snd iv"
  shows "\<exists>t'. stack_one T d iv t = Inr t'
    \<and> (\<forall>p v. reads p (set (it_items T t)) v \<longrightarrow>
        reads p (set (it_items T t')) (if fst iv \<le> p \<and> p < snd iv then Some d else v))"
proof -
  let ?t = "it_chop T (fst iv) (snd iv) t"
  obtain t' where t': "it_addi T (fst iv) (snd iv) d ?t = Inr t'"
    and items: "set (it_items T t') = insert (fst iv, snd iv, d) (set (it_items T ?t))"
    by (rule lawful_addi [OF T iv])
  have "reads p (set (it_items T t')) (if fst iv \<le> p \<and> p < snd iv then Some d else v)"
    if r: "reads p (set (it_items T t)) v" for p v
  proof -
    have chop: "reads p (set (it_items T ?t)) (if fst iv \<le> p \<and> p < snd iv then None else v)"
      unfolding lawful_chop [OF T iv] by (rule reads_chopped [OF iv r])
    show ?thesis
    proof (cases "fst iv \<le> p \<and> p < snd iv")
      case True
      then show ?thesis
        using reads_insert [OF chop, of "fst iv" "snd iv" d] unfolding items by simp
    next
      case False
      then show ?thesis
        using reads_insert [OF chop, of "fst iv" "snd iv" d] unfolding items by (simp only: if_False simp_thms)
    qed
  qed
  then show ?thesis using t' by (simp add: stack_one_def)
qed

text \<open>The later input wins, and within an input the later interval.\<close>

fun on_top :: "('d \<times> ('t::linorder \<times> 't) list) list \<Rightarrow> 't \<Rightarrow> 'd option \<Rightarrow> 'd option" where
  "on_top [] p v = v"
| "on_top ((d, ivs) # rest) p v = on_top rest p (if holds_at p ivs then Some d else v)"

lemma stack_list_reads:
  assumes T: "lawful T" and "\<forall>iv\<in>set ivs. fst iv < snd iv"
  shows "\<exists>t'. rfold (stack_one T d) ivs t = Inr t'
    \<and> (\<forall>p v. reads p (set (it_items T t)) v \<longrightarrow>
        reads p (set (it_items T t')) (if holds_at p ivs then Some d else v))"
  using assms(2)
proof (induction ivs arbitrary: t)
  case (Cons iv ivs)
  obtain t1 where t1: "stack_one T d iv t = Inr t1"
    and r1: "\<And>p v. reads p (set (it_items T t)) v \<Longrightarrow>
        reads p (set (it_items T t1)) (if fst iv \<le> p \<and> p < snd iv then Some d else v)"
    using stack_one_reads [OF T, of iv d t] Cons.prems by auto
  obtain t' where t': "rfold (stack_one T d) ivs t1 = Inr t'"
    and r': "\<And>p v. reads p (set (it_items T t1)) v \<Longrightarrow>
        reads p (set (it_items T t')) (if holds_at p ivs then Some d else v)"
    using Cons.IH [of t1] Cons.prems by auto
  have "reads p (set (it_items T t')) (if holds_at p (iv # ivs) then Some d else v)"
    if "reads p (set (it_items T t)) v" for p v
    using r' [OF r1 [OF that]] by (auto simp: holds_at_def split: if_splits)
  then show ?case using t1 t' by auto
qed (simp add: holds_at_def)

lemma stack_correct:
  assumes T: "lawful T" and proper: "\<forall>ivs\<in>set inputs. \<forall>iv\<in>set ivs. fst iv < snd iv"
    and len: "length data = length inputs"
  shows "\<exists>t'. stack_interval_trees T inputs data t = Inr t'
    \<and> (\<forall>p v. reads p (set (it_items T t)) v \<longrightarrow> reads p (set (it_items T t')) (on_top (zip data inputs) p v))"
proof -
  have "\<exists>t'. rfold (\<lambda>(d, ivs). rfold (stack_one T d) ivs) dis t = Inr t'
      \<and> (\<forall>p v. reads p (set (it_items T t)) v \<longrightarrow> reads p (set (it_items T t')) (on_top dis p v))"
    if "\<forall>di\<in>set dis. \<forall>iv\<in>set (snd di). fst iv < snd iv" for dis
    using that
  proof (induction dis arbitrary: t)
    case (Cons di dis)
    obtain d ivs where di: "di = (d, ivs)" by (cases di)
    obtain t1 where t1: "rfold (stack_one T d) ivs t = Inr t1"
      and r1: "\<And>p v. reads p (set (it_items T t)) v \<Longrightarrow> reads p (set (it_items T t1)) (if holds_at p ivs then Some d else v)"
      using stack_list_reads [OF T, of ivs d t] Cons.prems di by auto
    obtain t' where "rfold (\<lambda>(d, ivs). rfold (stack_one T d) ivs) dis t1 = Inr t'"
      and "\<And>p v. reads p (set (it_items T t1)) v \<Longrightarrow> reads p (set (it_items T t')) (on_top dis p v)"
      using Cons.IH [of t1] Cons.prems by auto
    then show ?case using t1 r1 di by auto
  qed simp
  moreover have "\<forall>di\<in>set (zip data inputs). \<forall>iv\<in>set (snd di). fst iv < snd iv"
    using proper by (metis prod.collapse set_zip_rightD)
  ultimately obtain t' where "rfold (\<lambda>(d, ivs). rfold (stack_one T d) ivs) (zip data inputs) t = Inr t'"
    and "\<forall>p v. reads p (set (it_items T t)) v \<longrightarrow> reads p (set (it_items T t')) (on_top (zip data inputs) p v)"
    by blast
  then show ?thesis using len by (simp add: stack_interval_trees_def)
qed

text \<open>Stamping splits at the ends of a stamp, then merges into everything between them.\<close>

lemma split_at_reads:
  assumes T: "lawful T" and "reads q (set (it_items T t)) v"
  shows "reads q (set (it_items T (split_at T p t))) v"
  using assms(2) reads_sliced [of q "set (it_items T t)" v p]
  by (simp add: split_at_def lawful_slice [OF T])

lemma split_at_apart:
  assumes T: "lawful T" and "(x, y, d) \<in> set (it_items T (split_at T p t))"
  shows "\<not> (x < p \<and> p < y)"
proof (cases "it_overlaps_point T p t")
  case True
  then show ?thesis using assms(2) by (auto simp: split_at_def lawful_slice [OF T] sliced_def)
next
  case False
  then show ?thesis
    using assms(2) by (auto simp: split_at_def lawful_overlaps [OF T] order.strict_implies_order)
qed

lemma split_at_keeps_apart:
  assumes T: "lawful T" and "\<forall>(x, y, d)\<in>set (it_items T t). \<not> (x < q \<and> q < y)"
    and "(x, y, d) \<in> set (it_items T (split_at T p t))"
  shows "\<not> (x < q \<and> q < y)"
proof
  assume q: "x < q \<and> q < y"
  have "\<exists>x' y'. (x', y', d) \<in> set (it_items T t) \<and> x' \<le> x \<and> y \<le> y'"
  proof (cases "it_overlaps_point T p t")
    case True
    then have "(x, y, d) \<in> sliced p (set (it_items T t))"
      using assms(3) by (simp add: split_at_def lawful_slice [OF T])
    from slicedD [OF this] show ?thesis by (meson order.refl order.strict_implies_order)
  qed (use assms(3) in \<open>auto simp: split_at_def\<close>)
  then show False using assms(2) q by fastforce
qed

lemma replace_data_loop:
  assumes T: "lawful T" and "distinct ivs" and "set ivs \<subseteq> set (it_items T t)"
  shows "\<exists>t'. rfold (replace_data T f) ivs t = Inr t'
    \<and> (\<forall>p v. reads p (set (it_items T t)) v \<longrightarrow> reads p (set (it_items T t'))
        (if covering p (set ivs) = {} then v else map_option f v))"
  using assms(2,3)
proof (induction ivs arbitrary: t)
  case Nil
  then show ?case by simp
next
  case (Cons iv ivs)
  obtain x y d where iv: "iv = (x, y, d)" by (cases iv)
  have inn: "iv \<in> set (it_items T t)" using Cons.prems by simp
  then have xy: "x < y" using lawful_nonnull [OF T] iv by blast
  obtain t1 where t1: "it_remove T iv t = Inr t1" "set (it_items T t1) = set (it_items T t) - {iv}"
    by (rule lawful_remove [OF T inn])
  obtain t2 where t2: "it_addi T x y (f d) t1 = Inr t2"
      "set (it_items T t2) = insert (x, y, f d) (set (it_items T t1))"
    by (rule lawful_addi [OF T xy])
  have sub: "set ivs \<subseteq> set (it_items T t2)"
    using Cons.prems t1(2) t2(2) by auto
  obtain t' where t': "rfold (replace_data T f) ivs t2 = Inr t'"
    and r': "\<And>p v. reads p (set (it_items T t2)) v \<Longrightarrow> reads p (set (it_items T t'))
        (if covering p (set ivs) = {} then v else map_option f v)"
    using Cons.IH [OF _ sub] Cons.prems(1) by auto
  have step: "replace_data T f iv t = Inr t2"
    using t1(1) t2(1) by (simp add: replace_data_def iv)
  have "reads p (set (it_items T t')) (if covering p (set (iv # ivs)) = {} then v else map_option f v)"
    if r: "reads p (set (it_items T t)) v" for p v
  proof (cases "x \<le> p \<and> p < y")
    case False
    have same: "covering p (set (it_items T t2)) = covering p (set (it_items T t))"
      unfolding t1(2) t2(2) iv using False by (auto simp: covering_def)
    have "covering p (set (iv # ivs)) = covering p (set ivs)"
      using False by (auto simp: covering_def iv)
    moreover have "reads p (set (it_items T t2)) v" using r unfolding reads_def same .
    ultimately show ?thesis using r' by simp
  next
    case True
    then have "iv \<in> covering p (set (it_items T t))" using inn by (simp add: covering_def iv)
    then have one: "covering p (set (it_items T t)) = {iv}" and v: "v = Some d"
      using r by (auto simp: reads_def iv split: option.splits)
    have "covering p (set (it_items T t2)) = {(x, y, f d)}"
      unfolding t1(2) t2(2) covering_insert covering_Diff one using True by simp
    then have "reads p (set (it_items T t2)) (Some (f d))" by (simp add: reads_def)
    moreover have "covering p (set ivs) = {}"
    proof -
      have "covering p (set ivs) \<subseteq> {iv}"
        using Cons.prems(2) one by (auto simp: covering_def)
      moreover have "iv \<notin> covering p (set ivs)"
        using Cons.prems(1) by (auto simp: covering_def iv)
      ultimately show ?thesis by blast
    qed
    ultimately have "reads p (set (it_items T t')) (Some (f d))" using r' by fastforce
    moreover have "covering p (set (iv # ivs)) \<noteq> {}" using True by (auto simp: covering_def iv)
    ultimately show ?thesis by (simp add: v)
  qed
  then show ?case using step t' by auto
qed

lemma stamp_one_reads:
  assumes T: "lawful T" and be: "b < e"
  shows "\<exists>t'. stamp_one T merge_func (b, e, s) t = Inr t'
    \<and> (\<forall>p v. reads p (set (it_items T t)) v \<longrightarrow> reads p (set (it_items T t'))
        (if b \<le> p \<and> p < e then map_option (\<lambda>d. merge_func d s) v else v))"
proof -
  let ?t1 = "split_at T b t" let ?t2 = "split_at T e ?t1" let ?ivs = "it_envelop T b e ?t2"
  have ivs: "distinct ?ivs" "set ?ivs = {(x, y, d). (x, y, d) \<in> set (it_items T ?t2) \<and> b \<le> x \<and> y \<le> e}"
    using lawful_envelop [OF T, of b e ?t2] be by auto
  then obtain t' where t': "rfold (replace_data T (\<lambda>d. merge_func d s)) ?ivs ?t2 = Inr t'"
    and r': "\<And>p v. reads p (set (it_items T ?t2)) v \<Longrightarrow> reads p (set (it_items T t'))
        (if covering p (set ?ivs) = {} then v else map_option (\<lambda>d. merge_func d s) v)"
    using replace_data_loop [OF T ivs(1), of ?t2 "\<lambda>d. merge_func d s"] by auto
  have apart: "\<not> (x < b \<and> b < y)" "\<not> (x < e \<and> e < y)" if "(x, y, d) \<in> set (it_items T ?t2)" for x y d
    using split_at_keeps_apart [OF T _ that, of b] split_at_apart [OF T, of _ _ _ b t]
      split_at_apart [OF T that] by auto
  have "reads p (set (it_items T t')) (if b \<le> p \<and> p < e then map_option (\<lambda>d. merge_func d s) v else v)"
    if r: "reads p (set (it_items T t)) v" for p v
  proof -
    have r2: "reads p (set (it_items T ?t2)) v"
      by (intro split_at_reads [OF T] r)
    have enveloped: "covering p (set ?ivs) = (if b \<le> p \<and> p < e then covering p (set (it_items T ?t2)) else {})"
    proof (cases "b \<le> p \<and> p < e")
      case True
      have "b \<le> x \<and> y \<le> e" if "(x, y, d) \<in> set (it_items T ?t2)" "x \<le> p" "p < y" for x y d
        using apart [OF that(1)] that(2,3) True by (meson leI order.strict_trans1 order.strict_trans2)
      then have "covering p (set ?ivs) = covering p (set (it_items T ?t2))"
        unfolding ivs(2) covering_def by auto
      with True show ?thesis by simp
    next
      case False
      have "\<not> (b \<le> x \<and> y \<le> e \<and> x \<le> p \<and> p < y)" for x y
        using False by (meson order.strict_trans2 order_trans)
      then have "covering p (set ?ivs) = {}" unfolding ivs(2) covering_def by auto
      then show ?thesis unfolding if_not_P [OF False] .
    qed
    show ?thesis
    proof (cases "b \<le> p \<and> p < e")
      case True
      then have "reads p (set (it_items T t')) (if covering p (set (it_items T ?t2)) = {} then v
          else map_option (\<lambda>d. merge_func d s) v)"
        using r' [OF r2] enveloped by simp
      moreover have "v = None" if "covering p (set (it_items T ?t2)) = {}"
        using r2 that by (auto simp: reads_def split: option.splits)
      ultimately show ?thesis using True by (auto split: if_splits)
    next
      case False
      have "covering p (set ?ivs) = {}" using enveloped unfolding if_not_P [OF False] .
      then show ?thesis using r' [OF r2] unfolding if_not_P [OF False] by simp
    qed
  qed
  then show ?thesis using t' by (simp add: Let_def)
qed

lemma stamp_reads:
  assumes T: "lawful T" and "\<forall>(b, e, s)\<in>set stamps. b < e" and "distinct stamps"
    and one: "reads p (set stamps) w"
  shows "\<exists>t'. stamp_interval_trees T t stamps merge_func = Inr t'
    \<and> (\<forall>v. reads p (set (it_items T t)) v \<longrightarrow> reads p (set (it_items T t'))
        (case w of None \<Rightarrow> v | Some s \<Rightarrow> map_option (\<lambda>d. merge_func d s) v))"
  using assms(2-)
proof (induction stamps arbitrary: t w)
  case Nil
  then have "w = None" by (auto simp: reads_def split: option.splits)
  then show ?case by (simp add: stamp_interval_trees_def)
next
  case (Cons st stamps)
  obtain b e s where st: "st = (b, e, s)" by (cases st)
  obtain t1 where t1: "stamp_one T merge_func (b, e, s) t = Inr t1"
    and r1: "\<And>v. reads p (set (it_items T t)) v \<Longrightarrow> reads p (set (it_items T t1))
        (if b \<le> p \<and> p < e then map_option (\<lambda>d. merge_func d s) v else v)"
    using stamp_one_reads [OF T, of b e merge_func s t] Cons.prems(1) st by auto
  let ?w = "if b \<le> p \<and> p < e then None else w"
  have cov: "covering p (set (st # stamps)) =
      (if b \<le> p \<and> p < e then insert st (covering p (set stamps)) else covering p (set stamps))"
    using covering_insert [of p b e s "set stamps"] by (simp add: st)
  have rest: "reads p (set stamps) ?w \<and> (b \<le> p \<and> p < e \<longrightarrow> w = Some s)"
  proof (cases "b \<le> p \<and> p < e")
    case True
    have "st \<notin> covering p (set stamps)" using Cons.prems(2) by (auto simp: covering_def st)
    moreover have cov': "covering p (set (st # stamps)) = insert st (covering p (set stamps))"
      unfolding cov if_P [OF True] ..
    moreover have "w \<noteq> None"
      using Cons.prems(3) cov' unfolding reads_def by (intro notI) (simp del: List.set_simps)
    then obtain s' x y where w: "w = Some s'" "covering p (set (st # stamps)) = {(x, y, s')}"
      using Cons.prems(3) unfolding reads_def by (auto simp del: List.set_simps)
    ultimately have "covering p (set stamps) = {}" "s' = s" using st by (auto simp del: List.set_simps)
    then show ?thesis using True w(1) by (simp add: reads_def)
  next
    case False
    then show ?thesis using Cons.prems(3) cov unfolding reads_def by (simp only: if_not_P simp_thms)
  qed
  obtain t' where t': "rfold (stamp_one T merge_func) stamps t1 = Inr t'"
    and r': "\<And>v. reads p (set (it_items T t1)) v \<Longrightarrow> reads p (set (it_items T t'))
        (case ?w of None \<Rightarrow> v | Some s \<Rightarrow> map_option (\<lambda>d. merge_func d s) v)"
    using Cons.IH [of ?w t1] Cons.prems(1,2) rest by (auto simp: stamp_interval_trees_def)
  have "reads p (set (it_items T t')) (case w of None \<Rightarrow> v | Some s \<Rightarrow> map_option (\<lambda>d. merge_func d s) v)"
    if "reads p (set (it_items T t)) v" for v
    using r' [OF r1 [OF that]] rest by (cases "b \<le> p \<and> p < e") (simp_all only: if_P if_not_P option.case simp_thms)
  then show ?case using t1 t' by (simp add: stamp_interval_trees_def st del: stamp_one.simps)
qed

subsection \<open>An implementation by lists\<close>

definition list_add :: "'a \<Rightarrow> 'a list \<Rightarrow> 'a list" where
  "list_add x xs = (if x \<in> set xs then xs else xs @ [x])"

definition list_chop :: "'t::linorder \<Rightarrow> 't \<Rightarrow> ('t \<times> 't \<times> 'd) list \<Rightarrow> ('t \<times> 't \<times> 'd) list" where
  "list_chop b e ivs = dedup (concat (map (\<lambda>(x, y, d).
     if y \<le> b \<or> e \<le> x then [(x, y, d)]
     else (if x < b then [(x, b, d)] else []) @ (if e < y then [(e, y, d)] else [])) ivs))"

definition list_slice :: "'t::linorder \<Rightarrow> ('t \<times> 't \<times> 'd) list \<Rightarrow> ('t \<times> 't \<times> 'd) list" where
  "list_slice p ivs = dedup (concat (map (\<lambda>(x, y, d).
     if x < p \<and> p < y then [(x, p, d), (p, y, d)] else [(x, y, d)]) ivs))"

text \<open>The lists a tree can be: distinct intervals, none of them empty.\<close>

definition tidy :: "('t::linorder \<times> 't \<times> 'd) list \<Rightarrow> ('t \<times> 't \<times> 'd) list" where
  "tidy ivs = filter (\<lambda>(x, y, d). x < y) (dedup ivs)"

definition list_tree :: "('t::linorder, 'd, ('t \<times> 't \<times> 'd) list) interval_tree" where
  "list_tree = \<lparr>it_empty = [], it_items = tidy,
     it_addi = (\<lambda>b e d t. if b < e then Inr (list_add (b, e, d) (tidy t)) else Inl NullInterval),
     it_remove = (\<lambda>iv t. if iv \<in> set (tidy t) then Inr (filter (\<lambda>jv. jv \<noteq> iv) (tidy t)) else Inl NotInTree),
     it_chop = (\<lambda>b e t. list_chop b e (tidy t)),
     it_slice = (\<lambda>p t. list_slice p (tidy t)),
     it_overlaps_point = (\<lambda>p t. \<exists>(x, y, d)\<in>set (tidy t). x \<le> p \<and> p < y),
     it_envelop = (\<lambda>b e t. filter (\<lambda>(x, y, d). b < e \<and> b \<le> x \<and> y \<le> e) (tidy t))\<rparr>"

lemma list_tree_simps [simp]:
  "it_empty list_tree = []"
  "it_items list_tree = tidy"
  "it_addi list_tree b e d t = (if b < e then Inr (list_add (b, e, d) (tidy t)) else Inl NullInterval)"
  "it_remove list_tree iv t = (if iv \<in> set (tidy t) then Inr (filter (\<lambda>jv. jv \<noteq> iv) (tidy t)) else Inl NotInTree)"
  "it_chop list_tree b e t = list_chop b e (tidy t)"
  "it_slice list_tree p t = list_slice p (tidy t)"
  "it_overlaps_point list_tree p t = (\<exists>(x, y, d)\<in>set (tidy t). x \<le> p \<and> p < y)"
  "it_envelop list_tree b e t = filter (\<lambda>(x, y, d). b < e \<and> b \<le> x \<and> y \<le> e) (tidy t)"
  by (simp_all add: list_tree_def)

lemma tidy_set: "set (tidy t) = {(x, y, d). (x, y, d) \<in> set t \<and> x < y}"
  by (auto simp: tidy_def)

lemma tidy_distinct [simp]: "distinct (tidy t)"
  by (simp add: tidy_def)

lemma tidy_chop:
  assumes "b < e"
  shows "set (tidy (list_chop b e (tidy t))) = chopped b e (set (tidy t))"
proof (intro set_eqI iffI)
  fix z
  assume "z \<in> chopped b e (set (tidy t))"
  moreover obtain x y d where z: "z = (x, y, d)" by (cases z)
  ultimately have c: "(x, y, d) \<in> chopped b e (set (tidy t))" by simp
  from choppedD [OF c] show "z \<in> set (tidy (list_chop b e (tidy t)))"
    using assms unfolding z by (fastforce simp: tidy_set list_chop_def)
qed (use assms in \<open>auto simp: tidy_set list_chop_def chopped_def split: if_splits\<close>)

lemma tidy_slice: "set (tidy (list_slice p (tidy t))) = sliced p (set (tidy t))"
proof (intro set_eqI iffI)
  fix z
  assume "z \<in> sliced p (set (tidy t))"
  moreover obtain x y d where z: "z = (x, y, d)" by (cases z)
  ultimately have c: "(x, y, d) \<in> sliced p (set (tidy t))" by simp
  have "x < y" using c by (auto simp: sliced_def tidy_set)
  moreover have "\<exists>iv\<in>set (tidy t). (x, y, d) \<in> set ((\<lambda>(x, y, d).
     if x < p \<and> p < y then [(x, p, d), (p, y, d)] else [(x, y, d)]) iv)"
    using slicedD [OF c]
  proof (elim disjE conjE exE)
    fix u
    assume "y = p" "x < p" "(x, u, d) \<in> set (tidy t)" "p < u"
    then show ?thesis by (intro bexI [of _ "(x, u, d)"]) auto
  next
    fix u
    assume "x = p" "p < y" "(u, y, d) \<in> set (tidy t)" "u < p"
    then show ?thesis by (intro bexI [of _ "(u, y, d)"]) auto
  qed (intro bexI [of _ "(x, y, d)"], auto)
  then have "(x, y, d) \<in> set (list_slice p (tidy t))"
    unfolding list_slice_def set_dedup set_concat set_map by blast
  ultimately show "z \<in> set (tidy (list_slice p (tidy t)))"
    unfolding z by (simp add: tidy_set)
qed (auto simp: tidy_set list_slice_def sliced_def split: if_splits)

lemma list_tree_lawful: "lawful list_tree"
  unfolding lawful_def
proof (intro conjI allI impI)
  show "it_items list_tree (it_empty list_tree) = []" by (simp add: tidy_def)
next
  fix b e :: 'a and t :: "('a \<times> 'a \<times> 'b) list"
  show "set (it_items list_tree (it_chop list_tree b e t)) = chopped b e (set (it_items list_tree t))" if "b < e"
    using tidy_chop [OF that, of t] by simp
next
  fix p :: 'a and t :: "('a \<times> 'a \<times> 'b) list"
  show "set (it_items list_tree (it_slice list_tree p t)) = sliced p (set (it_items list_tree t))"
    using tidy_slice [of p t] by simp
qed (auto simp: tidy_set list_add_def)

text \<open>Two instances: who offers when, and when both of two conditions hold.\<close>

lemma combine_example:
  "combine_interval_trees list_tree [[(0, 4)], [(2, 6), (8, 9)]] [''a'', ''b''] []
    = Inr [(0, 2, [''a'']), (2, 4, [''a'', ''b'']), (4, 6, [''b'']), (8, 9 :: int, [''b''])]"
  by (simp add: combine_interval_trees_def tagged_def sort_key_def tidy_def dedup_def
      list_add_def held_def count_datum_def)

lemma intersect_example:
  "intersect_interval_trees list_tree [[(0, 4), (5, 9)], [(2, 6)]] []
    = Inr [(2, 4, ()), (5, 6 :: int, ())]"
  by (simp add: intersect_interval_trees_def sort_key_def tidy_def dedup_def list_add_def)

end
