(* ===== verification/Auto_Failure.thy ===== *)
theory Auto_Failure
  imports Kit_Prelude
begin

section \<open>Failure history (core/src/sensorkit/auto/failure.py)\<close>

text \<open>
  \<open>FailureState\<close>: what a controller's lifecycle remembers between procedures, its escalation
  from retries over recovery to emergency shutdown, and the published snapshot.  Event loop
  times are reals, counters integers; \<open>'e\<close> is the live exception.
\<close>

subsection \<open>State and operations\<close>

record 'e failure_state =
  f_recover_after :: int
  f_retry_delay :: real
  f_recovery_attempts :: int
  f_attempt_delay :: real
  f_cycle_delay :: real
  f_stable_period :: real
  f_failures :: int
  f_attempts :: int
  f_retry_at :: "real option"
  f_error :: "'e option"
  f_stable_since :: "real option"

definition recovery_due :: "'e failure_state \<Rightarrow> bool" where
  "recovery_due f \<longleftrightarrow> f_failures f \<ge> f_recover_after f"

definition emergency_due :: "'e failure_state \<Rightarrow> bool" where
  "emergency_due f \<longleftrightarrow> recovery_due f \<and> f_attempts f \<ge> f_recovery_attempts f"

definition waiting :: "real \<Rightarrow> 'e failure_state \<Rightarrow> real option" where
  "waiting now f =
    (case f_retry_at f of None \<Rightarrow> None | Some t \<Rightarrow> if now < t then Some t else None)"

definition begin_procedure :: "'e failure_state \<Rightarrow> 'e failure_state" where
  "begin_procedure f = f\<lparr>f_error := None, f_retry_at := None\<rparr>"

definition expire :: "real \<Rightarrow> 'e failure_state \<Rightarrow> 'e failure_state" where
  "expire now f =
    (case f_stable_since f of
       Some since \<Rightarrow> if now - since \<ge> f_stable_period f then f\<lparr>f_failures := 0, f_attempts := 0\<rparr> else f
     | None \<Rightarrow> f)"

definition record_initial_error :: "real \<Rightarrow> 'e failure_state \<Rightarrow> 'e failure_state" where
  "record_initial_error now f =
    (let f = (expire now f)\<lparr>f_stable_since := Some now\<rparr>
     in if f_failures f = 0 then f\<lparr>f_failures := 1\<rparr> else f)"

definition record_failure :: "real \<Rightarrow> 'e \<Rightarrow> 'e failure_state \<Rightarrow> 'e failure_state" where
  "record_failure now err f =
    (if f_error f \<noteq> None then f
     else let f = expire now f;
              f = f\<lparr>f_failures := f_failures f + 1, f_error := Some err, f_stable_since := Some now\<rparr>
          in if \<not> recovery_due f then f\<lparr>f_retry_at := Some (now + f_retry_delay f)\<rparr> else f)"

definition delay_retry :: "real \<Rightarrow> 'e failure_state \<Rightarrow> 'e failure_state" where
  "delay_retry now f = f\<lparr>f_retry_at := Some (now + f_retry_delay f)\<rparr>"

definition record_recovery :: "real \<Rightarrow> 'e failure_state \<Rightarrow> 'e failure_state" where
  "record_recovery now f =
    f\<lparr>f_failures := 1, f_attempts := f_attempts f + 1, f_retry_at := Some (now + f_retry_delay f),
      f_stable_since := Some now\<rparr>"

definition record_failed_attempt :: "real \<Rightarrow> 'e failure_state \<Rightarrow> 'e failure_state" where
  "record_failed_attempt now f =
    (let f = f\<lparr>f_attempts := f_attempts f + 1, f_stable_since := Some now\<rparr>
     in if \<not> emergency_due f then f\<lparr>f_retry_at := Some (now + f_attempt_delay f)\<rparr> else f)"

definition record_failed_emergency :: "real \<Rightarrow> 'e failure_state \<Rightarrow> 'e failure_state" where
  "record_failed_emergency now f =
    f\<lparr>f_attempts := 0, f_retry_at := Some (now + f_cycle_delay f), f_stable_since := Some now\<rparr>"

definition clear_failures :: "'e failure_state \<Rightarrow> 'e failure_state" where
  "clear_failures f = f\<lparr>f_failures := 0, f_attempts := 0, f_retry_at := None, f_stable_since := None\<rparr>"

text \<open>The published copy: \<open>utc\<close> is the wall clock at \<open>monot\<close>, \<open>show_error\<close> the failure's text.\<close>

record 'e failure_snap =
  s_state :: "'e failure_state"
  s_failure :: "string option"
  s_retry_at :: "real option"
  s_stable_at :: "real option"

definition failure_snapshot :: "('e \<Rightarrow> string) \<Rightarrow> real \<Rightarrow> real \<Rightarrow> 'e failure_state \<Rightarrow> 'e failure_snap" where
  "failure_snapshot show_error utc monot f =
    (let project = map_option (\<lambda>t. utc + (t - monot));
         state = expire monot f
     in \<lparr>s_state = state,
         s_failure = map_option show_error (f_error state),
         s_retry_at = project (waiting monot state),
         s_stable_at = project (map_option (\<lambda>t. t + f_stable_period f) (f_stable_since state))\<rparr>)"

lemmas failure_defs = recovery_due_def emergency_due_def waiting_def begin_procedure_def expire_def
  record_initial_error_def record_failure_def delay_retry_def record_recovery_def
  record_failed_attempt_def record_failed_emergency_def clear_failures_def Let_def

subsection \<open>Operations as a history\<close>

datatype 'e failure_op =
    BeginProcedure
  | InitialError real
  | Failure real 'e
  | DelayRetry real
  | Recovered real
  | FailedAttempt real
  | FailedEmergency real
  | Clear
  | Expire real

fun apply_op :: "'e failure_op \<Rightarrow> 'e failure_state \<Rightarrow> 'e failure_state" where
  "apply_op BeginProcedure f = begin_procedure f"
| "apply_op (InitialError t) f = record_initial_error t f"
| "apply_op (Failure t e) f = record_failure t e f"
| "apply_op (DelayRetry t) f = delay_retry t f"
| "apply_op (Recovered t) f = record_recovery t f"
| "apply_op (FailedAttempt t) f = record_failed_attempt t f"
| "apply_op (FailedEmergency t) f = record_failed_emergency t f"
| "apply_op Clear f = clear_failures f"
| "apply_op (Expire t) f = expire t f"

text \<open>The settings never change, and the counters never go below zero; a counted failure or
  attempt has a time its stable period runs from.\<close>

definition same_settings :: "'e failure_state \<Rightarrow> 'e failure_state \<Rightarrow> bool" where
  "same_settings f g \<longleftrightarrow> f_recover_after g = f_recover_after f \<and> f_retry_delay g = f_retry_delay f
    \<and> f_recovery_attempts g = f_recovery_attempts f \<and> f_attempt_delay g = f_attempt_delay f
    \<and> f_cycle_delay g = f_cycle_delay f \<and> f_stable_period g = f_stable_period f"

definition failure_inv :: "'e failure_state \<Rightarrow> bool" where
  "failure_inv f \<longleftrightarrow> 0 \<le> f_failures f \<and> 0 \<le> f_attempts f
    \<and> (0 < f_failures f \<or> 0 < f_attempts f \<longrightarrow> f_stable_since f \<noteq> None)"

lemma apply_op_inv: "failure_inv f \<Longrightarrow> failure_inv (apply_op p f)"
  by (cases p) (auto simp: failure_inv_def failure_defs split: option.splits)

lemma apply_op_settings: "same_settings f (apply_op p f)"
  by (cases p) (auto simp: same_settings_def failure_defs split: option.splits)

definition fresh_failures :: "'e failure_state \<Rightarrow> bool" where
  "fresh_failures f \<longleftrightarrow> f_failures f = 0 \<and> f_attempts f = 0 \<and> f_stable_since f = None
    \<and> f_retry_at f = None \<and> f_error f = None"

definition failure_step :: "'e failure_state \<Rightarrow> 'e failure_state \<Rightarrow> bool" where
  "failure_step f g \<longleftrightarrow> (\<exists>p. g = apply_op p f)"

interpretation failure_history: step_invariant fresh_failures failure_step failure_inv
  by unfold_locales
    (auto simp: fresh_failures_def failure_step_def apply_op_inv, auto simp: failure_inv_def)

lemma fold_apply_steps: "failure_step\<^sup>*\<^sup>* f (fold apply_op ps f)"
proof (induction ps arbitrary: f)
  case (Cons p ps)
  have "failure_step f (apply_op p f)" by (auto simp: failure_step_def)
  then show ?case using Cons [of "apply_op p f"] by (simp add: converse_rtranclp_into_rtranclp)
qed simp

subsection \<open>Escalation\<close>

lemma record_failure_again: "record_failure t e (record_failure s d f) = record_failure s d f"
  by (simp add: record_failure_def Let_def)

lemma failed_attempts:
  assumes "recovery_due f"
  shows "recovery_due (fold record_failed_attempt ts f)
    \<and> f_attempts (fold record_failed_attempt ts f) = f_attempts f + int (length ts)
    \<and> f_recovery_attempts (fold record_failed_attempt ts f) = f_recovery_attempts f"
  using assms
proof (induction ts arbitrary: f)
  case (Cons t ts)
  have "recovery_due (record_failed_attempt t f)"
    using Cons.prems by (simp add: failure_defs)
  from Cons.IH [OF this] show ?case by (simp add: failure_defs)
qed simp

text \<open>C33. Along any history of operations from a fresh state the counters stay non-negative, any
  counted failure or attempt has a stable period running, and the configured limits and delays
  are never touched.\<close>

theorem failure_history_invariant:
  assumes "fresh_failures f"
  shows "failure_inv (fold apply_op ps f) \<and> same_settings f (fold apply_op ps f)"
proof
  show "failure_inv (fold apply_op ps f)"
    by (rule failure_history.reachable_inv [OF assms fold_apply_steps])
  show "same_settings f (fold apply_op ps f)"
  proof (induction ps rule: rev_induct)
    case (snoc p ps)
    then show ?case using apply_op_settings [of "fold apply_op ps f" p] by (simp add: same_settings_def)
  qed (simp add: same_settings_def)
qed

text \<open>One procedure counts at most one failure: between two \<open>begin_procedure\<close> calls every
  report after the first is ignored, and the first raises the count by one unless the stable
  period had passed, when the count restarts at one.\<close>

theorem one_failure_per_procedure:
  assumes "f_error f = None"
  shows "fold (\<lambda>(t, e). record_failure t e) ((s, d) # reports) f = record_failure s d f
    \<and> f_failures (record_failure s d f) = f_failures (expire s f) + 1
    \<and> f_error (record_failure s d f) = Some d"
proof -
  have "fold (\<lambda>(t, e). record_failure t e) reports (record_failure s d f) = record_failure s d f"
    by (induction reports) (auto simp: record_failure_again)
  then show ?thesis
    using assms by (simp add: record_failure_def Let_def)
qed

text \<open>Escalation: once recovery is due, recovery attempts that keep failing make emergency
  shutdown due exactly when their number reaches the configured one; before that each leaves a
  retry delay, and the one that exhausts the attempts falls through to the emergency shutdown
  without a new delay.\<close>

theorem attempts_escalate:
  assumes "recovery_due f"
  shows "emergency_due (fold record_failed_attempt ts f)
      = (f_recovery_attempts f \<le> f_attempts f + int (length ts))
    \<and> (\<forall>t. f_retry_at (record_failed_attempt t (fold record_failed_attempt ts f))
        = (if f_recovery_attempts f \<le> f_attempts f + int (length ts) + 1
           then f_retry_at (fold record_failed_attempt ts f)
           else Some (t + f_attempt_delay (fold record_failed_attempt ts f))))"
  using failed_attempts [OF assms, of ts]
  by (auto simp: emergency_due_def record_failed_attempt_def Let_def recovery_due_def)

text \<open>The published snapshot tells what a lifecycle would do at that moment: it is due for
  recovery exactly when the state is after expiring, shows a retry time exactly while one is
  pending, and never shows a retry time in the past.\<close>

theorem snapshot_faithful:
  fixes show_error :: "'e \<Rightarrow> string" and utc monot f
  defines "s \<equiv> failure_snapshot show_error utc monot f"
  shows "recovery_due (s_state s) = recovery_due (expire monot f)
    \<and> s_retry_at s = map_option (\<lambda>t. utc + (t - monot)) (waiting monot f)
    \<and> (case s_retry_at s of None \<Rightarrow> True | Some t \<Rightarrow> utc < t)
    \<and> s_failure s = map_option show_error (f_error f)
    \<and> expire monot (s_state s) = s_state s"
  unfolding s_def failure_snapshot_def
  by (auto simp: failure_defs split: option.splits)

subsection \<open>Concrete histories\<close>

definition default_failures :: "string failure_state" where
  "default_failures = \<lparr>f_recover_after = 2, f_retry_delay = 5, f_recovery_attempts = 6, f_attempt_delay = 20,
    f_cycle_delay = 120, f_stable_period = 900, f_failures = 0, f_attempts = 0,
    f_retry_at = None, f_error = None, f_stable_since = None\<rparr>"

theorem failure_history_invariant_witness:
  "failure_inv (fold apply_op [Failure 1 ''a'', BeginProcedure, Failure 2 ''b''] default_failures)"
proof -
  have "fresh_failures default_failures" by (simp add: fresh_failures_def default_failures_def)
  from failure_history_invariant [OF this] show ?thesis by (rule conjunct1)
qed

theorem one_failure_per_procedure_witness:
  "f_failures (record_failure 2 ''b'' (record_failure 1 ''a'' default_failures)) = 1"
proof -
  have none: "f_error default_failures = None" by (simp add: default_failures_def)
  have "fold (\<lambda>(t, e). record_failure t e) [(1, ''a''), (2, ''b'')] default_failures
      = record_failure 1 ''a'' default_failures"
    using one_failure_per_procedure [OF none, of 1 "''a''" "[(2, ''b'')]"] by (rule conjunct1)
  then show ?thesis
    by (simp add: default_failures_def record_failure_def expire_def Let_def recovery_due_def)
qed

theorem attempts_escalate_witness:
  "emergency_due (fold record_failed_attempt [1, 2] (default_failures\<lparr>f_failures := 2, f_attempts := 4\<rparr>))"
proof -
  have due: "recovery_due (default_failures\<lparr>f_failures := 2, f_attempts := 4\<rparr>)"
    by (simp add: default_failures_def recovery_due_def)
  have "emergency_due (fold record_failed_attempt [1, 2] (default_failures\<lparr>f_failures := 2, f_attempts := 4\<rparr>))
      = (f_recovery_attempts (default_failures\<lparr>f_failures := 2, f_attempts := 4\<rparr>)
          \<le> f_attempts (default_failures\<lparr>f_failures := 2, f_attempts := 4\<rparr>) + int (length [1, 2::real]))"
    using attempts_escalate [OF due] by (rule conjunct1)
  then show ?thesis by (simp add: default_failures_def)
qed

end
