(* ===== verification/Controller_State.thy ===== *)
theory Controller_State
  imports Kit_Prelude
begin

section \<open>Controller state (core/src/sensorkit/core/controller.py)\<close>

text \<open>
  The state a controller reports: the lifecycle enum, \<open>ControllerOperatingState\<close> with
  \<open>matches\<close> and \<open>derive\<close>, the consistency check of \<open>TaskExecutionState\<close>, and the two
  migrations that rewrite records stored by older versions, over JSON values with ordered
  object keys.
\<close>

datatype ctl_state = OPERATE | STANDBY | SHUTDOWN | ERROR | UNKNOWN | TRANSITION

fun ctl_str :: "ctl_state \<Rightarrow> string" where
  "ctl_str OPERATE = ''operate''"
| "ctl_str STANDBY = ''standby''"
| "ctl_str SHUTDOWN = ''shutdown''"
| "ctl_str ERROR = ''error''"
| "ctl_str UNKNOWN = ''unknown''"
| "ctl_str TRANSITION = ''transition''"

text \<open>Event ids are UUIDs compared as integers; \<open>'c\<close> is a keyword context.\<close>

record 'c op_state =
  os_id :: nat
  os_current :: ctl_state
  os_previous :: "ctl_state option"
  os_target :: "ctl_state option"
  os_context :: 'c

definition op_matches :: "'c op_state \<Rightarrow> ctl_state \<Rightarrow> 'c \<Rightarrow> bool" where
  "op_matches s st ctx \<longleftrightarrow> os_current s = st \<and> os_target s = None \<and> os_context s = ctx"

text \<open>\<open>None\<close> is \<open>NO\_CHANGE\<close>; the new event has its own id.\<close>

definition op_derive ::
  "nat \<Rightarrow> ctl_state option \<Rightarrow> ctl_state option option \<Rightarrow> 'c option \<Rightarrow> 'c op_state \<Rightarrow> 'c op_state" where
  "op_derive new_id cur target ctx s =
    (let cur = (if cur = Some (os_current s) then None else cur)
     in \<lparr>os_id = new_id,
         os_current = (case cur of None \<Rightarrow> os_current s | Some c \<Rightarrow> c),
         os_previous = (case cur of None \<Rightarrow> os_previous s | Some _ \<Rightarrow> Some (os_current s)),
         os_target = (case target of None \<Rightarrow> os_target s | Some t \<Rightarrow> t),
         os_context = (case ctx of None \<Rightarrow> os_context s | Some c \<Rightarrow> c)\<rparr>)"

subsection \<open>TaskExecutionState and the stored records\<close>

record 'x exec_state =
  es_executing :: bool
  es_aborting :: bool
  es_finished :: bool
  es_execution :: "'x option"

definition exec_validate :: "'x exec_state \<Rightarrow> string + 'x exec_state" where
  "exec_validate s =
    (if es_executing s \<and> es_execution s = None then Inl ''inconsistent state fields: executing with no task''
     else if es_aborting s \<and> \<not> es_executing s then Inl ''inconsistent state fields: aborting but not executing''
     else if es_finished s \<and> (es_executing s \<or> es_aborting s)
     then Inl ''inconsistent state fields: finished but executing or aborting''
     else Inr s)"

datatype json =
    JNull
  | JBool bool
  | JNum int
  | JStr string
  | JArr "json list"
  | JObj "(string \<times> json) list"

definition jget :: "string \<Rightarrow> (string, json) dict \<Rightarrow> json" where
  "jget k d = (case map_of d k of Some v \<Rightarrow> v | None \<Rightarrow> JNull)"

definition without :: "string \<Rightarrow> (string, json) dict \<Rightarrow> (string, json) dict" where
  "without k d = filter (\<lambda>(j, v). j \<noteq> k) d"

definition task_envelope :: "(string, json) dict \<Rightarrow> json" where
  "task_envelope legacy = JObj [
    (''task'', JObj (filter (\<lambda>(k, v). k \<notin> {''task_id'', ''controller_id'', ''context''}) legacy)),
    (''task_id'', jget ''task_id'' legacy),
    (''controller_id'', jget ''controller_id'' legacy),
    (''context'', jget ''context'' legacy),
    (''expiry_time'', jget ''end_time'' legacy)]"

fun migrate_legacy_task :: "json \<Rightarrow> json" where
  "migrate_legacy_task (JObj d) =
    (let d = (if ''execution'' \<notin> set (dict_keys d) \<and> ''task'' \<in> set (dict_keys d)
              then dict_set ''execution'' (jget ''task'' d) (without ''task'' d) else d)
     in case jget ''execution'' d of
          JObj legacy \<Rightarrow>
            (if ''task_type'' \<notin> set (dict_keys legacy) \<or> ''task'' \<in> set (dict_keys legacy) then JObj d
             else JObj (dict_set ''execution'' (task_envelope legacy) d))
        | _ \<Rightarrow> JObj d)"
| "migrate_legacy_task j = j"

definition achieved_names :: "string list" where
  "achieved_names = [ctl_str OPERATE, ctl_str STANDBY, ctl_str SHUTDOWN]"

fun migrate_legacy_context :: "json \<Rightarrow> json" where
  "migrate_legacy_context (JObj d) =
    (if jget ''context'' d \<noteq> JNull then JObj d
     else let d = without ''context'' d in
       if jget ''current'' d \<in> JStr ` set achieved_names
       then JObj (dict_set ''previous'' (jget ''current'' d) (dict_set ''current'' (JStr (ctl_str UNKNOWN)) d))
       else JObj d)"
| "migrate_legacy_context j = j"

lemma jget_set [simp]: "jget k (dict_set j v d) = (if k = j then v else jget k d)"
  by (simp add: jget_def)

lemma map_of_without [simp]: "map_of (without k d) = (map_of d)(k := None)"
  unfolding without_def by (induction d) (auto simp: fun_eq_iff)

lemma jget_without [simp]: "jget k (without j d) = (if k = j then JNull else jget k d)"
  by (simp add: jget_def)

lemma jget_key: "jget k d \<noteq> JNull \<Longrightarrow> k \<in> set (dict_keys d)"
  by (metis jget_def map_of_None_key option.simps(4))

subsection \<open>Properties\<close>

text \<open>\<open>derive\<close> rotates \<open>previous\<close> exactly when the current state really changes, leaves every
  field that is not given as it was, and a state derived with the demanded state, no target and
  the demanded context matches that demand.\<close>

theorem derive_rotates:
  "os_previous (op_derive i cur target ctx s)
      = (if os_current (op_derive i cur target ctx s) \<noteq> os_current s then Some (os_current s) else os_previous s)
   \<and> (cur = None \<longrightarrow> os_current (op_derive i cur target ctx s) = os_current s)
   \<and> (target = None \<longrightarrow> os_target (op_derive i cur target ctx s) = os_target s)
   \<and> (ctx = None \<longrightarrow> os_context (op_derive i cur target ctx s) = os_context s)
   \<and> op_matches (op_derive i (Some c) (Some None) (Some x) s) c x"
  by (auto simp: op_derive_def op_matches_def Let_def split: option.split)

theorem derive_rotates_witness:
  "os_current (op_derive 2 None None (Some ''x'') \<lparr>os_id = 1, os_current = OPERATE, os_previous = None,
      os_target = Some STANDBY, os_context = ''''\<rparr>) = OPERATE"
  using derive_rotates [of 2 None None "Some ''x''" "\<lparr>os_id = 1, os_current = OPERATE, os_previous = None,
      os_target = Some STANDBY, os_context = ''''\<rparr>"] by simp

lemma migrate_task_lifted:
  assumes "\<not> (''execution'' \<notin> set (dict_keys d) \<and> ''task'' \<in> set (dict_keys d))"
  shows "migrate_legacy_task (JObj d) =
    (case jget ''execution'' d of
       JObj legacy \<Rightarrow>
         (if ''task_type'' \<notin> set (dict_keys legacy) \<or> ''task'' \<in> set (dict_keys legacy) then JObj d
          else JObj (dict_set ''execution'' (task_envelope legacy) d))
     | _ \<Rightarrow> JObj d)"
  using assms by (auto simp: Let_def split: json.splits)

lemma migrate_task_id:
  assumes "''execution'' \<in> set (dict_keys d) \<or> ''task'' \<notin> set (dict_keys d)"
    and "\<And>l. jget ''execution'' d = JObj l \<Longrightarrow> ''task_type'' \<notin> set (dict_keys l) \<or> ''task'' \<in> set (dict_keys l)"
  shows "migrate_legacy_task (JObj d) = JObj d"
  using assms by (subst migrate_task_lifted) (auto split: json.splits)

lemma migrate_task_twice: "migrate_legacy_task (migrate_legacy_task (JObj d)) = migrate_legacy_task (JObj d)"
proof -
  let ?d = "if ''execution'' \<notin> set (dict_keys d) \<and> ''task'' \<in> set (dict_keys d)
    then dict_set ''execution'' (jget ''task'' d) (without ''task'' d) else d"
  have lifted: "\<not> (''execution'' \<notin> set (dict_keys ?d) \<and> ''task'' \<in> set (dict_keys ?d))"
    by simp
  have "migrate_legacy_task (JObj d) = migrate_legacy_task (JObj ?d)"
    unfolding migrate_task_lifted [OF lifted] by (simp only: migrate_legacy_task.simps Let_def)
  moreover have "migrate_legacy_task (migrate_legacy_task (JObj ?d)) = migrate_legacy_task (JObj ?d)"
  proof (cases "\<exists>l. jget ''execution'' ?d = JObj l \<and> ''task_type'' \<in> set (dict_keys l) \<and> ''task'' \<notin> set (dict_keys l)")
    case True
    then obtain l where l: "jget ''execution'' ?d = JObj l" "''task_type'' \<in> set (dict_keys l)"
        "''task'' \<notin> set (dict_keys l)" by blast
    then have once: "migrate_legacy_task (JObj ?d) = JObj (dict_set ''execution'' (task_envelope l) ?d)"
      unfolding migrate_task_lifted [OF lifted] by simp
    have "migrate_legacy_task (JObj (dict_set ''execution'' (task_envelope l) ?d))
        = JObj (dict_set ''execution'' (task_envelope l) ?d)"
      by (rule migrate_task_id) (simp_all add: task_envelope_def)
    then show ?thesis unfolding once .
  next
    case False
    then have "migrate_legacy_task (JObj ?d) = JObj ?d"
      using lifted by (intro migrate_task_id) blast+
    then show ?thesis by simp
  qed
  ultimately show ?thesis by simp
qed

lemma migrate_context_twice: "migrate_legacy_context (migrate_legacy_context (JObj d)) = migrate_legacy_context (JObj d)"
proof -
  have idem: "without k (without k e) = without k e" for k e by (simp add: without_def)
  have comm: "without k (dict_set j v e) = dict_set j v (without k e)" if "j \<noteq> k" for k j v e
    unfolding without_def using that by (induction e) auto
  show ?thesis by (auto simp: Let_def idem comm achieved_names_def)
qed

text \<open>Both migrations are idempotent, so a record read back through them any number of times
  (from the snapshot and from the stream) is the same record.\<close>

theorem migrations_idempotent:
  "migrate_legacy_task (migrate_legacy_task j) = migrate_legacy_task j
   \<and> migrate_legacy_context (migrate_legacy_context j) = migrate_legacy_context j"
  using migrate_task_twice migrate_context_twice by (cases j) auto

end
