(* ===== verification/Auto_Supervisor.thy ===== *)
theory Auto_Supervisor
  imports Auto_Failure Controller_State
begin

section \<open>State supervision (core/src/sensorkit/auto/supervisor.py)\<close>

text \<open>
  \<open>ControllerStateSupervisor\<close>: the local expectation of what a controller reports, its grace
  period while a lifecycle task runs, and the failures it counts.  The asyncio task is the
  environment: \<open>supervise\<close> handles one wake-up of \<open>\_run\<close>, a state update from the monitor or
  none, at an event loop time.  The errors of \<open>auto/procedures.py\<close> are one datatype.
\<close>

subsection \<open>Errors\<close>

datatype lc_error =
    ProcedureError string
  | ControllerFailure string
  | ControllerIndeterminate string
  | ControllerOffline
  | ControllerUnrecoverable
  | StateUnknown
  | CancelledError
  | OtherError string

text \<open>\<open>ControllerFailure\<close> is a subclass of \<open>ProcedureError\<close>.\<close>

fun is_controller_failure :: "lc_error \<Rightarrow> bool" where
  "is_controller_failure (ControllerFailure _) = True"
| "is_controller_failure _ = False"

subsection \<open>The supervisor's state\<close>

record 'c supervisor =
  sv_grace :: real
  sv_failures :: "lc_error failure_state"
  sv_failed :: bool
  sv_expected :: "ctl_state option"
  sv_changed :: bool
  sv_deadline :: "real option"
  sv_observed :: "'c op_state option"
  sv_ready :: bool
  sv_started :: bool
  sv_ended :: bool
  sv_monitor_ok :: bool
  sv_notified :: "'c op_state list"

definition settled_states :: "ctl_state set" where
  "settled_states = {OPERATE, STANDBY, SHUTDOWN}"

definition new_supervisor :: "bool \<Rightarrow> lc_error failure_state \<Rightarrow> real \<Rightarrow> string + 'c supervisor" where
  "new_supervisor monitor_ok f grace =
    (if \<not> grace > 0 then Inl ''transition_grace must be positive''
     else Inr \<lparr>sv_grace = grace, sv_failures = f, sv_failed = False, sv_expected = None, sv_changed = False,
       sv_deadline = None, sv_observed = None, sv_ready = False, sv_started = False, sv_ended = False,
       sv_monitor_ok = monitor_ok, sv_notified = []\<rparr>)"

definition sv_task_done :: "'c supervisor \<Rightarrow> bool" where
  "sv_task_done v \<longleftrightarrow> sv_started v \<and> sv_ended v"

definition healthy :: "'c supervisor \<Rightarrow> bool" where
  "healthy v \<longleftrightarrow> sv_started v \<and> \<not> sv_ended v \<and> sv_observed v \<noteq> None \<and> sv_monitor_ok v"

definition check_health :: "'c supervisor \<Rightarrow> lc_error + unit" where
  "check_health v = rguard (healthy v) StateUnknown"

definition sv_state :: "'c supervisor \<Rightarrow> lc_error + 'c op_state" where
  "sv_state v = rbind (check_health v) (\<lambda>_. Inr (the (sv_observed v)))"

subsection \<open>The expectation\<close>

definition expect :: "ctl_state \<Rightarrow> 'c supervisor \<Rightarrow> 'c supervisor" where
  "expect st v = v\<lparr>sv_failed := (if sv_task_done v then sv_failed v else False),
     sv_expected := Some st, sv_changed := True, sv_deadline := None\<rparr>"

definition expect_transition :: "'c supervisor \<Rightarrow> 'c supervisor" where
  "expect_transition = expect TRANSITION"

definition invalidate :: "'c supervisor \<Rightarrow> 'c supervisor" where
  "invalidate = expect UNKNOWN"

definition sv_fail :: "string \<Rightarrow> real \<Rightarrow> 'c supervisor \<Rightarrow> 'c supervisor" where
  "sv_fail msg now v =
    v\<lparr>sv_failures := record_failure now (ControllerFailure msg) (sv_failures v), sv_failed := True,
      sv_expected := Some UNKNOWN, sv_deadline := None\<rparr>"

definition evaluate :: "real \<Rightarrow> 'c op_state \<Rightarrow> 'c supervisor \<Rightarrow> 'c supervisor" where
  "evaluate now actual v =
    (let compare = (\<lambda>matched.
       if matched then v\<lparr>sv_deadline := None\<rparr>
       else case sv_deadline v of
           None \<Rightarrow> v\<lparr>sv_deadline := Some (now + sv_grace v)\<rparr>
         | Some d \<Rightarrow>
            if now \<ge> d
            then sv_fail (''reported '' @ ctl_str (os_current actual) @ '' for longer than the grace period'') now v
            else v)
     in case sv_expected v of
       None \<Rightarrow>
        (if os_current actual \<in> settled_states \<and> os_target actual = None
         then v\<lparr>sv_expected := Some (os_current actual)\<rparr> else v)
     | Some UNKNOWN \<Rightarrow> v
     | Some TRANSITION \<Rightarrow> compare (os_current actual = TRANSITION)
     | Some expected \<Rightarrow>
        if os_current actual \<noteq> expected
        then sv_fail (''left '' @ ctl_str expected @ '' ('' @ ctl_str (os_current actual) @ '')'') now v
        else compare True)"

definition process_state :: "real \<Rightarrow> 'c op_state option \<Rightarrow> 'c supervisor \<Rightarrow> 'c supervisor" where
  "process_state now state v =
    (let newer = (case state of None \<Rightarrow> False
       | Some s \<Rightarrow> (case sv_observed v of None \<Rightarrow> True | Some c \<Rightarrow> os_id s > os_id c));
         v = (if newer then v\<lparr>sv_observed := state\<rparr> else v)
     in case sv_observed v of
       None \<Rightarrow> v
     | Some actual \<Rightarrow>
        let v = (evaluate now actual v)\<lparr>sv_ready := True\<rparr>
        in if newer then v\<lparr>sv_notified := sv_notified v @ [actual]\<rparr> else v)"

text \<open>\<open>\_next\<close> waits for an update, a new expectation or the grace deadline: \<open>None\<close> when it waits
  for an update only, otherwise the timeout.\<close>

definition next_timeout :: "bool \<Rightarrow> real \<Rightarrow> 'c supervisor \<Rightarrow> real option option" where
  "next_timeout queue_empty now v =
    (if \<not> queue_empty \<or> sv_observed v = None then None
     else Some (map_option (\<lambda>d. max 0 (d - now)) (sv_deadline v)))"

text \<open>One round of \<open>\_run\<close>, and its end, after which \<open>failed\<close> stays set.\<close>

definition supervise :: "real \<Rightarrow> 'c op_state option \<Rightarrow> 'c supervisor \<Rightarrow> 'c supervisor" where
  "supervise now state v = process_state now state (v\<lparr>sv_changed := False\<rparr>)"

definition sv_start :: "'c supervisor \<Rightarrow> string + 'c supervisor" where
  "sv_start v = (if sv_started v then Inl ''A controller state supervisor can only be started once''
     else Inr (v\<lparr>sv_started := True\<rparr>))"

definition sv_close :: "'c supervisor \<Rightarrow> 'c supervisor" where
  "sv_close v = v\<lparr>sv_failed := True, sv_ready := True, sv_ended := True\<rparr>"

definition sv_stop :: "'c supervisor \<Rightarrow> 'c supervisor" where
  "sv_stop v = (if \<not> sv_started v then v else sv_close v)"

subsection \<open>Verifying a lifecycle result\<close>

text \<open>
  \<open>reads\<close> are what the (at most three) reads of the backend return, each with the event loop
  time at which it does and whether supervision is still healthy then.
\<close>

definition state_reads :: nat where
  "state_reads = 3"

fun read_loop :: "(real \<times> 'c op_state option) list \<Rightarrow> 'c supervisor \<Rightarrow> (lc_error + 'c op_state) \<times> 'c supervisor" where
  "read_loop [] v = (Inl (ControllerFailure ''Controller state unread''), v)"
| "read_loop ((now, None) # rs) v = read_loop rs v"
| "read_loop ((now, Some s) # rs) v =
    (case check_health v of Inl e \<Rightarrow> (Inl e, v) | Inr _ \<Rightarrow> (Inr s, process_state now (Some s) v))"

definition refresh ::
  "(real \<times> 'c op_state option) list \<Rightarrow> 'c supervisor \<Rightarrow> (lc_error + 'c op_state) \<times> 'c supervisor" where
  "refresh reads v =
    (case check_health v of Inl e \<Rightarrow> (Inl e, v) | Inr _ \<Rightarrow> read_loop (take state_reads reads) v)"

definition verify ::
  "ctl_state \<Rightarrow> 'c \<Rightarrow> (real \<times> 'c op_state option) list \<Rightarrow> 'c supervisor
    \<Rightarrow> (lc_error + 'c op_state) \<times> 'c supervisor" where
  "verify st ctx reads v =
    (let (r, v) = refresh reads v;
         r = rbind r (\<lambda>snapshot. rbind (sv_state v) (\<lambda>s.
               if op_matches s st ctx then Inr snapshot
               else Inl (ControllerFailure (''Controller did not reach '' @ ctl_str st))))
     in case r of Inl e \<Rightarrow> (Inl e, invalidate v) | Inr s \<Rightarrow> (Inr s, v))"

definition confirm ::
  "ctl_state \<Rightarrow> 'c \<Rightarrow> (real \<times> 'c op_state option) list \<Rightarrow> 'c supervisor
    \<Rightarrow> (lc_error + 'c op_state) \<times> 'c supervisor" where
  "confirm st ctx reads v =
    (let (r, v) = verify st ctx reads v
     in case r of Inl e \<Rightarrow> (Inl e, v) | Inr s \<Rightarrow> (Inr s, expect st v))"

definition settled :: "ctl_state \<Rightarrow> 'c \<Rightarrow> 'c supervisor \<Rightarrow> lc_error + bool" where
  "settled st ctx v =
    (if sv_expected v = None \<or> sv_expected v = Some st
     then rbind (sv_state v) (\<lambda>s. Inr (op_matches s st ctx)) else Inr False)"

subsection \<open>The supervisor as a step system\<close>

datatype 'c sv_op =
    Supervise real "'c op_state option"
  | ExpectTransition
  | Invalidate
  | Confirm ctl_state 'c "(real \<times> 'c op_state option) list"
  | Verify ctl_state 'c "(real \<times> 'c op_state option) list"
  | NewProcedure
  | EndSupervision
  | MonitorLost

fun sv_apply :: "'c sv_op \<Rightarrow> 'c supervisor \<Rightarrow> 'c supervisor" where
  "sv_apply (Supervise now s) v = (if sv_ended v then v else supervise now s v)"
| "sv_apply ExpectTransition v = expect_transition v"
| "sv_apply Invalidate v = invalidate v"
| "sv_apply (Confirm st ctx reads) v = snd (confirm st ctx reads v)"
| "sv_apply (Verify st ctx reads) v = snd (verify st ctx reads v)"
| "sv_apply NewProcedure v = v\<lparr>sv_failures := begin_procedure (sv_failures v)\<rparr>"
| "sv_apply EndSupervision v = sv_stop v"
| "sv_apply MonitorLost v = v\<lparr>sv_monitor_ok := False\<rparr>"

definition sv_step :: "'c supervisor \<Rightarrow> 'c supervisor \<Rightarrow> bool" where
  "sv_step v w \<longleftrightarrow> (\<exists>p. w = sv_apply p v)"

text \<open>A deadline runs only during a commanded transition, at a positive grace; a finished
  supervision leaves \<open>failed\<close> set; the notified states have strictly growing event ids and end
  with the observed one.\<close>

definition sv_inv :: "'c supervisor \<Rightarrow> bool" where
  "sv_inv v \<longleftrightarrow> 0 < sv_grace v
    \<and> (sv_deadline v \<noteq> None \<longrightarrow> sv_expected v = Some TRANSITION)
    \<and> (sv_task_done v \<longrightarrow> sv_failed v)
    \<and> sorted_wrt (<) (map os_id (sv_notified v))
    \<and> sv_observed v = (if sv_notified v = [] then None else Some (last (sv_notified v)))"

definition sv_initial :: "'c supervisor \<Rightarrow> bool" where
  "sv_initial v \<longleftrightarrow> (\<exists>ok f grace w. new_supervisor ok f grace = Inr w \<and> sv_start w = Inr v)"

subsection \<open>Every operation keeps the invariant\<close>

lemma sv_fail_simps [simp]:
  "sv_grace (sv_fail m now v) = sv_grace v" "sv_notified (sv_fail m now v) = sv_notified v"
  "sv_observed (sv_fail m now v) = sv_observed v" "sv_task_done (sv_fail m now v) = sv_task_done v"
  "sv_failed (sv_fail m now v)" "sv_deadline (sv_fail m now v) = None"
  "sv_expected (sv_fail m now v) = Some UNKNOWN"
  by (simp_all add: sv_fail_def sv_task_done_def)

lemma evaluate_frame [simp]:
  "sv_grace (evaluate now a v) = sv_grace v" "sv_notified (evaluate now a v) = sv_notified v"
  "sv_observed (evaluate now a v) = sv_observed v" "sv_task_done (evaluate now a v) = sv_task_done v"
  by (auto simp: evaluate_def Let_def sv_task_done_def sv_fail_def split: option.splits ctl_state.splits)

lemma evaluate_deadline:
  assumes "sv_deadline v \<noteq> None \<longrightarrow> sv_expected v = Some TRANSITION"
  shows "sv_deadline (evaluate now a v) \<noteq> None \<longrightarrow> sv_expected (evaluate now a v) = Some TRANSITION"
  using assms by (auto simp: evaluate_def Let_def split: option.splits ctl_state.splits)

lemma evaluate_failed: "sv_failed v \<Longrightarrow> sv_failed (evaluate now a v)"
  by (auto simp: evaluate_def Let_def split: option.splits ctl_state.splits)

lemma expect_inv:
  assumes "sv_inv v"
  shows "sv_inv (expect st v)"
  using assms by (auto simp: sv_inv_def expect_def sv_task_done_def)

lemma process_state_inv:
  assumes "sv_inv v"
  shows "sv_inv (process_state now s v)"
proof -
  have sorted: "sorted_wrt (<) (map os_id (sv_notified v @ [a]))"
    if "sv_observed v = None \<or> (\<exists>c. sv_observed v = Some c \<and> os_id c < os_id a)" for a
  proof (cases "sv_notified v" rule: rev_cases)
    case (snoc xs x)
    then have "sv_observed v = Some x" and so: "sorted_wrt (<) (map os_id (xs @ [x]))"
      using assms by (auto simp: sv_inv_def)
    with that have "os_id x < os_id a" by simp
    with so show ?thesis unfolding snoc by (auto simp: sorted_wrt_append)
  qed simp
  have keep: "sv_task_done (v\<lparr>sv_observed := o'\<rparr>) = sv_task_done v" for o'
    by (simp add: sv_task_done_def)
  have fin: "sv_task_done (w\<lparr>sv_ready := True\<rparr>) = sv_task_done w"
      "sv_task_done (w\<lparr>sv_ready := True, sv_notified := n\<rparr>) = sv_task_done w" for w :: "'a supervisor" and n
    by (simp_all add: sv_task_done_def)
  show ?thesis
    using assms sorted evaluate_deadline [of v] evaluate_deadline [of "v\<lparr>sv_observed := s\<rparr>"]
      evaluate_failed [of v] evaluate_failed [of "v\<lparr>sv_observed := s\<rparr>"]
    by (auto simp: sv_inv_def process_state_def Let_def keep fin split: option.splits)
qed

lemma read_loop_inv: "sv_inv v \<Longrightarrow> sv_inv (snd (read_loop reads v))"
  by (induction reads v rule: read_loop.induct) (auto simp: process_state_inv split: sum.splits)

lemma refresh_inv: "sv_inv v \<Longrightarrow> sv_inv (snd (refresh reads v))"
  by (auto simp: refresh_def read_loop_inv split: sum.splits)

lemma verify_inv: "sv_inv v \<Longrightarrow> sv_inv (snd (verify st ctx reads v))"
  using refresh_inv [of v reads] expect_inv
  by (auto simp: verify_def Let_def invalidate_def split: prod.splits sum.splits)

lemma confirm_inv: "sv_inv v \<Longrightarrow> sv_inv (snd (confirm st ctx reads v))"
  using verify_inv [of v st ctx reads] expect_inv
  by (auto simp: confirm_def split: prod.splits sum.splits)

lemma sv_apply_inv:
  assumes "sv_inv v"
  shows "sv_inv (sv_apply p v)"
proof (cases p)
  case (Supervise now s)
  have "sv_inv (v\<lparr>sv_changed := False\<rparr>)" using assms by (simp add: sv_inv_def sv_task_done_def)
  from process_state_inv [OF this] show ?thesis using assms Supervise by (simp add: supervise_def)
next
  case EndSupervision
  then show ?thesis using assms by (auto simp: sv_inv_def sv_stop_def sv_close_def sv_task_done_def)
next
  case NewProcedure
  then show ?thesis using assms by (simp add: sv_inv_def sv_task_done_def)
next
  case MonitorLost
  then show ?thesis using assms by (simp add: sv_inv_def sv_task_done_def)
qed (simp_all add: assms expect_inv confirm_inv verify_inv expect_transition_def invalidate_def)

lemma sv_initial_inv: "sv_initial v \<Longrightarrow> sv_inv v"
  by (auto simp: sv_initial_def new_supervisor_def sv_start_def sv_inv_def sv_task_done_def split: if_splits)

interpretation supervision: step_invariant sv_initial sv_step sv_inv
  by unfold_locales (auto simp: sv_initial_inv sv_step_def sv_apply_inv)

subsection \<open>Properties\<close>

text \<open>C34. In every history of a supervisor, a grace deadline runs only while a commanded
  transition is expected, a finished supervision keeps \<open>failed\<close> set so its waiters wake, and
  the states handed to subscribers carry strictly increasing event ids.\<close>

theorem supervisor_history:
  assumes "sv_initial v" and "sv_step\<^sup>*\<^sup>* v w"
  shows "(sv_deadline w \<noteq> None \<longrightarrow> sv_expected w = Some TRANSITION)
    \<and> (sv_task_done w \<longrightarrow> sv_failed w)
    \<and> sorted_wrt (<) (map os_id (sv_notified w))"
  using supervision.reachable_inv [OF assms] by (simp add: sv_inv_def)

text \<open>An older or repeated update never replaces a state already processed: the observed
  event id never decreases, and it is the newest of the two.\<close>

theorem older_updates_ignored:
  assumes "sv_observed v = Some c"
  shows "sv_observed (process_state now s v)
    = (case s of None \<Rightarrow> Some c | Some a \<Rightarrow> if os_id c < os_id a then Some a else Some c)"
  using assms by (auto simp: process_state_def Let_def split: option.splits)

text \<open>What one comparison counts: nothing while no expectation stands (startup adopts a settled
  state) or after it was invalidated; a departure from a settled state at once; during a
  commanded transition only a mismatch whose grace period, running since an earlier comparison,
  has passed.  A counted failure invalidates the expectation, so it is counted once.\<close>

theorem evaluate_counts:
  fixes v :: "'c supervisor"
  defines "counted \<equiv> \<lambda>now a. (case sv_expected v of
      None \<Rightarrow> False
    | Some UNKNOWN \<Rightarrow> False
    | Some TRANSITION \<Rightarrow> os_current a \<noteq> TRANSITION \<and> (\<exists>d. sv_deadline v = Some d \<and> d \<le> now)
    | Some e \<Rightarrow> os_current a \<noteq> e)"
  shows "(if counted now a
          then sv_expected (evaluate now a v) = Some UNKNOWN \<and> sv_failed (evaluate now a v)
            \<and> (\<exists>msg. sv_failures (evaluate now a v) = record_failure now (ControllerFailure msg) (sv_failures v))
            \<and> evaluate later b (evaluate now a v) = evaluate now a v
          else sv_failures (evaluate now a v) = sv_failures v
            \<and> sv_failed (evaluate now a v) = sv_failed v)"
proof (cases "sv_expected v")
  case None
  then show ?thesis by (simp add: evaluate_def counted_def Let_def)
next
  case (Some e)
  then show ?thesis
    by (cases e; cases "sv_deadline v")
      (auto simp: evaluate_def counted_def Let_def sv_fail_def)
qed

lemma verify_outcome:
  shows "case fst (verify st ctx reads v) of
      Inr s \<Rightarrow> healthy (snd (verify st ctx reads v))
        \<and> (\<exists>a. sv_observed (snd (verify st ctx reads v)) = Some a \<and> op_matches a st ctx)
    | Inl e \<Rightarrow> sv_expected (snd (verify st ctx reads v)) = Some UNKNOWN"
proof -
  obtain r w where rw: "refresh reads v = (r, w)" by fastforce
  show ?thesis
  proof (cases "rbind r (\<lambda>snapshot. rbind (sv_state w) (\<lambda>s.
      if op_matches s st ctx then Inr snapshot else Inl (ControllerFailure (''Controller did not reach '' @ ctl_str st))))")
    case (Inl e)
    then show ?thesis using rw by (simp add: verify_def Let_def invalidate_def expect_def)
  next
    case (Inr s)
    then have "healthy w" and "op_matches (the (sv_observed w)) st ctx"
      by (auto simp: rbind_Inr_iff sv_state_def check_health_def split: if_splits)
    moreover from this have "sv_observed w = Some (the (sv_observed w))" by (simp add: healthy_def)
    moreover have "verify st ctx reads v = (Inr s, w)" using rw Inr by (simp add: verify_def Let_def)
    ultimately show ?thesis by auto
  qed
qed

text \<open>\<open>confirm\<close> succeeds only on the demanded state and context read afresh while supervision
  is healthy, and then expects that state with the failure flag cleared; any other outcome
  leaves the expectation unknown.\<close>

theorem confirm_outcome:
  shows "case fst (confirm st ctx reads v) of
      Inr s \<Rightarrow> sv_expected (snd (confirm st ctx reads v)) = Some st
        \<and> \<not> sv_failed (snd (confirm st ctx reads v)) \<and> settled st ctx (snd (confirm st ctx reads v)) = Inr True
    | Inl e \<Rightarrow> sv_expected (snd (confirm st ctx reads v)) = Some UNKNOWN"
proof -
  obtain r w where rw: "verify st ctx reads v = (r, w)" by fastforce
  note V = verify_outcome [of st ctx reads v, unfolded rw fst_conv snd_conv]
  show ?thesis
  proof (cases r)
    case (Inl e)
    then show ?thesis using V rw by (simp add: confirm_def)
  next
    case (Inr s)
    with V obtain a where "healthy w" "sv_observed w = Some a" "op_matches a st ctx" by auto
    moreover from this have "healthy (expect st w)" and "\<not> sv_task_done w"
      by (simp_all add: healthy_def expect_def sv_task_done_def)
    moreover have "confirm st ctx reads v = (Inr s, expect st w)" using rw Inr by (simp add: confirm_def)
    ultimately show ?thesis
      by (simp add: settled_def sv_state_def check_health_def expect_def rguard_pass)
  qed
qed

subsection \<open>A concrete supervisor\<close>

definition demo_supervisor :: "string supervisor" where
  "demo_supervisor = \<lparr>sv_grace = 10, sv_failures = \<lparr>f_recover_after = 2, f_retry_delay = 5,
      f_recovery_attempts = 6, f_attempt_delay = 20, f_cycle_delay = 120, f_stable_period = 900, f_failures = 0,
      f_attempts = 0, f_retry_at = None, f_error = None, f_stable_since = None\<rparr>,
    sv_failed = False, sv_expected = None, sv_changed = False, sv_deadline = None, sv_observed = None,
    sv_ready = False, sv_started = True, sv_ended = False, sv_monitor_ok = True, sv_notified = []\<rparr>"

lemma demo_supervisor_initial: "sv_initial demo_supervisor"
  unfolding sv_initial_def
  by (rule exI [of _ True], rule exI [of _ "sv_failures demo_supervisor"], rule exI [of _ 10],
      rule exI [of _ "demo_supervisor\<lparr>sv_started := False\<rparr>"])
    (simp add: new_supervisor_def sv_start_def demo_supervisor_def)

definition op_operate :: "string op_state" where
  "op_operate = \<lparr>os_id = 1, os_current = OPERATE, os_previous = None, os_target = None, os_context = ''''\<rparr>"

theorem supervisor_history_witness:
  "sorted_wrt (<) (map os_id (sv_notified (sv_apply (Supervise 0 (Some op_operate)) demo_supervisor)))"
proof -
  have "sv_step\<^sup>*\<^sup>* demo_supervisor (sv_apply (Supervise 0 (Some op_operate)) demo_supervisor)"
    unfolding sv_step_def by blast
  from supervisor_history [OF demo_supervisor_initial this] show ?thesis by blast
qed

theorem older_updates_ignored_witness:
  "sv_observed (process_state 1 (Some op_operate) (demo_supervisor\<lparr>sv_observed := Some (op_operate\<lparr>os_id := 5\<rparr>)\<rparr>))
    = Some (op_operate\<lparr>os_id := 5\<rparr>)"
proof -
  have "sv_observed (demo_supervisor\<lparr>sv_observed := Some (op_operate\<lparr>os_id := 5\<rparr>)\<rparr>) = Some (op_operate\<lparr>os_id := 5\<rparr>)"
    by simp
  from older_updates_ignored [OF this, of 1 "Some op_operate"] show ?thesis by (simp add: op_operate_def)
qed

end
