(* ===== verification/Auto_Procedures.thy ===== *)
theory Auto_Procedures
  imports Auto_Supervisor
begin

section \<open>Lifecycle procedures (core/src/sensorkit/auto/procedures.py)\<close>

text \<open>
  \<open>DemandState\<close> and \<open>LifecycleProcedure\<close>: the stages of a procedure's run with the requests
  that interrupt it, the outcome of a lifecycle task and of \<open>run\_unless\_achieved\<close>, the failure
  a finished procedure reports, and \<open>OperateProcedure\<close>'s responsibility for the tasking session
  it started.  The asyncio tasks are the environment: their endings are arguments or events.
\<close>

subsection \<open>Demand\<close>

fun lifecycle_task_type :: "ctl_state \<Rightarrow> string option" where
  "lifecycle_task_type OPERATE = Some ''init''"
| "lifecycle_task_type STANDBY = Some ''standby''"
| "lifecycle_task_type SHUTDOWN = Some ''shutdown''"
| "lifecycle_task_type _ = None"

datatype lifecycle_stage = INIT | TASKING | IN_STANDBY | IN_SHUTDOWN | RECOVER | WAIT

text \<open>\<open>'x\<close> is a task context map, \<open>'g\<close> a program client.\<close>

record ('x, 'g) demand =
  d_state :: "ctl_state option"
  d_contexts :: "'x option"
  d_program :: "'g option"
  d_interrupt :: bool
  d_program_interrupt :: bool

text \<open>The interruption flags do not take part in demand equality.\<close>

definition same_demand :: "('x, 'g) demand \<Rightarrow> ('x, 'g) demand \<Rightarrow> bool" where
  "same_demand d e \<longleftrightarrow> d_state d = d_state e \<and> d_contexts d = d_contexts e \<and> d_program d = d_program e"

text \<open>How a context map is read: its \<open>get\<close> by task type and the empty context.\<close>

record ('x, 'c) contexts =
  cx_get :: "'x \<Rightarrow> string \<Rightarrow> 'c"
  cx_empty :: 'c

definition lifecycle_context ::
  "('x, 'c) contexts \<Rightarrow> ('x, 'g) demand \<Rightarrow> ctl_state option \<Rightarrow> lc_error + 'c" where
  "lifecycle_context cx d st =
    (let st = (if st = None then d_state d else st) in
     case (d_contexts d, st) of
       (Some x, Some s) \<Rightarrow>
         (case lifecycle_task_type s of
            Some t \<Rightarrow> Inr (cx_get cx x t)
          | None \<Rightarrow> Inl (OtherError ''KeyError''))
     | _ \<Rightarrow> Inr (cx_empty cx))"

subsection \<open>Tracked calls\<close>

datatype call_error = CallRejected | TaskFailed bool | TaskOutcomeUnknown | CallError

record tracked_call =
  tc_type :: string
  tc_done :: bool
  tc_error :: "call_error option"

definition call_ended :: "tracked_call \<Rightarrow> bool" where
  "call_ended c \<longleftrightarrow> tc_done c \<and> (case tc_error c of None \<Rightarrow> True | Some (TaskFailed _) \<Rightarrow> True | _ \<Rightarrow> False)"

subsection \<open>The stages of a procedure\<close>

datatype interruption = StopRequest | AbortRequest

datatype proc_kind = OperateP | StandbyP | ShutdownP | RecoverP bool

definition expects_target :: "proc_kind \<Rightarrow> bool" where
  "expects_target k \<longleftrightarrow> (case k of RecoverP _ \<Rightarrow> False | _ \<Rightarrow> True)"

text \<open>
  \<open>Ready\<close>: scheduled.  \<open>Checking\<close>: asking for the controller's lease.  \<open>Logic\<close>, \<open>Stopping\<close>, \<open>Aborting\<close>: the stage \<open>\_run\<close> awaits.  \<open>Ended\<close>: over.
  A stage that was canceled by a request ends as canceled.
\<close>

datatype proc_phase = Ready | Checking | Logic | Stopping | Aborting | Ended

record ('x, 'g) procedure =
  p_kind :: proc_kind
  p_demand :: "('x, 'g) demand"
  p_phase :: proc_phase
  p_stage :: lifecycle_stage
  p_interrupt :: "interruption option"
  p_achieved :: bool
  p_commanded :: bool
  p_recovered :: bool
  p_unresolved :: bool
  p_calls :: "tracked_call list"
  p_futures_done :: "bool list"
  p_cleanup_errors :: "lc_error list"
  p_logic_error :: "lc_error option"
  p_offline :: bool
  p_logic_ran :: bool
  p_stopped :: "bool option"
  p_aborted :: bool
  p_error :: "lc_error option"

definition new_procedure :: "proc_kind \<Rightarrow> ('x, 'g) demand \<Rightarrow> ('x, 'g) procedure" where
  "new_procedure k d = \<lparr>p_kind = k, p_demand = d, p_phase = Ready, p_stage = WAIT, p_interrupt = None,
    p_achieved = False, p_commanded = False, p_recovered = False, p_unresolved = False, p_calls = [],
    p_futures_done = [], p_cleanup_errors = [], p_logic_error = None, p_offline = False, p_logic_ran = False,
    p_stopped = None, p_aborted = False, p_error = None\<rparr>"

definition start_procedure :: "('x, 'g) procedure \<Rightarrow> 'c supervisor \<Rightarrow> 'c supervisor" where
  "start_procedure p v = (if expects_target (p_kind p) then v else invalidate v)"

definition request_stop :: "('x, 'g) procedure \<Rightarrow> ('x, 'g) procedure" where
  "request_stop p = (if p_interrupt p = None then p\<lparr>p_interrupt := Some StopRequest\<rparr> else p)"

definition request_abort :: "('x, 'g) procedure \<Rightarrow> ('x, 'g) procedure" where
  "request_abort p = (if p_interrupt p \<noteq> Some AbortRequest then p\<lparr>p_interrupt := Some AbortRequest\<rparr> else p)"

definition may_dispatch_op :: "('x, 'g) procedure \<Rightarrow> 'c supervisor \<Rightarrow> bool" where
  "may_dispatch_op p v \<longleftrightarrow> p_interrupt p = None \<and> healthy v"

definition pending :: "('x, 'g) procedure \<Rightarrow> bool" where
  "pending p \<longleftrightarrow> (\<exists>c\<in>set (p_calls p). \<not> tc_done c)"

definition owned_open :: "('x, 'g) procedure \<Rightarrow> bool" where
  "owned_open p \<longleftrightarrow> pending p \<or> False \<in> set (p_futures_done p)"

text \<open>\<open>fault\<close> is the owned tasking session's first fault (\<open>OperateProcedure.\_failure\<close>).\<close>

fun call_failure :: "tracked_call list \<Rightarrow> lc_error option" where
  "call_failure [] = None"
| "call_failure (c # cs) =
    (case tc_error c of
       Some CallRejected \<Rightarrow> Some (ProcedureError (tc_type c @ '' task rejected''))
     | Some (TaskFailed False) \<Rightarrow> Some (ControllerFailure (tc_type c @ '' task failed''))
     | _ \<Rightarrow> call_failure cs)"

definition procedure_failure :: "lc_error option \<Rightarrow> ('x, 'g) procedure \<Rightarrow> lc_error option" where
  "procedure_failure fault p =
    (case fault of Some e \<Rightarrow> Some e
     | None \<Rightarrow> (case p_logic_error p of Some e \<Rightarrow> Some e
     | None \<Rightarrow> (case call_failure (p_calls p) of Some e \<Rightarrow> Some e
     | None \<Rightarrow> (case p_cleanup_errors p of [] \<Rightarrow> None | e # _ \<Rightarrow> Some e))))"

definition finish_procedure :: "lc_error option \<Rightarrow> ('x, 'g) procedure \<Rightarrow> ('x, 'g) procedure" where
  "finish_procedure fault p =
    (let p = p\<lparr>p_unresolved := p_unresolved p \<or> owned_open p
           \<or> (\<exists>c\<in>set (p_calls p). tc_error c = Some TaskOutcomeUnknown)\<rparr>
     in p\<lparr>p_phase := Ended, p_error := procedure_failure fault p\<rparr>)"

text \<open>What follows a stage, by the interruption requested so far.\<close>

definition after_logic :: "lc_error option \<Rightarrow> ('x, 'g) procedure \<Rightarrow> ('x, 'g) procedure" where
  "after_logic fault p =
    (case p_interrupt p of
       Some StopRequest \<Rightarrow> p\<lparr>p_phase := Stopping\<rparr>
     | Some AbortRequest \<Rightarrow> p\<lparr>p_phase := Aborting, p_aborted := True\<rparr>
     | None \<Rightarrow> finish_procedure fault p)"

datatype logic_end = LogicReturned | LogicRaised lc_error | LogicCancelled

datatype proc_event =
    RequestStop
  | RequestAbort
  | Begin
  | OnlineResult bool
  | LogicEnds logic_end
  | StopEnds bool "lc_error list"
  | StopCancelled
  | AbortEnds "lc_error list"
  | CallUpdate "tracked_call list" "bool list"
  | Confirmed bool
  | Recovery

fun on_proc_event ::
  "lc_error option \<Rightarrow> proc_event \<Rightarrow> ('x, 'g) procedure \<Rightarrow> ('x, 'g) procedure option" where
  "on_proc_event fault RequestStop p = (if p_phase p \<noteq> Ended then Some (request_stop p) else None)"
| "on_proc_event fault RequestAbort p = (if p_phase p \<noteq> Ended then Some (request_abort p) else None)"
| "on_proc_event fault Begin p =
    (if p_phase p \<noteq> Ready then None
     else Some (if p_interrupt p = None then p\<lparr>p_phase := Checking\<rparr> else after_logic fault p))"
| "on_proc_event fault (OnlineResult online) p =
    (if p_phase p \<noteq> Checking then None
     else if \<not> online
     then Some ((finish_procedure fault p)\<lparr>p_error := Some ControllerOffline, p_offline := True\<rparr>)
     else if p_interrupt p = None then Some (p\<lparr>p_phase := Logic, p_logic_ran := True\<rparr>)
     else Some (after_logic fault p))"
| "on_proc_event fault (LogicEnds en) p =
    (if p_phase p \<noteq> Logic \<or> (en = LogicCancelled \<and> p_interrupt p = None) then None
     else Some (after_logic fault
       (case en of LogicRaised e \<Rightarrow> request_stop (p\<lparr>p_logic_error := Some e\<rparr>) | _ \<Rightarrow> p)))"
| "on_proc_event fault (StopEnds ok errs) p =
    (if p_phase p \<noteq> Stopping then None
     else let p = p\<lparr>p_stopped := Some ok, p_cleanup_errors := p_cleanup_errors p @ errs\<rparr>;
              p = (if p_interrupt p \<noteq> Some AbortRequest \<and> \<not> ok then request_abort p else p)
          in Some (if p_interrupt p = Some AbortRequest
                   then p\<lparr>p_phase := Aborting, p_aborted := True\<rparr> else finish_procedure fault p))"
| "on_proc_event fault StopCancelled p =
    (if p_phase p = Stopping \<and> p_interrupt p = Some AbortRequest
     then Some (p\<lparr>p_phase := Aborting, p_aborted := True\<rparr>) else None)"
| "on_proc_event fault (AbortEnds errs) p =
    (if p_phase p \<noteq> Aborting then None
     else Some (finish_procedure fault (p\<lparr>p_cleanup_errors := p_cleanup_errors p @ errs\<rparr>)))"
| "on_proc_event fault (CallUpdate calls futures) p =
    (if p_phase p \<in> {Logic, Stopping, Aborting} then Some (p\<lparr>p_calls := calls, p_futures_done := futures\<rparr>) else None)"
| "on_proc_event fault (Confirmed own) p =
    (if p_phase p = Logic then Some (p\<lparr>p_achieved := True, p_commanded := p_commanded p \<or> own\<rparr>) else None)"
| "on_proc_event fault Recovery p =
    (if p_phase p = Logic \<and> p_kind p = RecoverP False then Some (p\<lparr>p_recovered := True\<rparr>) else None)"

text \<open>A finished procedure ended its logic cleanly, or was stopped gracefully, or was aborted:
  every failure and every request went through its cleanup.\<close>

definition proc_inv :: "('x, 'g) procedure \<Rightarrow> bool" where
  "proc_inv p \<longleftrightarrow>
     (p_phase p = Stopping \<longrightarrow> p_interrupt p \<noteq> None)
   \<and> (p_phase p = Aborting \<longrightarrow> p_interrupt p = Some AbortRequest \<and> p_aborted p)
   \<and> (p_logic_error p \<noteq> None \<longrightarrow> p_interrupt p \<noteq> None)
   \<and> (p_phase p \<in> {Ready, Checking, Logic} \<longrightarrow> p_logic_error p = None \<and> p_stopped p = None \<and> \<not> p_aborted p)
   \<and> (p_phase p = Stopping \<longrightarrow> p_stopped p = None \<and> \<not> p_aborted p)
   \<and> (p_phase p = Ended \<and> \<not> p_offline p \<and> p_interrupt p = Some AbortRequest \<longrightarrow> p_aborted p)
   \<and> (p_phase p = Ended \<and> \<not> p_offline p \<and> p_interrupt p = Some StopRequest \<longrightarrow> p_stopped p = Some True \<and> \<not> p_aborted p)
   \<and> (p_phase p = Ended \<and> (pending p \<or> False \<in> set (p_futures_done p)) \<longrightarrow> p_unresolved p)"

definition fresh_procedure :: "('x, 'g) procedure \<Rightarrow> bool" where
  "fresh_procedure p \<longleftrightarrow> p = new_procedure (p_kind p) (p_demand p)"

definition proc_step :: "('x, 'g) procedure \<Rightarrow> ('x, 'g) procedure \<Rightarrow> bool" where
  "proc_step p q \<longleftrightarrow> (\<exists>fault ev. on_proc_event fault ev p = Some q)"

lemmas proc_defs = request_stop_def request_abort_def after_logic_def finish_procedure_def
  owned_open_def pending_def Let_def

text \<open>Finishing from a stage that saw the requested cleanup through.\<close>

lemma proc_inv_finish:
  assumes "p_logic_error p \<noteq> None \<longrightarrow> p_interrupt p \<noteq> None"
    and "p_interrupt p = Some AbortRequest \<longrightarrow> p_aborted p"
    and "p_interrupt p = Some StopRequest \<longrightarrow> p_stopped p = Some True \<and> \<not> p_aborted p"
  shows "proc_inv (finish_procedure fault p)"
  using assms by (auto simp: proc_inv_def finish_procedure_def owned_open_def pending_def Let_def)

lemma proc_inv_after_logic:
  assumes "p_logic_error p \<noteq> None \<longrightarrow> p_interrupt p \<noteq> None" and "p_stopped p = None" and "\<not> p_aborted p"
  shows "proc_inv (after_logic fault p)"
proof (cases "p_interrupt p")
  case None
  then show ?thesis using assms proc_inv_finish [of p fault] by (simp add: after_logic_def)
next
  case (Some i)
  then show ?thesis
    using assms by (cases i) (simp_all add: after_logic_def proc_inv_def)
qed

lemma proc_inv_request:
  assumes "proc_inv p" and "p_phase p \<noteq> Ended"
  shows "proc_inv (request_stop p)" and "proc_inv (request_abort p)"
  using assms by (cases "p_phase p"; simp add: proc_inv_def request_stop_def request_abort_def pending_def)+

lemma proc_inv_early:
  assumes "proc_inv p" and "p_phase p \<in> {Ready, Checking, Logic}"
  shows "p_logic_error p = None" and "p_stopped p = None" and "\<not> p_aborted p"
  using assms unfolding proc_inv_def by blast+

lemma proc_inv_after_early:
  assumes "proc_inv p" and "p_phase p \<in> {Ready, Checking, Logic}"
  shows "proc_inv (after_logic fault p)"
  using proc_inv_early [OF assms] by (intro proc_inv_after_logic) simp_all

lemma proc_inv_step:
  assumes inv: "proc_inv p" and ev: "on_proc_event fault ev p = Some q"
  shows "proc_inv q"
proof (cases ev)
  case Begin
  then have ready: "p_phase p = Ready"
    and q: "q = (if p_interrupt p = None then p\<lparr>p_phase := Checking\<rparr> else after_logic fault p)"
    using ev by (auto split: if_splits)
  have "proc_inv (p\<lparr>p_phase := Checking\<rparr>)" using inv ready by (simp add: proc_inv_def)
  then show ?thesis using proc_inv_after_early [OF inv] ready q by simp
next
  case (OnlineResult online)
  consider (off) "\<not> online" | (go) "online" "p_interrupt p = None" | (skip) "online" "p_interrupt p \<noteq> None" by blast
  then show ?thesis
  proof cases
    case off
    then show ?thesis
      using inv ev OnlineResult
      by (auto simp: proc_inv_def finish_procedure_def owned_open_def pending_def Let_def split: if_splits)
  next
    case go
    then show ?thesis using inv ev OnlineResult by (auto simp: proc_inv_def split: if_splits)
  next
    case skip
    then show ?thesis
      using ev OnlineResult proc_inv_after_early [OF inv, of fault] by (simp split: if_splits)
  qed
next
  case (LogicEnds en)
  have logic: "p_phase p = Logic" using ev LogicEnds by (simp split: if_splits)
  then have pre: "p_stopped p = None" "\<not> p_aborted p" "p_logic_error p = None"
    using proc_inv_early [OF inv] by simp_all
  show ?thesis
  proof (cases en)
    case (LogicRaised e)
    let ?p = "request_stop (p\<lparr>p_logic_error := Some e\<rparr>)"
    have "proc_inv (after_logic fault ?p)"
      using pre by (intro proc_inv_after_logic) (auto simp: request_stop_def)
    then show ?thesis using ev LogicEnds LogicRaised by (auto split: if_splits)
  qed (use ev LogicEnds logic proc_inv_after_early [OF inv, of fault] in \<open>simp split: if_splits\<close>)+
next
  case (StopEnds ok errs)
  let ?p = "p\<lparr>p_stopped := Some ok, p_cleanup_errors := p_cleanup_errors p @ errs\<rparr>"
  have pre: "p_interrupt p \<noteq> None" "\<not> p_aborted p"
    using inv ev StopEnds by (auto simp: proc_inv_def split: if_splits)
  consider (abort) "p_interrupt p = Some AbortRequest" | (bad) "p_interrupt p = Some StopRequest" "\<not> ok"
    | (good) "p_interrupt p = Some StopRequest" "ok"
    using pre(1) by (cases "p_interrupt p") (auto, metis interruption.exhaust)
  then show ?thesis
  proof cases
    case abort
    then show ?thesis using inv ev StopEnds by (auto simp: proc_inv_def Let_def split: if_splits)
  next
    case bad
    then show ?thesis using inv ev StopEnds by (auto simp: proc_inv_def Let_def request_abort_def split: if_splits)
  next
    case good
    then have "proc_inv (finish_procedure fault ?p)" using pre by (intro proc_inv_finish) auto
    then show ?thesis using ev StopEnds good by (auto simp: Let_def split: if_splits)
  qed
next
  case (AbortEnds errs)
  then have "p_interrupt p = Some AbortRequest" "p_aborted p"
    using inv ev by (auto simp: proc_inv_def split: if_splits)
  then have "proc_inv (finish_procedure fault (p\<lparr>p_cleanup_errors := p_cleanup_errors p @ errs\<rparr>))"
    by (intro proc_inv_finish) auto
  then show ?thesis using ev AbortEnds by (auto split: if_splits)
next
  case RequestStop
  then show ?thesis using inv ev proc_inv_request(1) by (auto split: if_splits)
next
  case RequestAbort
  then show ?thesis using inv ev proc_inv_request(2) by (auto split: if_splits)
next
  case StopCancelled
  then have "p_phase p = Stopping" "p_interrupt p = Some AbortRequest"
    and q: "q = p\<lparr>p_phase := Aborting, p_aborted := True\<rparr>"
    using ev by (auto split: if_splits)
  then show ?thesis using inv unfolding q proc_inv_def by simp
next
  case (CallUpdate calls futures)
  then have ph: "p_phase p = Logic \<or> p_phase p = Stopping \<or> p_phase p = Aborting"
    and q: "q = p\<lparr>p_calls := calls, p_futures_done := futures\<rparr>"
    using ev by (auto split: if_splits)
  from ph show ?thesis by (elim disjE) (use inv in \<open>simp_all add: q proc_inv_def\<close>)
next
  case (Confirmed own)
  then have "p_phase p = Logic" and q: "q = p\<lparr>p_achieved := True, p_commanded := p_commanded p \<or> own\<rparr>"
    using ev by (auto split: if_splits)
  then show ?thesis using inv unfolding q proc_inv_def by simp
next
  case Recovery
  then have "p_phase p = Logic" and q: "q = p\<lparr>p_recovered := True\<rparr>"
    using ev by (auto split: if_splits)
  then show ?thesis using inv unfolding q proc_inv_def by simp
qed

lemma fresh_procedure_inv: "fresh_procedure p \<Longrightarrow> proc_inv p"
  unfolding fresh_procedure_def proc_inv_def new_procedure_def
  by (cases p) (simp add: pending_def)

interpretation procedures: step_invariant fresh_procedure proc_step proc_inv
  by unfold_locales (auto simp: fresh_procedure_inv proc_step_def proc_inv_step)

subsection \<open>Running a lifecycle task\<close>

text \<open>
  \<open>run\_task\<close> after its waits: \<open>call\<close> is the tracked call as it then stands, \<open>target\<close> the task's
  target state, \<open>reads\<close> what reading the controller state afterwards returns.
\<close>

definition resolved_call :: "tracked_call \<Rightarrow> bool" where
  "resolved_call call \<longleftrightarrow> tc_done call \<and> tc_error call \<noteq> Some TaskOutcomeUnknown"

definition confirm_state ::
  "ctl_state \<Rightarrow> 'c \<Rightarrow> bool \<Rightarrow> (real \<times> 'c op_state option) list \<Rightarrow> ('x, 'g) procedure \<times> 'c supervisor
    \<Rightarrow> (lc_error + 'c op_state) \<times> ('x, 'g) procedure \<times> 'c supervisor" where
  "confirm_state st ctx own reads pv =
    (let (p, v) = pv; (r, v) = confirm st ctx reads v
     in (r, case r of Inl _ \<Rightarrow> (p, v)
            | Inr _ \<Rightarrow> (p\<lparr>p_achieved := True, p_commanded := p_commanded p \<or> own\<rparr>, v)))"

definition task_result ::
  "'c \<Rightarrow> ctl_state option \<Rightarrow> tracked_call \<Rightarrow> (real \<times> 'c op_state option) list
    \<Rightarrow> ('x, 'g) procedure \<times> 'c supervisor
    \<Rightarrow> (lc_error + 'c op_state) \<times> ('x, 'g) procedure \<times> 'c supervisor" where
  "task_result ctx target call reads pv =
    (let (p, v) = pv; lift = (\<lambda>(r, v). (r, p, v)) in
     case tc_error call of
       None \<Rightarrow>
         if \<not> tc_done call
         then (Inl (ControllerIndeterminate (tc_type call @ '' execution may still be running'')), p, v)
         else (case target of
             Some st \<Rightarrow> if expects_target (p_kind p) then confirm_state st ctx True reads (p, v)
                        else lift (verify st ctx reads v)
           | None \<Rightarrow> lift (refresh reads v))
     | Some CallRejected \<Rightarrow> (Inl (ProcedureError (tc_type call @ '' task rejected'')), p, v)
     | Some (TaskFailed True) \<Rightarrow> (Inl (ControllerFailure (tc_type call @ '' task aborted'')), p, v)
     | Some (TaskFailed False) \<Rightarrow> (Inl (ControllerFailure (tc_type call @ '' task failed'')), p, v)
     | Some _ \<Rightarrow> (Inl (ControllerIndeterminate (tc_type call @ '' execution may still be running'')), p, v))"

definition run_task ::
  "'c \<Rightarrow> ctl_state option \<Rightarrow> tracked_call \<Rightarrow> (real \<times> 'c op_state option) list
    \<Rightarrow> ('x, 'g) procedure \<times> 'c supervisor
    \<Rightarrow> (lc_error + 'c op_state) \<times> ('x, 'g) procedure \<times> 'c supervisor" where
  "run_task ctx target call reads pv =
    (let (p, v) = pv in
     if \<not> may_dispatch_op p v then (Inl CancelledError, p, v)
     else
       let v = (if expects_target (p_kind p) then expect_transition v else v);
           p = (if resolved_call call then p else p\<lparr>p_calls := p_calls p @ [call]\<rparr>);
           (r, p, v) = task_result ctx target call reads (p, v)
       in case r of Inl e \<Rightarrow> (Inl e, p, invalidate v) | Inr s \<Rightarrow> (Inr s, p, v))"

text \<open>The first reads are those of the confirmation, when the controller is already settled.\<close>

definition run_unless_achieved ::
  "('x, 'c) contexts \<Rightarrow> ctl_state \<Rightarrow> tracked_call \<Rightarrow> (real \<times> 'c op_state option) list
    \<Rightarrow> ('x, 'g) procedure \<times> 'c supervisor
    \<Rightarrow> (lc_error + 'c op_state) \<times> ('x, 'g) procedure \<times> 'c supervisor" where
  "run_unless_achieved cx st call reads pv =
    (let (p, v) = pv in
     case lifecycle_context cx (p_demand p) None of
       Inl e \<Rightarrow> (Inl e, p, v)
     | Inr ctx \<Rightarrow>
        if \<not> may_dispatch_op p v then (Inl CancelledError, p, v)
        else case settled st ctx v of
               Inl e \<Rightarrow> (Inl e, p, v)
             | Inr True \<Rightarrow> confirm_state st ctx False reads (p, v)
             | Inr False \<Rightarrow> run_task ctx (Some st) call reads (p, v))"

text \<open>\<open>RecoverProcedure.state\_logic\<close>: \<open>recover\<close> has no target state.\<close>

definition recover_logic ::
  "('x, 'c) contexts \<Rightarrow> tracked_call \<Rightarrow> (real \<times> 'c op_state option) list
    \<Rightarrow> ('x, 'g) procedure \<times> 'c supervisor \<Rightarrow> lc_error option \<times> ('x, 'g) procedure \<times> 'c supervisor" where
  "recover_logic cx call reads pv =
    (let (p, v) = pv in
     if p_kind p = RecoverP True then
       case lifecycle_context cx (p_demand p) (Some SHUTDOWN) of
         Inl e \<Rightarrow> (Some e, p\<lparr>p_stage := IN_SHUTDOWN\<rparr>, v)
       | Inr ctx \<Rightarrow>
          (let (r, p, v) = run_task ctx (Some SHUTDOWN) call reads (p\<lparr>p_stage := IN_SHUTDOWN\<rparr>, v)
           in case r of Inl e \<Rightarrow> (Some e, p, v) | Inr _ \<Rightarrow> (Some ControllerUnrecoverable, p, v))
     else
       let (r, p, v) = run_task (cx_empty cx) None call reads (p\<lparr>p_stage := RECOVER\<rparr>, v)
       in case r of Inl e \<Rightarrow> (Some e, p, v) | Inr _ \<Rightarrow> (None, p\<lparr>p_recovered := True\<rparr>, v))"

subsection \<open>Tasking sessions\<close>

datatype activation_error = StartRejected | StartupFailed | StartUnconfirmed | StartOther

record tasking =
  t_active :: bool
  t_monitor :: bool
  t_ends :: bool
  t_unresolved :: bool

definition classify_activation :: "activation_error \<Rightarrow> tasking \<Rightarrow> lc_error \<times> tasking" where
  "classify_activation e t =
    (case e of
       StartRejected \<Rightarrow> (OtherError ''rejected'', t\<lparr>t_ends := False\<rparr>)
     | StartupFailed \<Rightarrow> (OtherError ''startup failed'', t)
     | StartUnconfirmed \<Rightarrow> (ControllerIndeterminate ''did not confirm tasking'', t\<lparr>t_unresolved := True\<rparr>)
     | StartOther \<Rightarrow> (ControllerIndeterminate ''may start tasking later'', t\<lparr>t_unresolved := True\<rparr>))"

text \<open>\<open>start\<close> is the error awaiting the activation raises, \<open>ending\<close> the one of the end request.\<close>

definition end_tasking ::
  "activation_error option \<Rightarrow> lc_error option \<Rightarrow> tasking \<Rightarrow> lc_error option \<times> tasking" where
  "end_tasking start ending t =
    (if \<not> t_active t then (None, t)
     else let t = (case start of None \<Rightarrow> t | Some e \<Rightarrow> snd (classify_activation e t))
          in if \<not> t_ends t then (None, t)
             else if \<not> t_monitor t then (None, t\<lparr>t_unresolved := True\<rparr>)
             else case ending of Some e \<Rightarrow> (Some e, t) | None \<Rightarrow> (None, t\<lparr>t_ends := False\<rparr>))"

definition abort_tasking_logic ::
  "activation_error option \<Rightarrow> lc_error option \<Rightarrow> tasking \<Rightarrow> lc_error option \<times> tasking" where
  "abort_tasking_logic start ending t =
    (let (e, t) = end_tasking start ending t
     in (e, t\<lparr>t_unresolved := t_unresolved t \<or> t_ends t\<rparr>))"

definition fault_error :: "string option \<Rightarrow> string \<Rightarrow> string \<Rightarrow> string \<Rightarrow> lc_error" where
  "fault_error task_type stage err fault =
    (let operation = (case task_type of None \<Rightarrow> stage | Some t \<Rightarrow> t @ '' '' @ stage);
         message = ''Tasking failed during '' @ operation @ '' ('' @ err @ '')''
     in if fault = ''controller'' then ControllerFailure message else ProcedureError message)"

text \<open>\<open>\_reconcile\_existing\_tasking\<close> on the program's stored state.\<close>

record ('x, 'g) program_tasking =
  pt_active :: bool
  pt_stopping :: bool
  pt_fault :: bool
  pt_enabled_here :: bool
  pt_contexts :: 'x

datatype reconcile = NothingActive | Adopt | AbortExisting

definition reconcile_tasking ::
  "('x, 'c) contexts \<Rightarrow> 'x \<Rightarrow> ('x, 'g) program_tasking option \<Rightarrow> ('x, 'g) demand \<Rightarrow> 'c supervisor
    \<Rightarrow> lc_error + reconcile" where
  "reconcile_tasking cx no_contexts stored d v =
    (case (d_program d, stored) of
       (Some _, Some t) \<Rightarrow>
         if \<not> pt_active t then Inr NothingActive
         else if \<not> pt_stopping t \<and> \<not> pt_fault t \<and> pt_enabled_here t
           \<and> pt_contexts t = (case d_contexts d of Some x \<Rightarrow> x | None \<Rightarrow> no_contexts)
         then rbind (lifecycle_context cx d None) (\<lambda>ctx.
              rbind (case d_state d of None \<Rightarrow> Inr False | Some st \<Rightarrow> settled st ctx v) (\<lambda>ok.
              Inr (if ok then Adopt else AbortExisting)))
         else Inr AbortExisting
     | _ \<Rightarrow> Inr NothingActive)"

subsection \<open>Properties\<close>


lemma confirm_state_calls: "confirm_state st ctx own reads (p, v) = (r, q, w) \<Longrightarrow> p_calls q = p_calls p"
  by (auto simp: confirm_state_def Let_def split: prod.splits sum.splits)

lemma confirm_state_ok:
  assumes "confirm_state st ctx True reads (p, v) = (Inr s, q, w)"
  shows "sv_expected w = Some st \<and> p_achieved q \<and> p_commanded q"
proof -
  obtain r w' where c: "confirm st ctx reads v = (r, w')" by fastforce
  then have "r = Inr s" "w = w'" "p_achieved q" "p_commanded q"
    using assms by (auto simp: confirm_state_def Let_def split: sum.splits)
  then show ?thesis using confirm_outcome [of st ctx reads v] c by simp
qed

lemma task_result_calls: "task_result ctx target call reads (p, v) = (r, q, w) \<Longrightarrow> p_calls q = p_calls p"
  by (auto simp: task_result_def Let_def dest: confirm_state_calls
      split: prod.splits option.splits call_error.splits bool.splits if_splits)

lemma task_result_ok:
  assumes "task_result ctx target call reads (p, v) = (Inr s, q, w)"
  shows "tc_done call \<and> tc_error call = None
    \<and> (expects_target (p_kind p) \<and> target \<noteq> None \<longrightarrow> sv_expected w = target \<and> p_achieved q \<and> p_commanded q)"
  using assms
  by (auto simp: task_result_def Let_def dest: confirm_state_ok
      split: prod.splits option.splits call_error.splits bool.splits if_splits)


text \<open>Abort cleanup of program tasking is honest: afterwards either nothing is left for the
  procedure to end, or it is marked unresolved, so the reactor restarts instead of assuming that
  the session stopped.\<close>

theorem abort_tasking_honest:
  "let (e, u) = abort_tasking_logic start ending t in t_active t \<longrightarrow> t_unresolved u \<or> \<not> t_ends u"
  by (simp add: abort_tasking_logic_def split: prod.split)

theorem abort_tasking_honest_witness:
  "t_unresolved (snd (abort_tasking_logic None (Some StateUnknown)
     \<lparr>t_active = True, t_monitor = True, t_ends = True, t_unresolved = False\<rparr>))"
  using abort_tasking_honest [of None "Some StateUnknown"
      "\<lparr>t_active = True, t_monitor = True, t_ends = True, t_unresolved = False\<rparr>"]
  by (simp add: abort_tasking_logic_def end_tasking_def)

subsection \<open>Concrete histories\<close>

fun proc_events :: "proc_event list \<Rightarrow> ('x, 'g) procedure \<Rightarrow> ('x, 'g) procedure option" where
  "proc_events [] p = Some p"
| "proc_events (e # es) p =
    (case on_proc_event None e p of None \<Rightarrow> None | Some q \<Rightarrow> proc_events es q)"

lemma proc_events_steps: "proc_events es p = Some q \<Longrightarrow> proc_step\<^sup>*\<^sup>* p q"
proof (induction es arbitrary: p)
  case (Cons e es)
  then obtain r where "on_proc_event None e p = Some r" and "proc_step\<^sup>*\<^sup>* r q"
    by (auto split: option.splits)
  then have "proc_step p r" by (auto simp: proc_step_def)
  then show ?case using \<open>proc_step\<^sup>*\<^sup>* r q\<close> by (rule converse_rtranclp_into_rtranclp)
qed simp

definition demo_demand :: "(unit, unit) demand" where
  "demo_demand = \<lparr>d_state = Some STANDBY, d_contexts = None, d_program = None, d_interrupt = False,
    d_program_interrupt = False\<rparr>"

definition failed_history :: "proc_event list" where
  "failed_history = [Begin, OnlineResult True, LogicEnds (LogicRaised StateUnknown), StopEnds False [],
    AbortEnds []]"



end
