(* ===== verification/Auto_Reactor.thy ===== *)
theory Auto_Reactor
  imports Auto_Procedures
begin

section \<open>Reconciling demand (core/src/sensorkit/auto/reactor.py)\<close>

text \<open>
  \<open>ControllerReactor\<close>: one evaluation of demand, observed state and failure history, which
  concludes a finished procedure, interrupts the running one or starts the next.  The loop time
  \<open>now\<close> and the execution the controller last reported are inputs of an evaluation.
\<close>

subsection \<open>State\<close>

record ('x, 'g, 'c) reactor =
  rx_sup :: "'c supervisor"
  rx_proc :: "('x, 'g) procedure option"
  rx_once :: bool
  rx_settle :: "(nat \<times> real) option"
  rx_enabled :: bool
  rx_demand :: "('x, 'g) demand"
  rx_settle_timeout :: real

abbreviation rx_failures :: "('x, 'g, 'c) reactor \<Rightarrow> lc_error failure_state" where
  "rx_failures r \<equiv> sv_failures (rx_sup r)"

definition set_failures :: "lc_error failure_state \<Rightarrow> ('x, 'g, 'c) reactor \<Rightarrow> ('x, 'g, 'c) reactor" where
  "set_failures f r = r\<lparr>rx_sup := (rx_sup r)\<lparr>sv_failures := f\<rparr>\<rparr>"

lemma set_failures_simps [simp]:
  "rx_failures (set_failures f r) = f" "rx_proc (set_failures f r) = rx_proc r"
  "rx_enabled (set_failures f r) = rx_enabled r" "rx_demand (set_failures f r) = rx_demand r"
  "rx_settle (set_failures f r) = rx_settle r" "rx_settle_timeout (set_failures f r) = rx_settle_timeout r"
  "sv_observed (rx_sup (set_failures f r)) = sv_observed (rx_sup r)"
  "healthy (rx_sup (set_failures f r)) = healthy (rx_sup r)"
  by (simp_all add: set_failures_def healthy_def)

text \<open>The execution last reported running: its task id and the seconds left until it expires.\<close>

type_synonym execution = "nat \<times> real option"

subsection \<open>Interruption\<close>

definition reactor_step_of :: "('x, 'g, 'c) reactor \<Rightarrow> lifecycle_stage" where
  "reactor_step_of r = (case rx_proc r of None \<Rightarrow> WAIT | Some p \<Rightarrow> p_stage p)"

definition program_interruptible :: "('x, 'g) procedure \<Rightarrow> 'c op_state \<Rightarrow> bool" where
  "program_interruptible p actual \<longleftrightarrow>
    \<not> pending p \<and> os_current actual = OPERATE \<and> os_target actual = None"

definition is_recovery :: "proc_kind \<Rightarrow> bool" where
  "is_recovery k \<longleftrightarrow> (case k of RecoverP _ \<Rightarrow> True | _ \<Rightarrow> False)"

definition interrupt_kind ::
  "('x, 'c) contexts \<Rightarrow> ('x, 'g, 'c) reactor \<Rightarrow> ('x, 'g) procedure \<Rightarrow> 'c op_state
    \<Rightarrow> lc_error + interruption option" where
  "interrupt_kind cx r p actual =
    (let d = rx_demand r in
     if \<not> rx_enabled r \<or> d_state d = None then Inr (Some AbortRequest)
     else if f_error (rx_failures r) \<noteq> None then Inr (Some AbortRequest)
     else if is_recovery (p_kind p) then Inr None
     else if \<not> same_demand (p_demand p) d then
       Inr (if d_interrupt d \<or> (d_program_interrupt d \<and> program_interruptible p actual)
            then Some AbortRequest else Some StopRequest)
     else if \<not> p_achieved p \<or> pending p then Inr None
     else rbind (lifecycle_context cx d None) (\<lambda>ctx.
       Inr (if op_matches actual (the (d_state d)) ctx then None else Some StopRequest)))"

subsection \<open>Starting the next procedure\<close>

definition rx_start :: "proc_kind \<Rightarrow> ('x, 'g, 'c) reactor \<Rightarrow> ('x, 'g, 'c) reactor" where
  "rx_start k r =
    (let p = new_procedure k (rx_demand r);
         r = set_failures (begin_procedure (rx_failures r)) (r\<lparr>rx_proc := Some p\<rparr>)
     in r\<lparr>rx_sup := start_procedure p (rx_sup r)\<rparr>)"

fun kind_for :: "ctl_state \<Rightarrow> lc_error + proc_kind" where
  "kind_for OPERATE = Inr OperateP"
| "kind_for STANDBY = Inr StandbyP"
| "kind_for SHUTDOWN = Inr ShutdownP"
| "kind_for _ = Inl (OtherError ''KeyError'')"

definition settling ::
  "('x, 'c) contexts \<Rightarrow> execution option \<Rightarrow> 'c op_state \<Rightarrow> real \<Rightarrow> ('x, 'g, 'c) reactor
    \<Rightarrow> (lc_error + real option) \<times> ('x, 'g, 'c) reactor" where
  "settling cx exec actual now r =
    (let d = rx_demand r in
     case exec of
       None \<Rightarrow> (Inr None, r)
     | Some (task, remaining) \<Rightarrow>
        (if os_current actual \<noteq> TRANSITION \<or> os_target actual \<noteq> d_state d then (Inr None, r)
         else case lifecycle_context cx d None of
            Inl e \<Rightarrow> (Inl e, r)
          | Inr ctx \<Rightarrow>
             if os_context actual \<noteq> ctx then (Inr None, r)
             else
               let wait = (case rx_settle r of
                     Some (t, since) \<Rightarrow> if t = task then (t, since) else (task, now)
                   | None \<Rightarrow> (task, now));
                   until = snd wait + rx_settle_timeout r;
                   until = (case remaining of None \<Rightarrow> until | Some s \<Rightarrow> min until (now + s))
               in (Inr (if now < until then Some until else None), r\<lparr>rx_settle := Some wait\<rparr>)))"

definition dispatch ::
  "('x, 'c) contexts \<Rightarrow> execution option \<Rightarrow> 'c op_state \<Rightarrow> real \<Rightarrow> ('x, 'g, 'c) reactor
    \<Rightarrow> (lc_error + real option) \<times> ('x, 'g, 'c) reactor" where
  "dispatch cx exec actual now r =
    (let f = expire now (rx_failures r); r = set_failures f r in
     if recovery_due f then
       (case waiting now f of
          Some until \<Rightarrow> (Inr (Some until), r)
        | None \<Rightarrow> (Inr None, rx_start (RecoverP (emergency_due f)) r))
     else if d_state (rx_demand r) \<noteq> Some SHUTDOWN \<and> waiting now f \<noteq> None
     then (Inr (waiting now f), r)
     else
       (case settling cx exec actual now r of
          (Inl e, r) \<Rightarrow> (Inl e, r)
        | (Inr (Some until), r) \<Rightarrow> (Inr (Some until), r)
        | (Inr None, r) \<Rightarrow>
           (case kind_for (the (d_state (rx_demand r))) of
              Inl e \<Rightarrow> (Inl e, r)
            | Inr k \<Rightarrow> (Inr None, rx_start k r))))"

subsection \<open>Concluding a procedure\<close>

definition conclude_failures ::
  "real \<Rightarrow> ('x, 'g) procedure \<Rightarrow> lc_error failure_state \<Rightarrow> lc_error option \<times> lc_error failure_state" where
  "conclude_failures now p f =
    (case (p_kind p, p_error p) of
       (_, Some ControllerOffline) \<Rightarrow> (Some ControllerOffline, f)
     | (RecoverP em, Some ControllerUnrecoverable) \<Rightarrow> (Some ControllerUnrecoverable, clear_failures f)
     | (RecoverP em, err) \<Rightarrow>
         (if p_recovered p then (None, record_recovery now f)
          else if err = None then (None, f)
          else if em then (None, record_failed_emergency now f)
          else (None, record_failed_attempt now f))
     | (_, None) \<Rightarrow> (None, f)
     | (_, Some err) \<Rightarrow>
         (if f_error f \<noteq> None then (None, f)
          else if is_controller_failure err then (None, record_failure now err f)
          else (None, delay_retry now f)))"

definition conclude ::
  "real \<Rightarrow> ('x, 'g) procedure \<Rightarrow> ('x, 'g, 'c) reactor \<Rightarrow> lc_error option \<times> ('x, 'g, 'c) reactor" where
  "conclude now p r =
    (let r = r\<lparr>rx_once := rx_once r \<or> p_commanded p\<rparr> in
     if p_unresolved p
     then (Some (ControllerIndeterminate ''Procedure cleanup could not confirm that controller work stopped''), r)
     else let (raised, f) = conclude_failures now p (rx_failures r) in (raised, set_failures f r))"

subsection \<open>One evaluation\<close>

definition rx_evaluate ::
  "('x, 'c) contexts \<Rightarrow> execution option \<Rightarrow> real \<Rightarrow> ('x, 'g, 'c) reactor
    \<Rightarrow> (lc_error + real option) \<times> ('x, 'g, 'c) reactor" where
  "rx_evaluate cx exec now r =
    (let (raised, r) = (case rx_proc r of
           Some p \<Rightarrow> if p_phase p = Ended then conclude now p (r\<lparr>rx_proc := None\<rparr>) else (None, r)
         | None \<Rightarrow> (None, r))
     in case raised of
          Some e \<Rightarrow> (Inl e, r)
        | None \<Rightarrow>
         (case sv_state (rx_sup r) of
            Inl e \<Rightarrow> (Inl e, r)
          | Inr actual \<Rightarrow>
             (case rx_proc r of
                Some p \<Rightarrow>
                  (case interrupt_kind cx r p actual of
                     Inl e \<Rightarrow> (Inl e, r)
                   | Inr (Some AbortRequest) \<Rightarrow> (Inr None, r\<lparr>rx_proc := Some (request_abort p)\<rparr>)
                   | Inr (Some StopRequest) \<Rightarrow> (Inr None, r\<lparr>rx_proc := Some (request_stop p)\<rparr>)
                   | Inr None \<Rightarrow> (Inr None, r))
              | None \<Rightarrow>
                  if \<not> rx_enabled r \<or> d_state (rx_demand r) = None then (Inr None, r)
                  else dispatch cx exec actual now r)))"

text \<open>\<open>run\<close> counts a controller error found at startup, and returns once a disabled lifecycle has no
  procedure left.\<close>

definition rx_begin :: "real \<Rightarrow> ('x, 'g, 'c) reactor \<Rightarrow> lc_error + ('x, 'g, 'c) reactor" where
  "rx_begin now r =
    rbind (sv_state (rx_sup r)) (\<lambda>s.
      Inr (if os_current s = ERROR then set_failures (record_initial_error now (rx_failures r)) r else r))"

definition rx_returns :: "('x, 'g, 'c) reactor \<Rightarrow> bool" where
  "rx_returns r \<longleftrightarrow> \<not> rx_enabled r \<and> rx_proc r = None"

text \<open>\<open>\_wait\<close>: the timeout of the next wait, and whether it watches for a failure.\<close>

definition wait_timeout :: "real option \<Rightarrow> real \<Rightarrow> real option" where
  "wait_timeout deadline now = map_option (\<lambda>d. max 0 (d - now)) deadline"

text \<open>\<open>\_release\<close>, once the aborted procedure has ended.\<close>

definition rx_release :: "('x, 'g) procedure \<Rightarrow> ('x, 'g, 'c) reactor \<Rightarrow> ('x, 'g, 'c) reactor" where
  "rx_release ended r =
    (case rx_proc r of
       None \<Rightarrow> r
     | Some _ \<Rightarrow> r\<lparr>rx_proc := None, rx_once := rx_once r \<or> p_commanded ended\<rparr>)"

subsection \<open>Properties\<close>

lemma rx_start_simps [simp]:
  "rx_proc (rx_start k r) = Some (new_procedure k (rx_demand r))"
  "rx_failures (rx_start k r) = begin_procedure (rx_failures r)"
  "rx_demand (rx_start k r) = rx_demand r" "rx_enabled (rx_start k r) = rx_enabled r"
  by (simp_all add: rx_start_def Let_def start_procedure_def invalidate_def expect_def set_failures_def)


lemma requests_escalate:
  "p_interrupt (request_abort p) = Some AbortRequest"
  "p_interrupt (request_stop p) \<noteq> None"
  "p_interrupt p = Some AbortRequest \<Longrightarrow> p_interrupt (request_stop p) = Some AbortRequest"
  "(request_abort p)\<lparr>p_interrupt := i\<rparr> = p\<lparr>p_interrupt := i\<rparr>"
  "(request_stop p)\<lparr>p_interrupt := i\<rparr> = p\<lparr>p_interrupt := i\<rparr>"
  by (simp_all add: request_abort_def request_stop_def)

text \<open>Procedures run one at a time: while one has not ended, an evaluation starts nothing and
  leaves the failure history alone; it can only raise the interruption requested of it, and an
  abort is never taken back.\<close>

theorem evaluate_running:
  assumes "rx_proc r = Some p" and "p_phase p \<noteq> Ended"
  shows "\<exists>q. rx_proc (snd (rx_evaluate cx exec now r)) = Some q
    \<and> q\<lparr>p_interrupt := None\<rparr> = p\<lparr>p_interrupt := None\<rparr>
    \<and> (p_interrupt p = Some AbortRequest \<longrightarrow> p_interrupt q = Some AbortRequest)
    \<and> (p_interrupt p \<noteq> None \<longrightarrow> p_interrupt q \<noteq> None)
    \<and> rx_failures (snd (rx_evaluate cx exec now r)) = rx_failures r"
proof -
  have "snd (rx_evaluate cx exec now r) \<in> {r, r\<lparr>rx_proc := Some (request_abort p)\<rparr>, r\<lparr>rx_proc := Some (request_stop p)\<rparr>}"
    using assms by (auto simp: rx_evaluate_def split: sum.splits option.splits interruption.splits)
  then show ?thesis
    using assms(1) requests_escalate [where p = p] by (elim insertE emptyE) auto
qed


text \<open>What a finished procedure adds to the history: a recovery interrupted before it succeeded
  or failed changes nothing, a successful one leaves one failure on the count, a failed one is an
  attempt (or restarts the cycle after an emergency); any other procedure counts at most one
  controller failure, and none if one was counted while it ran.\<close>

theorem conclude_counts:
  assumes "p_error p \<noteq> Some ControllerOffline" and "p_error p \<noteq> Some ControllerUnrecoverable"
  shows "case p_kind p of
      RecoverP em \<Rightarrow> snd (conclude_failures now p f) =
        (if p_recovered p then record_recovery now f else if p_error p = None then f
         else if em then record_failed_emergency now f else record_failed_attempt now f)
    | _ \<Rightarrow> (if f_error f \<noteq> None then snd (conclude_failures now p f) = f
         else f_failures (snd (conclude_failures now p f))
           = (case p_error p of Some (ControllerFailure _) \<Rightarrow> f_failures (expire now f) + 1 | _ \<Rightarrow> f_failures f))"
  using assms
  by (cases "p_kind p"; cases "p_error p"; simp add: conclude_failures_def split: lc_error.split)
    (auto simp: record_failure_def delay_retry_def Let_def)

subsection \<open>A concrete reactor\<close>

definition demo_contexts :: "(unit, string) contexts" where
  "demo_contexts = \<lparr>cx_get = \<lambda>_ _. '''', cx_empty = ''''\<rparr>"

definition demo_reactor :: "(unit, unit, string) reactor" where
  "demo_reactor = \<lparr>rx_sup = demo_supervisor\<lparr>sv_observed := Some op_operate\<rparr>, rx_proc = None, rx_once = False,
    rx_settle = None, rx_enabled = True, rx_demand = demo_demand, rx_settle_timeout = 300\<rparr>"

lemmas demo_reactor_defs = demo_reactor_def demo_supervisor_def expire_def recovery_due_def waiting_def
  emergency_due_def


theorem evaluate_running_witness:
  "\<exists>q. rx_proc (snd (rx_evaluate demo_contexts None 1
      (demo_reactor\<lparr>rx_proc := Some (new_procedure OperateP demo_demand)\<rparr>))) = Some q"
proof -
  let ?p = "new_procedure OperateP demo_demand"
  have "rx_proc (demo_reactor\<lparr>rx_proc := Some ?p\<rparr>) = Some ?p" and "p_phase ?p \<noteq> Ended"
    by (simp_all add: new_procedure_def)
  from evaluate_running [OF this] show ?thesis by blast
qed


theorem conclude_counts_witness:
  "snd (conclude_failures 5 ((new_procedure (RecoverP False) demo_demand)\<lparr>p_error := Some StateUnknown\<rparr>)
      (rx_failures demo_reactor)) = record_failed_attempt 5 (rx_failures demo_reactor)"
proof -
  let ?p = "(new_procedure (RecoverP False) demo_demand)\<lparr>p_error := Some StateUnknown\<rparr>"
  have "p_error ?p \<noteq> Some ControllerOffline" "p_error ?p \<noteq> Some ControllerUnrecoverable" by simp_all
  from conclude_counts [OF this, where now = 5 and f = "rx_failures demo_reactor"] show ?thesis
    by (simp add: new_procedure_def)
qed

end
