(* ===== verification/Election.thy ===== *)
theory Election
  imports Kit_Prelude
begin

section \<open>State election (core/src/sensorkit/common/graph.py)\<close>

text \<open>
  \<open>StateElection\<close>: votes per source and subject with their running tally, and the evaluation
  that lets a downvote win, pulls the dependencies of an elected subject up and holds a subject
  down when one of them is down.  The recursion over dependencies has fuel: Python's recursion
  limit, reached exactly when the dependency graph has a cycle below the subject.
\<close>

subsection \<open>Votes\<close>

record 'e tally =
  upvotes :: int
  downvotes :: int

record ('s, 'e) election =
  el_graph :: "('e, 'e list) dict"
  el_votes :: "'s \<Rightarrow> 'e \<Rightarrow> bool option"
  el_tally :: "'e \<Rightarrow> 'e tally"

definition new_election :: "('e, 'e list) dict \<Rightarrow> ('s, 'e) election" where
  "new_election g = \<lparr>el_graph = g, el_votes = (\<lambda>_ _. None), el_tally = (\<lambda>_. \<lparr>upvotes = 0, downvotes = 0\<rparr>)\<rparr>"

definition count_vote :: "int \<Rightarrow> bool option \<Rightarrow> 'e tally \<Rightarrow> 'e tally" where
  "count_vote n v t =
    (case v of Some True \<Rightarrow> t\<lparr>upvotes := upvotes t + n\<rparr>
     | Some False \<Rightarrow> t\<lparr>downvotes := downvotes t + n\<rparr>
     | None \<Rightarrow> t)"

definition vote :: "'s \<Rightarrow> 'e \<Rightarrow> bool option \<Rightarrow> ('s, 'e) election \<Rightarrow> ('s, 'e) election" where
  "vote source subject v el =
    (let prev = el_votes el source subject in
     if v = prev then el
     else el\<lparr>el_votes := (el_votes el)(source := (el_votes el source)(subject := v)),
             el_tally := (el_tally el)(subject := count_vote 1 v (count_vote (- 1) prev (el_tally el subject)))\<rparr>)"

subsection \<open>Evaluation\<close>

definition subject_deps :: "('s, 'e) election \<Rightarrow> 'e \<Rightarrow> 'e list" where
  "subject_deps el s = (case map_of (el_graph el) s of Some ds \<Rightarrow> ds | None \<Rightarrow> [])"

type_synonym 'e ballot = "('e, bool) dict"

fun eval_subject :: "nat \<Rightarrow> ('s, 'e) election \<Rightarrow> bool \<Rightarrow> 'e \<Rightarrow> 'e ballot \<Rightarrow> (bool option \<times> 'e ballot) option"
and eval_deps :: "nat \<Rightarrow> ('s, 'e) election \<Rightarrow> 'e list \<Rightarrow> bool \<Rightarrow> 'e ballot \<Rightarrow> (bool \<times> 'e ballot) option" where
  "eval_subject fuel el dep s out =
    (case map_of out s of
       Some b \<Rightarrow> Some (Some b, out)
     | None \<Rightarrow>
        if downvotes (el_tally el s) > 0 then Some (Some False, dict_set s False out)
        else if upvotes (el_tally el s) + of_bool dep > 0 then
          (case fuel of
             0 \<Rightarrow> None
           | Suc n \<Rightarrow> (case eval_deps n el (subject_deps el s) True out of
               None \<Rightarrow> None
             | Some (good, out') \<Rightarrow> Some (Some good, dict_set s good out')))
        else Some (None, out))"
| "eval_deps fuel el [] good out = Some (good, out)"
| "eval_deps fuel el (d # ds) good out =
    (case eval_subject fuel el True d out of
       None \<Rightarrow> None
     | Some (b, out') \<Rightarrow> eval_deps fuel el ds (good \<and> b = Some True) out')"

fun eval_subjects :: "nat \<Rightarrow> ('s, 'e) election \<Rightarrow> 'e list \<Rightarrow> 'e ballot \<Rightarrow> 'e ballot option" where
  "eval_subjects fuel el [] out = Some out"
| "eval_subjects fuel el (s # ss) out =
    (case eval_subject fuel el False s out of None \<Rightarrow> None | Some (_, out') \<Rightarrow> eval_subjects fuel el ss out')"

definition elect :: "nat \<Rightarrow> ('s, 'e) election \<Rightarrow> 'e ballot option" where
  "elect fuel el = eval_subjects fuel el (dict_keys (el_graph el)) []"

subsection \<open>The tally counts the votes\<close>

definition voters :: "('s, 'e) election \<Rightarrow> 'e \<Rightarrow> bool \<Rightarrow> 's set" where
  "voters el s b = {src. el_votes el src s = Some b}"

definition tally_ok :: "('s, 'e) election \<Rightarrow> bool" where
  "tally_ok el \<longleftrightarrow> (\<forall>s. finite (voters el s True) \<and> finite (voters el s False)
    \<and> upvotes (el_tally el s) = int (card (voters el s True))
    \<and> downvotes (el_tally el s) = int (card (voters el s False)))"

lemma voters_vote:
  "voters (vote src x v el) s b =
    (if s = x then (if v = Some b then insert src (voters el s b) else voters el s b - {src})
     else voters el s b)"
  by (auto simp: voters_def vote_def Let_def split: if_splits)

lemma tally_ok_vote:
  assumes "tally_ok el"
  shows "tally_ok (vote src x v el)"
proof (cases "v = el_votes el src x")
  case True
  then show ?thesis using assms by (simp add: vote_def Let_def)
next
  case False
  let ?t = "el_tally el x"
  have mem: "src \<in> voters el x b \<longleftrightarrow> el_votes el src x = Some b" for b by (simp add: voters_def)
  have fin: "finite (voters el x b)" for b using assms by (cases b) (auto simp: tally_ok_def)
  have counts: "upvotes ?t = int (card (voters el x True))" "downvotes ?t = int (card (voters el x False))"
    using assms by (simp_all add: tally_ok_def)
  have pos: "el_votes el src x = Some b \<Longrightarrow> 0 < card (voters el x b)" for b
    using fin mem by (metis card_gt_0_iff empty_iff)
  have tally: "el_tally (vote src x v el) = (el_tally el)(x := count_vote 1 v (count_vote (- 1) (el_votes el src x) ?t))"
    using False by (simp add: vote_def Let_def)
  have card: "int (card (voters (vote src x v el) x b)) = int (card (voters el x b))
      + (if v = Some b then 1 else 0) - (if el_votes el src x = Some b then 1 else 0)" for b
    using False fin [of b] mem [of b] pos [of b]
    by (auto simp: voters_vote card_insert_if card_Diff_singleton_if of_nat_diff)
  show ?thesis
    unfolding tally_ok_def
  proof (intro allI conjI, goal_cases)
    case (1 s)
    then show ?case using assms by (auto simp: voters_vote tally_ok_def)
  next
    case (2 s)
    then show ?case using assms by (auto simp: voters_vote tally_ok_def)
  next
    case (3 s)
    show ?case
    proof (cases "s = x")
      case True
      show ?thesis
        unfolding True tally card [of True] counts [symmetric]
        by (cases v; cases "el_votes el src x") (auto simp: count_vote_def)
    qed (use assms in \<open>simp add: tally voters_vote tally_ok_def\<close>)
  next
    case (4 s)
    show ?case
    proof (cases "s = x")
      case True
      show ?thesis
        unfolding True tally card [of False] counts [symmetric]
        by (cases v; cases "el_votes el src x") (auto simp: count_vote_def)
    qed (use assms in \<open>simp add: tally voters_vote tally_ok_def\<close>)
  qed
qed

definition election_start :: "('s, 'e) election \<Rightarrow> bool" where
  "election_start el \<longleftrightarrow> (\<exists>g. el = new_election g)"

definition election_step :: "('s, 'e) election \<Rightarrow> ('s, 'e) election \<Rightarrow> bool" where
  "election_step el el' \<longleftrightarrow> (\<exists>src s v. el' = vote src s v el)"

interpretation polls: step_invariant election_start election_step tally_ok
  by unfold_locales
    (auto simp: election_start_def election_step_def tally_ok_vote, auto simp: new_election_def tally_ok_def voters_def)

subsection \<open>What an evaluation returns\<close>

text \<open>A subject is held down by a vote against it or against anything it depends on.\<close>

inductive held_down :: "('s, 'e) election \<Rightarrow> 'e \<Rightarrow> bool" for el where
  voted: "downvotes (el_tally el s) > 0 \<Longrightarrow> held_down el s"
| dependency: "d \<in> set (subject_deps el s) \<Longrightarrow> held_down el d \<Longrightarrow> held_down el s"

inductive_simps held_down_iff: "held_down el s"

definition ballot_ok :: "('s, 'e) election \<Rightarrow> 'e ballot \<Rightarrow> bool" where
  "ballot_ok el out \<longleftrightarrow> (\<forall>s b. map_of out s = Some b \<longrightarrow>
    (b \<longleftrightarrow> \<not> held_down el s) \<and> (b \<longrightarrow> (\<forall>d\<in>set (subject_deps el s). map_of out d = Some True)))"

definition extends :: "'e ballot \<Rightarrow> 'e ballot \<Rightarrow> bool" where
  "extends out out' \<longleftrightarrow> (\<forall>s b. map_of out s = Some b \<longrightarrow> map_of out' s = Some b)"

lemma extends_trans: "extends a b \<Longrightarrow> extends b c \<Longrightarrow> extends a c"
  by (simp add: extends_def)

lemma ballot_ok_set:
  assumes "ballot_ok el out" and "map_of out s = None" and "b \<longleftrightarrow> \<not> held_down el s"
    and "b \<longrightarrow> (\<forall>d\<in>set (subject_deps el s). map_of out d = Some True)"
  shows "ballot_ok el (dict_set s b out) \<and> extends out (dict_set s b out)"
proof
  show ext: "extends out (dict_set s b out)" using assms(2) by (simp add: extends_def)
  show "ballot_ok el (dict_set s b out)"
    unfolding ballot_ok_def
  proof (intro allI impI)
    fix t c assume c: "map_of (dict_set s b out) t = Some c"
    have "(c \<longleftrightarrow> \<not> held_down el t) \<and> (c \<longrightarrow> (\<forall>d\<in>set (subject_deps el t). map_of out d = Some True))"
    proof (cases "t = s")
      case True
      then have "c = b" using c by simp
      then show ?thesis using assms(3,4) True by blast
    next
      case False
      then have "map_of out t = Some c" using c by simp
      then show ?thesis using assms(1) unfolding ballot_ok_def by blast
    qed
    then show "(c \<longleftrightarrow> \<not> held_down el t)
        \<and> (c \<longrightarrow> (\<forall>d\<in>set (subject_deps el t). map_of (dict_set s b out) d = Some True))"
      using ext unfolding extends_def by blast
  qed
qed

lemma ballot_ok_again:
  assumes "ballot_ok el out" and "map_of out s = Some b"
  shows "ballot_ok el (dict_set s b out) \<and> extends out (dict_set s b out)"
proof -
  have "map_of (dict_set s b out) = map_of out" using assms(2) by (simp add: fun_upd_idem)
  then show ?thesis using assms(1) unfolding ballot_ok_def extends_def by simp
qed

lemma eval_sound:
  "eval_subject fuel el dep s out = Some (b, out') \<Longrightarrow> tally_ok el \<Longrightarrow> ballot_ok el out
    \<Longrightarrow> ballot_ok el out' \<and> extends out out' \<and> b = map_of out' s
      \<and> (dep \<or> upvotes (el_tally el s) > 0 \<or> downvotes (el_tally el s) > 0 \<longrightarrow> b \<noteq> None)"
  "eval_deps fuel el ds good out = Some (good', out') \<Longrightarrow> tally_ok el \<Longrightarrow> ballot_ok el out
    \<Longrightarrow> ballot_ok el out' \<and> extends out out' \<and> (\<forall>d\<in>set ds. map_of out' d \<noteq> None)
      \<and> (good' \<longleftrightarrow> good \<and> (\<forall>d\<in>set ds. map_of out' d = Some True))"
proof (induction fuel el dep s out and fuel el ds good out arbitrary: b out' and good' out'
    rule: eval_subject_eval_deps.induct)
  case (1 fuel el dep s out)
  have nonneg: "upvotes (el_tally el s) \<ge> 0" using "1.prems"(2) by (simp add: tally_ok_def)
  consider (known) c where "map_of out s = Some c"
    | (down) "map_of out s = None" "downvotes (el_tally el s) > 0"
    | (up) "map_of out s = None" "\<not> downvotes (el_tally el s) > 0" "upvotes (el_tally el s) + of_bool dep > 0"
    | (none) "map_of out s = None" "\<not> downvotes (el_tally el s) > 0" "\<not> upvotes (el_tally el s) + of_bool dep > 0"
    by (cases "map_of out s") auto
  then show ?case
  proof cases
    case known
    then have "b = Some c" "out' = out" using "1.prems"(1) by simp_all
    then show ?thesis using known "1.prems"(3) by (simp add: extends_def)
  next
    case down
    then have "held_down el s" by (simp add: held_down.voted)
    then show ?thesis
      using "1.prems" down ballot_ok_set [OF "1.prems"(3) down(1), of False] by auto
  next
    case up
    then obtain n good mid where n: "fuel = Suc n"
      and deps: "eval_deps n el (subject_deps el s) True out = Some (good, mid)"
      and eqs: "b = Some good" "out' = dict_set s good mid"
      using "1.prems"(1) by (auto split: nat.splits option.splits)
    note IH = "1.IH" [OF up n deps "1.prems"(2,3)]
    have mid: "ballot_ok el mid" "extends out mid" using IH by blast+
    have held: "good \<longleftrightarrow> \<not> held_down el s"
    proof -
      have "map_of mid d = Some True \<longleftrightarrow> \<not> held_down el d" if "d \<in> set (subject_deps el s)" for d
        using IH that unfolding ballot_ok_def by (metis not_None_eq)
      then show ?thesis using IH up(2) held_down_iff [of el s] by blast
    qed
    show ?thesis
    proof (cases "map_of mid s")
      case None
      have "ballot_ok el (dict_set s good mid) \<and> extends mid (dict_set s good mid)"
        by (rule ballot_ok_set) (use None IH held in blast)+
      then show ?thesis unfolding eqs using extends_trans [OF mid(2)] by simp
    next
      case (Some c)
      have "c \<longleftrightarrow> \<not> held_down el s" using mid(1) Some unfolding ballot_ok_def by blast
      then have "c = good" using held by blast
      then have "map_of mid s = Some good" using Some by simp
      note ballot_ok_again [OF mid(1) this]
      then show ?thesis unfolding eqs using extends_trans [OF mid(2)] by simp
    qed
  next
    case none
    then have "b = None" "out' = out" and "\<not> dep" "\<not> upvotes (el_tally el s) > 0"
      using "1.prems"(1) nonneg by (simp_all split: if_splits) (cases dep; simp)+
    then show ?thesis using none "1.prems"(3) by (simp add: extends_def)
  qed
next
  case (2 fuel el good out)
  then show ?case by (auto simp: extends_def)
next
  case (3 fuel el d ds good out)
  obtain c mid where sub: "eval_subject fuel el True d out = Some (c, mid)"
    and rest: "eval_deps fuel el ds (good \<and> c = Some True) mid = Some (good', out')"
    using "3.prems"(1) by (auto split: option.splits)
  note I1 = "3.IH"(1) [OF sub "3.prems"(2,3)]
  then have "ballot_ok el mid" by blast
  note I2 = "3.IH"(2) [OF sub refl rest "3.prems"(2) this]
  obtain x where x: "c = Some x" "map_of mid d = Some x" using I1 by auto
  then have "map_of out' d = Some x" using I2 unfolding extends_def by blast
  then show ?case using I1 I2 x extends_trans by auto
qed

text \<open>With a rank that falls along dependencies, more fuel than the rank is enough.\<close>

definition ranked :: "('e \<Rightarrow> nat) \<Rightarrow> ('s, 'e) election \<Rightarrow> bool" where
  "ranked rank el \<longleftrightarrow> (\<forall>s d. d \<in> set (subject_deps el s) \<longrightarrow> rank d < rank s)"

lemma eval_total:
  "ranked rank el \<Longrightarrow> rank s < fuel \<Longrightarrow> eval_subject fuel el dep s out \<noteq> None"
  "ranked rank el \<Longrightarrow> (\<And>d. d \<in> set ds \<Longrightarrow> rank d < fuel) \<Longrightarrow> eval_deps fuel el ds good out \<noteq> None"
proof (induction fuel el dep s out and fuel el ds good out rule: eval_subject_eval_deps.induct)
  case (1 fuel el dep s out)
  show ?case
  proof (cases "map_of out s = None \<and> \<not> downvotes (el_tally el s) > 0 \<and> upvotes (el_tally el s) + of_bool dep > 0")
    case True
    then have c: "map_of out s = None" "\<not> downvotes (el_tally el s) > 0"
        "upvotes (el_tally el s) + of_bool dep > 0" by blast+
    obtain n where n: "fuel = Suc n" using "1.prems"(2) by (cases fuel) auto
    have less: "rank d < n" if "d \<in> set (subject_deps el s)" for d
    proof -
      have "rank d < rank s" using "1.prems"(1) that unfolding ranked_def by blast
      then show ?thesis using "1.prems"(2) n by simp
    qed
    have "eval_deps n el (subject_deps el s) True out \<noteq> None"
      by (rule "1.IH" [OF c n "1.prems"(1) less])
    then show ?thesis using c n by auto
  next
    case False
    then show ?thesis by (cases "map_of out s") auto
  qed
next
  case (2 fuel el good out)
  then show ?case by simp
next
  case (3 fuel el d ds good out)
  have "eval_subject fuel el True d out \<noteq> None" by (rule "3.IH"(1) [OF "3.prems"(1)]) (simp add: "3.prems"(2))
  then obtain b out' where sub: "eval_subject fuel el True d out = Some (b, out')" by auto
  have "eval_deps fuel el ds (good \<and> b = Some True) out' \<noteq> None"
    by (rule "3.IH"(2) [OF sub refl "3.prems"(1)]) (simp add: "3.prems"(2))
  then show ?case using sub by simp
qed

lemma eval_subjects_sound:
  assumes "tally_ok el"
  shows "ballot_ok el out \<Longrightarrow> eval_subjects fuel el ss out = Some out'
    \<Longrightarrow> ballot_ok el out' \<and> extends out out'
      \<and> (\<forall>s\<in>set ss. upvotes (el_tally el s) > 0 \<or> downvotes (el_tally el s) > 0 \<longrightarrow> map_of out' s \<noteq> None)"
proof (induction ss arbitrary: out)
  case Nil
  then show ?case by (simp add: extends_def)
next
  case (Cons s ss)
  then obtain b mid where sub: "eval_subject fuel el False s out = Some (b, mid)"
    and rest: "eval_subjects fuel el ss mid = Some out'" by (auto split: option.splits)
  note S = eval_sound(1) [OF sub assms Cons.prems(1)]
  then have "ballot_ok el mid" by blast
  note R = Cons.IH [OF this rest]
  have keep: "map_of out' s \<noteq> None" if "map_of mid s \<noteq> None"
    using that R unfolding extends_def by blast
  have here: "upvotes (el_tally el s) > 0 \<or> downvotes (el_tally el s) > 0 \<Longrightarrow> map_of mid s \<noteq> None"
    using S by metis
  have "extends out out'" using S R extends_trans by blast
  moreover have "\<forall>t\<in>set (s # ss). upvotes (el_tally el t) > 0 \<or> downvotes (el_tally el t) > 0
      \<longrightarrow> map_of out' t \<noteq> None"
    using keep here R unfolding list.set(2) by blast
  ultimately show ?case using R by blast
qed

lemma eval_subjects_total:
  "ranked rank el \<Longrightarrow> (\<forall>s. rank s < fuel) \<Longrightarrow> \<exists>out'. eval_subjects fuel el ss out = Some out'"
proof (induction ss arbitrary: out)
  case (Cons s ss)
  have "rank s < fuel" using Cons.prems(2) by blast
  then have "eval_subject fuel el False s out \<noteq> None" by (rule eval_total(1) [OF Cons.prems(1)])
  then obtain b mid where sub: "eval_subject fuel el False s out = Some (b, mid)" by auto
  obtain out' where "eval_subjects fuel el ss mid = Some out'"
    using Cons.IH [OF Cons.prems] by blast
  then show ?case using sub by simp
qed simp

subsection \<open>Properties\<close>

text \<open>Whatever votes were cast, changed and withdrawn, in any order and from any sources, a
  subject's tally is the number of sources whose current vote is up and down.\<close>

theorem tally_counts_voters:
  assumes "election_start el" and "election_step\<^sup>*\<^sup>* el el'"
  shows "upvotes (el_tally el' s) = int (card (voters el' s True))
    \<and> downvotes (el_tally el' s) = int (card (voters el' s False))"
  using polls.reachable_inv [OF assms] by (simp add: tally_ok_def)

text \<open>C28. On an acyclic dependency graph the evaluation returns, and its result is the pessimistic
  election: every subject with a vote has a result, a subject is up exactly when no vote is
  against it or anything it depends on, and a subject that is up has all its dependencies up in
  the same result.\<close>

theorem election_result:
  assumes "election_start el\<^sub>0" and "election_step\<^sup>*\<^sup>* el\<^sub>0 el" and "ranked rank el" and "\<forall>s. rank s < fuel"
  shows "\<exists>out. elect fuel el = Some out
    \<and> (\<forall>s b. map_of out s = Some b \<longrightarrow> (b \<longleftrightarrow> \<not> held_down el s)
        \<and> (b \<longrightarrow> (\<forall>d\<in>set (subject_deps el s). map_of out d = Some True)))
    \<and> (\<forall>s\<in>set (dict_keys (el_graph el)).
        voters el s True \<noteq> {} \<or> voters el s False \<noteq> {} \<longrightarrow> map_of out s \<noteq> None)"
proof -
  have tally: "tally_ok el" by (rule polls.reachable_inv [OF assms(1,2)])
  obtain out where out: "elect fuel el = Some out"
    using eval_subjects_total [OF assms(3,4)] unfolding elect_def by blast
  have "ballot_ok el []" by (simp add: ballot_ok_def)
  note S = eval_subjects_sound [OF tally this out [unfolded elect_def]]
  have "upvotes (el_tally el s) > 0 \<or> downvotes (el_tally el s) > 0"
    if "voters el s True \<noteq> {} \<or> voters el s False \<noteq> {}" for s
    using that tally unfolding tally_ok_def by (metis card_gt_0_iff of_nat_0_less_iff)
  then show ?thesis using out S unfolding ballot_ok_def by blast
qed

subsection \<open>Concrete elections\<close>

definition demo_election :: "(string, string) election" where
  "demo_election = vote ''schedule'' ''camera'' (Some True)
    (new_election [(''camera'', [''mount'']), (''mount'', [])])"

lemma demo_election_reached:
  "election_start (new_election [(''camera'', [''mount'']), (''mount'', [])])"
  "election_step\<^sup>*\<^sup>* (new_election [(''camera'', [''mount'']), (''mount'', [])]) demo_election"
  unfolding election_start_def election_step_def demo_election_def by blast+

theorem tally_counts_voters_witness: "upvotes (el_tally demo_election ''camera'') = 1
    \<and> upvotes (el_tally demo_election ''camera'') = int (card (voters demo_election ''camera'' True))"
  using tally_counts_voters [OF demo_election_reached, of "''camera''"]
  by (simp add: demo_election_def vote_def new_election_def count_vote_def)

theorem election_result_witness: "elect 5 demo_election = Some [(''mount'', True), (''camera'', True)]
    \<and> (\<exists>out. elect 5 demo_election = Some out)"
proof -
  have "ranked (\<lambda>s. if s = ''camera'' then 1 else 0) demo_election"
    by (auto simp: ranked_def subject_deps_def demo_election_def vote_def new_election_def split: if_splits)
  moreover have "\<forall>s. (if s = ''camera'' then 1 else 0) < (5::nat)" by simp
  ultimately have "\<exists>out. elect 5 demo_election = Some out"
    using election_result [OF demo_election_reached] by blast
  then show ?thesis
    by (simp add: elect_def demo_election_def vote_def new_election_def count_vote_def subject_deps_def
        numeral_eq_Suc)
qed


end
