(* ===== verification/Auto_Operator.thy ===== *)
theory Auto_Operator
  imports Auto_Reactor Election
begin

section \<open>Lifecycle, virtual operator and agent state\<close>

text \<open>
  \<open>auto/lifecycle.py\<close> (demand, enablement, restart backoff), \<open>auto/operator.py\<close>
  (\<open>ProgramStateManager\<close>, \<open>ControllerDriver\<close>'s votes and demand, the main loop's round) and the
  state derivations of \<open>auto/agent.py\<close>.  What the schedule, the constraints and the clock say is
  an input; programs and controllers are named by strings.
\<close>

subsection \<open>ControllerLifecycle\<close>

record ('x, 'g) lifecycle =
  lc_demand :: "('x, 'g) demand"
  lc_enabled :: bool
  lc_failures :: "lc_error failure_state"
  lc_last_error :: "lc_error option"
  lc_step :: "lifecycle_stage option"

definition no_demand :: "('x, 'g) demand" where
  "no_demand = \<lparr>d_state = None, d_contexts = None, d_program = None, d_interrupt = False,
    d_program_interrupt = False\<rparr>"

definition new_lifecycle :: "real \<Rightarrow> lc_error failure_state \<Rightarrow> string + ('x, 'g) lifecycle" where
  "new_lifecycle grace f =
    (if \<not> grace > 0 then Inl ''transition_grace must be positive''
     else Inr \<lparr>lc_demand = no_demand, lc_enabled = False, lc_failures = f, lc_last_error = None, lc_step = None\<rparr>)"

definition lc_enable :: "('x, 'g) lifecycle \<Rightarrow> ('x, 'g) lifecycle" where
  "lc_enable l = l\<lparr>lc_enabled := True\<rparr>"

definition lc_disable :: "('x, 'g) lifecycle \<Rightarrow> ('x, 'g) lifecycle" where
  "lc_disable l = l\<lparr>lc_demand := no_demand, lc_enabled := False\<rparr>"

definition set_demand_state ::
  "('x, 'g) demand \<Rightarrow> ('x, 'g) lifecycle \<Rightarrow> string + bool \<times> ('x, 'g) lifecycle" where
  "set_demand_state d l =
    (case d_state d of
       Some OPERATE \<Rightarrow> Inr (\<not> same_demand d (lc_demand l), l\<lparr>lc_demand := d\<rparr>)
     | Some STANDBY \<Rightarrow> Inr (\<not> same_demand d (lc_demand l), l\<lparr>lc_demand := d\<rparr>)
     | Some SHUTDOWN \<Rightarrow> Inr (\<not> same_demand d (lc_demand l), l\<lparr>lc_demand := d\<rparr>)
     | _ \<Rightarrow> Inl ''Cannot demand controller state'')"

record lifecycle_status =
  ls_step :: lifecycle_stage
  ls_failures :: "lc_error failure_snap"
  ls_error :: "string option"

definition lc_status ::
  "(lc_error \<Rightarrow> string) \<Rightarrow> real \<Rightarrow> real \<Rightarrow> ('x, 'g) lifecycle \<Rightarrow> lifecycle_status" where
  "lc_status str utc monot l =
    \<lparr>ls_step = (case lc_step l of None \<Rightarrow> WAIT | Some s \<Rightarrow> s),
     ls_failures = failure_snapshot str utc monot (lc_failures l),
     ls_error = map_option str (lc_last_error l)\<rparr>"

text \<open>How a session ends (\<open>\_session\<close>): the raised error with what it leaves in the lifecycle.\<close>

definition end_session ::
  "lc_error option \<Rightarrow> ('x, 'g) lifecycle \<Rightarrow> lc_error option \<times> ('x, 'g) lifecycle" where
  "end_session raised l =
    (let l = l\<lparr>lc_step := None\<rparr> in
     case raised of
       Some ControllerUnrecoverable \<Rightarrow>
         (None, lc_disable (l\<lparr>lc_last_error := Some ControllerUnrecoverable\<rparr>))
     | e \<Rightarrow> (e, l))"

text \<open>
  One turn of \<open>\_supervise\<close>: the session's error, whether it commanded the demanded state, and how
  long it ran; the result is the delay to sleep before restarting, if any, and the next delay.
\<close>

definition restart_delay :: real where "restart_delay = 1"

definition restart_delay_max :: real where "restart_delay_max = 60"

definition backoff :: "lc_error option \<times> bool \<times> real \<Rightarrow> real \<Rightarrow> real option \<times> real" where
  "backoff session delay =
    (let (err, achieved, elapsed) = session;
         delay = (if err = None \<or> achieved \<or> elapsed \<ge> restart_delay_max then restart_delay else delay)
     in case err of
          None \<Rightarrow> (None, delay)
        | Some e \<Rightarrow> (Some delay, min (delay * 2) restart_delay_max))"

definition supervise_turn ::
  "lc_error option \<times> bool \<times> real \<Rightarrow> real \<times> ('x, 'g) lifecycle
    \<Rightarrow> real option \<times> real \<times> ('x, 'g) lifecycle" where
  "supervise_turn session dl =
    (let (delay, l) = dl; (slept, next_delay) = backoff session delay
     in (slept, next_delay,
         case fst session of None \<Rightarrow> l | Some e \<Rightarrow> l\<lparr>lc_last_error := Some e\<rparr>))"

fun restart_delays :: "(lc_error option \<times> bool \<times> real) list \<Rightarrow> real \<Rightarrow> real list" where
  "restart_delays [] delay = []"
| "restart_delays (s # ss) delay =
    (let (slept, next_delay) = backoff s delay
     in (case slept of None \<Rightarrow> [] | Some d \<Rightarrow> [d]) @ restart_delays ss next_delay)"

subsection \<open>ProgramStateManager\<close>

record program_manager =
  pm_all :: "string list"
  pm_desired :: "(string, string) dict"
  pm_global :: bool
  pm_candidates :: "(string, string list) dict"
  pm_notified :: "string option list"

definition new_program_manager :: "string list \<Rightarrow> program_manager" where
  "new_program_manager ps = \<lparr>pm_all = dedup ps, pm_desired = [], pm_global = True, pm_candidates = [],
    pm_notified = []\<rparr>"

definition assign_controller :: "string \<Rightarrow> string \<Rightarrow> program_manager \<Rightarrow> program_manager" where
  "assign_controller p c m =
    (let cs = (case map_of (pm_candidates m) p of Some cs \<Rightarrow> cs | None \<Rightarrow> [])
     in m\<lparr>pm_candidates := dict_set p (if c \<in> set cs then cs else cs @ [c]) (pm_candidates m)\<rparr>)"

definition pm_notify :: "string option \<Rightarrow> program_manager \<Rightarrow> program_manager" where
  "pm_notify x m = m\<lparr>pm_notified := pm_notified m @ [x]\<rparr>"

definition pm_enable :: "string \<Rightarrow> program_manager \<Rightarrow> string + program_manager" where
  "pm_enable p m =
    (case map_of (pm_candidates m) p of
       Some (target # _) \<Rightarrow>
         (case map_of (pm_desired m) p of
            Some current \<Rightarrow>
              if current \<noteq> [] \<and> current \<noteq> target then Inl (''Program '' @ p @ '' already enabled for '' @ current)
              else if current = target then Inr m
              else Inr (pm_notify (Some p) (m\<lparr>pm_desired := dict_set p target (pm_desired m)\<rparr>))
          | None \<Rightarrow> Inr (pm_notify (Some p) (m\<lparr>pm_desired := dict_set p target (pm_desired m)\<rparr>)))
     | _ \<Rightarrow> Inr m)"

definition pm_disable :: "string \<Rightarrow> program_manager \<Rightarrow> program_manager" where
  "pm_disable p m =
    (case map_of (pm_desired m) p of
       Some _ \<Rightarrow> pm_notify (Some p) (m\<lparr>pm_desired := filter (\<lambda>(q, c). q \<noteq> p) (pm_desired m)\<rparr>)
     | None \<Rightarrow> m)"

definition global_enable :: "program_manager \<Rightarrow> program_manager" where
  "global_enable m = (if \<not> pm_global m then pm_notify None (m\<lparr>pm_global := True\<rparr>) else m)"

definition global_disable :: "program_manager \<Rightarrow> program_manager" where
  "global_disable m = (if pm_global m then pm_notify None (m\<lparr>pm_global := False\<rparr>) else m)"

definition pm_is_enabled :: "program_manager \<Rightarrow> string \<Rightarrow> bool" where
  "pm_is_enabled m p \<longleftrightarrow> pm_global m \<and> map_of (pm_desired m) p \<noteq> None"

definition target_controller :: "program_manager \<Rightarrow> string \<Rightarrow> string option" where
  "target_controller m p = (if \<not> pm_global m then None else map_of (pm_desired m) p)"

definition enabled_programs :: "program_manager \<Rightarrow> string list" where
  "enabled_programs m = (if pm_global m then dict_keys (pm_desired m) else [])"

text \<open>What \<open>\_handle\_program\<close> sends, given the program's stored enable state.\<close>

datatype program_command = EnableFor string | DisableProgram | NoCommand

definition handle_program :: "bool \<Rightarrow> string option \<Rightarrow> string \<Rightarrow> program_manager \<Rightarrow> program_command" where
  "handle_program enabled controller p m =
    (case target_controller m p of
       Some t \<Rightarrow>
         if t \<noteq> [] then (if \<not> enabled \<or> controller \<noteq> Some t then EnableFor t else NoCommand)
         else if enabled then DisableProgram else NoCommand
     | None \<Rightarrow> if enabled then DisableProgram else NoCommand)"

fun watch_discovery :: "string list \<Rightarrow> string list \<Rightarrow> program_manager \<Rightarrow> string list" where
  "watch_discovery previous found m =
    filter (\<lambda>p. p \<in> set (pm_all m))
      (filter (\<lambda>p. p \<notin> set previous) found @ filter (\<lambda>p. p \<notin> set found) previous)"

subsection \<open>ControllerDriver\<close>

text \<open>The scheduled intent: a mode and its program candidates in priority order.\<close>

record intent =
  in_mode :: string
  in_programs :: "string list"

record 'x driver =
  dr_name :: string
  dr_startup :: real
  dr_mode_state :: "string \<Rightarrow> string option"
  dr_contexts :: "(string option, 'x) dict"
  dr_interrupts :: "(string, bool) dict"

text \<open>\<open>intent\_at\<close> is the schedule's intent at a time, \<open>constrained\<close> what its constraints say.\<close>

definition driver_votes ::
  "real \<Rightarrow> (real \<Rightarrow> intent option) \<Rightarrow> bool \<Rightarrow> 'x driver \<Rightarrow> (string, string) election \<Rightarrow> (string, string) election" where
  "driver_votes now intent_at constrained d el =
    (let it = intent_at now;
         it = (if it = None \<and> dr_startup d \<noteq> 0 then intent_at (now + dr_startup d) else it)
     in vote ''constraint'' (dr_name d) (if constrained then Some False else None)
          (vote ''schedule'' (dr_name d) (if it \<noteq> None then Some True else None) el))"

definition demanded_state ::
  "intent option \<Rightarrow> bool \<Rightarrow> 'x driver \<Rightarrow> string + ctl_state \<times> string option" where
  "demanded_state it operate d =
    (if \<not> operate then Inr (SHUTDOWN, None)
     else case it of
         None \<Rightarrow> Inr (OPERATE, None)
       | Some i \<Rightarrow>
          (case dr_mode_state d (in_mode i) of
             None \<Rightarrow> Inl ''KeyError''
           | Some s \<Rightarrow>
              if s = ''operate'' then Inr (OPERATE, case in_programs i of [] \<Rightarrow> None | p # _ \<Rightarrow> Some p)
              else if s = ''standby'' then Inr (STANDBY, None)
              else Inr (SHUTDOWN, None)))"

definition driver_demand ::
  "intent option \<Rightarrow> bool \<Rightarrow> bool \<Rightarrow> 'x driver \<Rightarrow> string + ('x, string) demand" where
  "driver_demand it constrained operate d =
    rbind (demanded_state it operate d) (\<lambda>(st, prog).
      let st = (if constrained then SHUTDOWN else st);
          prog = (if constrained then None else prog)
      in rbind (case map_of (dr_contexts d) None of None \<Rightarrow> Inl ''KeyError'' | Some x \<Rightarrow> Inr x) (\<lambda>base.
         rbind (case prog of
             None \<Rightarrow> Inr (base, False)
           | Some p \<Rightarrow>
              (case (map_of (dr_interrupts d) p, map_of (dr_contexts d) (Some p)) of
                 (Some i, Some x) \<Rightarrow> Inr (x, i)
               | _ \<Rightarrow> Inl ''KeyError'')) (\<lambda>(ctx, prog_interrupt).
         Inr \<lparr>d_state = Some st, d_contexts = Some ctx, d_program = prog, d_interrupt = constrained,
              d_program_interrupt = prog_interrupt\<rparr>)))"

definition set_demand ::
  "intent option \<Rightarrow> bool \<Rightarrow> bool \<Rightarrow> 'x driver \<Rightarrow> ('x, string) lifecycle
    \<Rightarrow> string + bool \<times> ('x, string) lifecycle" where
  "set_demand it constrained operate d l =
    rbind (driver_demand it constrained operate d) (\<lambda>dem. set_demand_state dem l)"

subsection \<open>The operator's round\<close>

record 'x driven =
  dv_driver :: "'x driver"
  dv_intent_at :: "real \<Rightarrow> intent option"
  dv_constrained :: bool

definition cast_votes ::
  "real \<Rightarrow> 'x driven list \<Rightarrow> (string, string) election \<Rightarrow> (string, string) election" where
  "cast_votes now ds el =
    fold (\<lambda>v. driver_votes now (dv_intent_at v) (dv_constrained v) (dv_driver v)) ds el"

text \<open>The demand of each driver: elected, or down by default.\<close>

definition elected :: "string ballot \<Rightarrow> 'x driven \<Rightarrow> bool" where
  "elected out v = (case map_of out (dr_name (dv_driver v)) of Some b \<Rightarrow> b | None \<Rightarrow> False)"

definition operator_round ::
  "nat \<Rightarrow> real \<Rightarrow> 'x driven list \<Rightarrow> (string, string) election
    \<Rightarrow> (string \<times> (string + ('x, string) demand)) list option" where
  "operator_round fuel now ds el =
    (case elect fuel (cast_votes now ds el) of
       None \<Rightarrow> None
     | Some out \<Rightarrow> Some (map (\<lambda>v. (dr_name (dv_driver v),
         driver_demand (dv_intent_at v now) (dv_constrained v) (elected out v) (dv_driver v))) ds))"

subsection \<open>Agent state (core/src/sensorkit/auto/agent.py)\<close>

record controller_info =
  ci_enabled :: bool
  ci_elected :: "bool option"
  ci_override :: "bool option"

definition default_info :: controller_info where
  "default_info = \<lparr>ci_enabled = True, ci_elected = None, ci_override = None\<rparr>"

record operating_state =
  ag_global :: bool
  ag_controllers :: "(string, controller_info) dict"

record configure_request =
  rq_global :: "bool option"
  rq_enabled :: "(string, bool) dict"
  rq_override :: "(string, bool option) dict"
  rq_scheduling :: "bool option"
  rq_add :: "string set"
  rq_remove :: "string set"

record 's scheduler_state =
  sc_enabled :: bool
  sc_excluded :: "string set"
  sc_schedule :: "(string, 's) dict"

definition get_or :: "('k, 'v) dict \<Rightarrow> 'k \<Rightarrow> 'v \<Rightarrow> 'v" where
  "get_or d k v = (case map_of d k of Some w \<Rightarrow> w | None \<Rightarrow> v)"

definition derive_for_request :: "configure_request \<Rightarrow> operating_state \<Rightarrow> operating_state" where
  "derive_for_request q s =
    \<lparr>ag_global = (case rq_global q of Some b \<Rightarrow> b | None \<Rightarrow> ag_global s),
     ag_controllers = map (\<lambda>(name, info). (name,
       \<lparr>ci_enabled = get_or (rq_enabled q) name (ci_enabled info),
        ci_elected = ci_elected info,
        ci_override = get_or (rq_override q) name (ci_override info)\<rparr>)) (ag_controllers s)\<rparr>"

definition derive_for_status :: "string ballot \<Rightarrow> operating_state \<Rightarrow> operating_state" where
  "derive_for_status votes s =
    s\<lparr>ag_controllers := map (\<lambda>(name, info). (name, info\<lparr>ci_elected := map_of votes name\<rparr>)) (ag_controllers s)\<rparr>"

definition derive_for_config_change :: "string list \<Rightarrow> operating_state \<Rightarrow> operating_state option" where
  "derive_for_config_change configs s =
    (if set (dict_keys (ag_controllers s)) = set configs then None
     else
       let kept = filter (\<lambda>(name, info). name \<in> set configs) (ag_controllers s)
       in Some (s\<lparr>ag_controllers :=
            fold (\<lambda>name d. if map_of d name \<noteq> None then d else dict_set name default_info d) configs kept\<rparr>))"

definition scheduler_for_request :: "configure_request \<Rightarrow> 's scheduler_state \<Rightarrow> 's scheduler_state" where
  "scheduler_for_request q s =
    \<lparr>sc_enabled = (case rq_scheduling q of Some b \<Rightarrow> b | None \<Rightarrow> sc_enabled s),
     sc_excluded = (sc_excluded s \<union> rq_add q) - rq_remove q,
     sc_schedule = sc_schedule s\<rparr>"

definition scheduler_for_status :: "(string, 's) dict \<Rightarrow> 's scheduler_state \<Rightarrow> 's scheduler_state" where
  "scheduler_for_status sched s = s\<lparr>sc_schedule := sched\<rparr>"

text \<open>\<open>apply\_to\_operator\<close>: the program gates, then each controller's override vote and lifecycle.\<close>

record 'x operator_state =
  op_programs :: program_manager
  op_election :: "(string, string) election"
  op_lifecycles :: "(string, ('x, string) lifecycle) dict"

fun apply_programs :: "string set \<Rightarrow> string list \<Rightarrow> program_manager \<Rightarrow> string + program_manager" where
  "apply_programs excluded [] m = Inr m"
| "apply_programs excluded (p # ps) m =
    rbind (if p \<in> excluded then Inr (pm_disable p m) else pm_enable p m) (apply_programs excluded ps)"

definition apply_controller ::
  "operating_state \<Rightarrow> string \<Rightarrow> 'x operator_state \<Rightarrow> string + 'x operator_state" where
  "apply_controller s c op =
    (let info = map_of (ag_controllers s) c;
         op = (case info of
             Some i \<Rightarrow> op\<lparr>op_election := vote ''override'' c (ci_override i) (op_election op)\<rparr>
           | None \<Rightarrow> op)
     in case map_of (op_lifecycles op) c of
          None \<Rightarrow> Inl ''KeyError''
        | Some l \<Rightarrow>
           Inr (op\<lparr>op_lifecycles := dict_set c
             (if ag_global s \<and> (case info of None \<Rightarrow> True | Some i \<Rightarrow> ci_enabled i)
              then lc_enable l else lc_disable l) (op_lifecycles op)\<rparr>))"

definition apply_to_operator ::
  "operating_state \<Rightarrow> 's scheduler_state \<Rightarrow> string list \<Rightarrow> 'x operator_state \<Rightarrow> string + 'x operator_state" where
  "apply_to_operator s sched configs op =
    rbind (apply_programs (sc_excluded sched) (pm_all (op_programs op))
        (if sc_enabled sched then global_enable (op_programs op) else global_disable (op_programs op)))
      (\<lambda>m. rfold (apply_controller s) configs (op\<lparr>op_programs := m\<rparr>))"

subsection \<open>Properties\<close>

lemma backoff_range:
  assumes "restart_delay \<le> delay" and "delay \<le> restart_delay_max"
  shows "restart_delay \<le> snd (backoff s delay) \<and> snd (backoff s delay) \<le> restart_delay_max
    \<and> (case fst (backoff s delay) of None \<Rightarrow> True | Some d \<Rightarrow> restart_delay \<le> d \<and> d \<le> restart_delay_max)"
  using assms
  by (auto simp: backoff_def restart_delay_def restart_delay_max_def Let_def split: prod.splits option.splits)

text \<open>Restart delays stay between the first and the longest delay in every sequence of sessions,
  start over at the first after a session that achieved something or ran long, and double, capped,
  while sessions keep failing early.\<close>

theorem restart_delays_bounded:
  "(\<forall>d\<in>set (restart_delays ss restart_delay). restart_delay \<le> d \<and> d \<le> restart_delay_max)
   \<and> restart_delays (replicate n (Some e, False, 0)) restart_delay
      = map (\<lambda>k. min (2 ^ k) restart_delay_max) [0..<n]"
proof
  have all: "\<forall>d\<in>set (restart_delays ss delay). restart_delay \<le> d \<and> d \<le> restart_delay_max"
    if "restart_delay \<le> delay" "delay \<le> restart_delay_max" for delay
    using that
  proof (induction ss arbitrary: delay)
    case (Cons s ss)
    note B = backoff_range [OF Cons.prems, of s]
    obtain slept nxt where b: "backoff s delay = (slept, nxt)" by fastforce
    then have "\<forall>d\<in>set (restart_delays ss nxt). restart_delay \<le> d \<and> d \<le> restart_delay_max"
      using B by (intro Cons.IH) simp_all
    then show ?case using B b by (cases slept) (auto simp: Let_def)
  qed simp
  show "\<forall>d\<in>set (restart_delays ss restart_delay). restart_delay \<le> d \<and> d \<le> restart_delay_max"
    by (rule all) (simp_all add: restart_delay_def restart_delay_max_def)
next
  have step: "backoff (Some e, False, 0) (min x restart_delay_max) =
      (Some (min x restart_delay_max), min (2 * x) restart_delay_max)" if "1 \<le> x" for x
    using that by (auto simp: backoff_def restart_delay_max_def restart_delay_def Let_def min_def)
  have "restart_delays (replicate n (Some e, False, 0)) (min (2 ^ k) restart_delay_max)
      = map (\<lambda>j. min (2 ^ j) restart_delay_max) [k..<k + n]" for k
  proof (induction n arbitrary: k)
    case (Suc n)
    have "restart_delays (replicate (Suc n) (Some e, False, 0)) (min (2 ^ k) restart_delay_max)
        = min (2 ^ k) restart_delay_max # restart_delays (replicate n (Some e, False, 0)) (min (2 ^ Suc k) restart_delay_max)"
      by (simp add: step)
    also have "\<dots> = min (2 ^ k) restart_delay_max # map (\<lambda>j. min (2 ^ j) restart_delay_max) [Suc k..<Suc k + n]"
      by (simp only: Suc.IH)
    also have "\<dots> = map (\<lambda>j. min (2 ^ j) restart_delay_max) [k..<k + Suc n]"
      by (simp add: upt_rec [of k])
    finally show ?case .
  qed simp
  from this [of 0]
  show "restart_delays (replicate n (Some e, False, 0)) restart_delay
      = map (\<lambda>k. min (2 ^ k) restart_delay_max) [0..<n]"
    by (simp add: restart_delay_def restart_delay_max_def)
qed

theorem restart_delays_bounded_witness:
  "restart_delays [(Some ControllerOffline, False, 0), (Some ControllerOffline, False, 0)] restart_delay = [1, 2]"
proof -
  have "[(Some ControllerOffline, False, 0::real), (Some ControllerOffline, False, 0)] = replicate 2 (Some ControllerOffline, False, 0)"
    by (simp add: numeral_2_eq_2)
  moreover have "restart_delays (replicate 2 (Some ControllerOffline, False, 0)) restart_delay
      = map (\<lambda>k. min (2 ^ k) restart_delay_max) [0..<2]"
    using restart_delays_bounded [of "[]" 2 ControllerOffline] by (rule conjunct2)
  ultimately show ?thesis by (simp add: restart_delay_max_def upt_rec)
qed

text \<open>A program that is excluded or globally gated is never driven for a controller: after
  applying an agent state, programs are enabled exactly when scheduling is on, they are not
  excluded and have a candidate controller, and an enabled one targets its first candidate.\<close>

definition pm_targets_first :: "program_manager \<Rightarrow> bool" where
  "pm_targets_first m \<longleftrightarrow> (\<forall>p t. map_of (pm_desired m) p = Some t
    \<longrightarrow> (\<exists>cs. map_of (pm_candidates m) p = Some (t # cs)))"

lemma pm_targets_first_assign:
  "pm_targets_first m \<Longrightarrow> pm_targets_first (assign_controller p c m)"
  unfolding pm_targets_first_def
proof (intro allI impI)
  fix q t
  assume inv: "\<forall>p t. map_of (pm_desired m) p = Some t \<longrightarrow> (\<exists>cs. map_of (pm_candidates m) p = Some (t # cs))"
    and "map_of (pm_desired (assign_controller p c m)) q = Some t"
  then have "map_of (pm_desired m) q = Some t" by (simp add: assign_controller_def Let_def)
  then obtain cs where "map_of (pm_candidates m) q = Some (t # cs)" using inv by blast
  then show "\<exists>cs. map_of (pm_candidates (assign_controller p c m)) q = Some (t # cs)"
    by (cases "q = p") (auto simp: assign_controller_def Let_def)
qed

lemma pm_enable_first:
  assumes "pm_targets_first m"
  shows "\<exists>m'. pm_enable p m = Inr m' \<and> pm_targets_first m' \<and> pm_candidates m' = pm_candidates m
    \<and> pm_global m' = pm_global m
    \<and> map_of (pm_desired m') = (map_of (pm_desired m))(p :=
        (case map_of (pm_candidates m) p of Some (t # _) \<Rightarrow> Some t | _ \<Rightarrow> map_of (pm_desired m) p))"
proof (cases "map_of (pm_candidates m) p")
  case None
  then show ?thesis using assms by (simp add: pm_enable_def)
next
  case (Some cs)
  show ?thesis
  proof (cases cs)
    case Nil
    then show ?thesis using assms Some by (simp add: pm_enable_def)
  next
    case (Cons t ts)
    show ?thesis
    proof (cases "map_of (pm_desired m) p")
      case None
      then show ?thesis
        using assms Some Cons by (auto simp: pm_enable_def pm_notify_def pm_targets_first_def)
    next
      case cur: (Some u)
      then have "u = t" using assms Some Cons unfolding pm_targets_first_def by fastforce
      then show ?thesis using assms Some Cons cur by (simp add: pm_enable_def fun_upd_idem)
    qed
  qed
qed

lemma map_of_remove: "map_of (filter (\<lambda>(q, c). q \<noteq> p) d) = (map_of d)(p := None)"
  by (induction d) (auto simp: fun_eq_iff)

lemma pm_disable_first:
  assumes "pm_targets_first m"
  shows "pm_targets_first (pm_disable p m) \<and> pm_candidates (pm_disable p m) = pm_candidates m
    \<and> pm_global (pm_disable p m) = pm_global m
    \<and> map_of (pm_desired (pm_disable p m)) = (map_of (pm_desired m))(p := None)"
proof (cases "map_of (pm_desired m) p")
  case None
  then show ?thesis using assms by (simp add: pm_disable_def fun_upd_idem)
next
  case (Some t)
  then show ?thesis
    using assms by (auto simp: pm_disable_def pm_notify_def pm_targets_first_def map_of_remove)
qed

lemma apply_programs_desired:
  "pm_targets_first m \<Longrightarrow> \<exists>m'. apply_programs excluded ps m = Inr m' \<and> pm_targets_first m'
    \<and> pm_candidates m' = pm_candidates m \<and> pm_global m' = pm_global m
    \<and> (\<forall>p. map_of (pm_desired m') p =
        (if p \<notin> set ps then map_of (pm_desired m) p
         else if p \<in> excluded then None
         else case map_of (pm_candidates m) p of Some (t # _) \<Rightarrow> Some t | _ \<Rightarrow> map_of (pm_desired m) p))"
proof (induction ps arbitrary: m)
  case (Cons p ps)
  define m\<^sub>1 where "m\<^sub>1 = (if p \<in> excluded then pm_disable p m else (case pm_enable p m of Inr x \<Rightarrow> x | Inl _ \<Rightarrow> m))"
  note E = pm_enable_first [OF Cons.prems, of p]
  note D = pm_disable_first [OF Cons.prems, of p]
  have step: "apply_programs excluded (p # ps) m = apply_programs excluded ps m\<^sub>1"
    using E by (auto simp: m\<^sub>1_def)
  have m1: "pm_targets_first m\<^sub>1" "pm_candidates m\<^sub>1 = pm_candidates m" "pm_global m\<^sub>1 = pm_global m"
    and upd: "map_of (pm_desired m\<^sub>1) = (map_of (pm_desired m))(p :=
      if p \<in> excluded then None
      else case map_of (pm_candidates m) p of Some (t # _) \<Rightarrow> Some t | _ \<Rightarrow> map_of (pm_desired m) p)"
    using E D by (auto simp: m\<^sub>1_def)
  obtain m' where m': "apply_programs excluded ps m\<^sub>1 = Inr m'" "pm_targets_first m'"
    "pm_candidates m' = pm_candidates m" "pm_global m' = pm_global m"
    and des: "\<And>q. map_of (pm_desired m') q =
        (if q \<notin> set ps then map_of (pm_desired m\<^sub>1) q
         else if q \<in> excluded then None
         else case map_of (pm_candidates m) q of Some (t # _) \<Rightarrow> Some t | _ \<Rightarrow> map_of (pm_desired m\<^sub>1) q)"
    using Cons.IH [OF m1(1)] unfolding m1(2,3) by blast
  have "map_of (pm_desired m') q =
        (if q \<notin> set (p # ps) then map_of (pm_desired m) q
         else if q \<in> excluded then None
         else case map_of (pm_candidates m) q of Some (t # _) \<Rightarrow> Some t | _ \<Rightarrow> map_of (pm_desired m) q)" for q
    unfolding des upd by (cases "q = p") (auto split: option.split list.split)
  then show ?case unfolding step using m' by blast
qed simp

text \<open>Applying an agent state never fails on the program manager, and afterwards a program is
  driven for a controller exactly when scheduling is on, it is not excluded and it has a
  candidate; the controller is then its first candidate.\<close>

theorem programs_gated:
  assumes "pm_targets_first m" and "\<And>p. map_of (pm_desired m) p \<noteq> None \<Longrightarrow> p \<in> set ps"
  shows "\<exists>m'. apply_programs excluded ps (if on then global_enable m else global_disable m) = Inr m'
    \<and> (\<forall>p\<in>set ps. target_controller m' p =
        (if on \<and> p \<notin> excluded then (case map_of (pm_candidates m) p of Some (t # _) \<Rightarrow> Some t | _ \<Rightarrow> None) else None))"
proof -
  let ?m = "if on then global_enable m else global_disable m"
  have same: "pm_desired ?m = pm_desired m" "pm_candidates ?m = pm_candidates m" "pm_global ?m = on"
    by (auto simp: global_enable_def global_disable_def pm_notify_def)
  have "pm_targets_first ?m" using assms(1) same unfolding pm_targets_first_def by simp
  from apply_programs_desired [OF this, of excluded ps]
  obtain m' where m': "apply_programs excluded ps ?m = Inr m'" and g: "pm_global m' = on"
    and des: "\<And>p. map_of (pm_desired m') p = (if p \<notin> set ps then map_of (pm_desired m) p
         else if p \<in> excluded then None
         else case map_of (pm_candidates m) p of Some (t # _) \<Rightarrow> Some t | _ \<Rightarrow> map_of (pm_desired m) p)"
    unfolding same by blast
  have none: "map_of (pm_desired m) p = None"
    if "map_of (pm_candidates m) p = None \<or> map_of (pm_candidates m) p = Some []" for p
  proof (cases "map_of (pm_desired m) p")
    case (Some t)
    then obtain cs where "map_of (pm_candidates m) p = Some (t # cs)"
      using assms(1) unfolding pm_targets_first_def by blast
    with that show ?thesis by simp
  qed
  have "target_controller m' p =
        (if on \<and> p \<notin> excluded then (case map_of (pm_candidates m) p of Some (t # _) \<Rightarrow> Some t | _ \<Rightarrow> None) else None)"
    if "p \<in> set ps" for p
    using that none [of p] g unfolding target_controller_def des by (auto split: option.split list.split)
  then show ?thesis using m' by blast
qed

text \<open>What a driver demands: shutdown without a program and with interruption whenever its
  constraints are active or it was not elected; a program only while operating, and then the
  scheduler's first candidate.\<close>

theorem driver_demand_safe:
  assumes "driver_demand it constrained operate d = Inr dem"
  shows "(constrained \<or> \<not> operate \<longrightarrow> d_state dem = Some SHUTDOWN \<and> d_program dem = None)
    \<and> d_interrupt dem = constrained
    \<and> d_state dem \<in> {Some OPERATE, Some STANDBY, Some SHUTDOWN}
    \<and> (\<forall>p. d_program dem = Some p \<longrightarrow> d_state dem = Some OPERATE
        \<and> (\<exists>i ps. it = Some i \<and> in_programs i = p # ps \<and> dr_mode_state d (in_mode i) = Some ''operate''))"
proof -
  obtain st prog ctx i where dem: "demanded_state it operate d = Inr (st, prog)"
    and eq: "dem = \<lparr>d_state = Some (if constrained then SHUTDOWN else st), d_contexts = Some ctx,
      d_program = if constrained then None else prog, d_interrupt = constrained, d_program_interrupt = i\<rparr>"
    using assms by (auto simp: driver_demand_def rbind_Inr_iff Let_def)
  have "(\<not> operate \<longrightarrow> st = SHUTDOWN \<and> prog = None) \<and> st \<in> {OPERATE, STANDBY, SHUTDOWN}
    \<and> (\<forall>p. prog = Some p \<longrightarrow> st = OPERATE
      \<and> (\<exists>i ps. it = Some i \<and> in_programs i = p # ps \<and> dr_mode_state d (in_mode i) = Some ''operate''))"
    using dem by (auto simp: demanded_state_def split: if_splits option.splits list.splits)
  then show ?thesis unfolding eq by (cases constrained) auto
qed

lemma el_votes_vote: "el_votes (vote src x v el) s y = (if s = src \<and> y = x then v else el_votes el s y)"
  by (simp add: vote_def Let_def)

lemma el_graph_vote: "el_graph (vote src x v el) = el_graph el"
  by (simp add: vote_def Let_def)

lemma driver_votes_facts:
  "el_votes (driver_votes now f con d el) ''constraint'' x
    = (if x = dr_name d then if con then Some False else None else el_votes el ''constraint'' x)"
  "el_graph (driver_votes now f con d el) = el_graph el"
  "tally_ok el \<Longrightarrow> tally_ok (driver_votes now f con d el)"
  by (simp_all add: driver_votes_def Let_def el_votes_vote el_graph_vote tally_ok_vote)

lemma cast_votes_facts:
  "el_graph (cast_votes now ds el) = el_graph el \<and> (tally_ok el \<longrightarrow> tally_ok (cast_votes now ds el))
    \<and> (distinct (map (\<lambda>v. dr_name (dv_driver v)) ds) \<longrightarrow>
        (\<forall>v\<in>set ds. el_votes (cast_votes now ds el) ''constraint'' (dr_name (dv_driver v))
          = (if dv_constrained v then Some False else None)))"
proof (induction ds rule: rev_induct)
  case (snoc d ds)
  have "cast_votes now (ds @ [d]) el = driver_votes now (dv_intent_at d) (dv_constrained d) (dv_driver d) (cast_votes now ds el)"
    by (simp add: cast_votes_def)
  note eq = this
  show ?case
  proof (intro conjI impI ballI)
    show "el_graph (cast_votes now (ds @ [d]) el) = el_graph el"
      unfolding eq using snoc by (simp add: driver_votes_facts)
    show "tally_ok (cast_votes now (ds @ [d]) el)" if "tally_ok el"
      unfolding eq using snoc that by (simp add: driver_votes_facts)
    fix v assume dist: "distinct (map (\<lambda>v. dr_name (dv_driver v)) (ds @ [d]))" and v: "v \<in> set (ds @ [d])"
    show "el_votes (cast_votes now (ds @ [d]) el) ''constraint'' (dr_name (dv_driver v))
        = (if dv_constrained v then Some False else None)"
    proof (cases "v = d")
      case True
      then show ?thesis unfolding eq by (simp add: driver_votes_facts)
    next
      case False
      then have "v \<in> set ds" using v by simp
      moreover from this have "dr_name (dv_driver v) \<noteq> dr_name (dv_driver d)"
        using dist by (auto simp: image_iff)
      ultimately show ?thesis unfolding eq using snoc dist by (simp add: driver_votes_facts)
    qed
  qed
qed (simp add: cast_votes_def)

lemma held_down_transitive:
  assumes "held_down el c" and "(s, c) \<in> {(s, d). d \<in> set (subject_deps el s)}\<^sup>*"
  shows "held_down el s"
  using assms(2,1)
  by (induction rule: converse_rtrancl_induct) (auto intro: held_down.dependency)


lemma add_defaults_lookup:
  "map_of (fold (\<lambda>name d. if map_of d name \<noteq> None then d else dict_set name v d) names d) x =
    (case map_of d x of Some i \<Rightarrow> Some i | None \<Rightarrow> if x \<in> set names then Some v else None)"
proof (induction names arbitrary: d)
  case (Cons n ns)
  show ?case
  proof (cases "map_of d n")
    case (Some i)
    then show ?thesis using Cons [of d] by (auto split: option.split)
  next
    case None
    then show ?thesis using Cons [of "dict_set n v d"] by (auto split: option.split)
  qed
qed (simp split: option.split)

lemma map_of_kept: "map_of (filter (\<lambda>(k, v). k \<in> K) d) x = (if x \<in> K then map_of d x else None)"
  by (induction d) auto

text \<open>Reconciling the persisted agent state with the configuration: nothing changes when the
  controllers are the configured ones; otherwise exactly the configured controllers remain, those
  known keep their gate, elected state and override, and new ones start enabled without any.\<close>

theorem config_change_reconciles:
  "(derive_for_config_change configs s = None) = (set (dict_keys (ag_controllers s)) = set configs)
   \<and> (\<forall>t. derive_for_config_change configs s = Some t \<longrightarrow> ag_global t = ag_global s
      \<and> (\<forall>c. map_of (ag_controllers t) c =
          (if c \<notin> set configs then None
           else case map_of (ag_controllers s) c of Some i \<Rightarrow> Some i | None \<Rightarrow> Some default_info)))"
proof (intro conjI allI impI)
  show "(derive_for_config_change configs s = None) = (set (dict_keys (ag_controllers s)) = set configs)"
    by (simp add: derive_for_config_change_def Let_def)
next
  fix t assume "derive_for_config_change configs s = Some t"
  then have t: "t = s\<lparr>ag_controllers := fold (\<lambda>name d. if map_of d name \<noteq> None then d else dict_set name default_info d)
      configs (filter (\<lambda>(name, info). name \<in> set configs) (ag_controllers s))\<rparr>"
    unfolding derive_for_config_change_def Let_def by (simp split: if_splits)
  show "ag_global t = ag_global s" unfolding t by simp
  show "map_of (ag_controllers t) c = (if c \<notin> set configs then None
      else case map_of (ag_controllers s) c of Some i \<Rightarrow> Some i | None \<Rightarrow> Some default_info)" for c
  proof -
    have sel: "ag_controllers t = fold (\<lambda>name d. if map_of d name \<noteq> None then d else dict_set name default_info d)
        configs (filter (\<lambda>(name, info). name \<in> set configs) (ag_controllers s))"
      unfolding t by simp
    show ?thesis unfolding sel add_defaults_lookup map_of_kept by (auto split: option.split)
  qed
qed

definition persisted_state :: operating_state where
  "persisted_state = \<lparr>ag_global = True,
    ag_controllers = [(''a'', default_info\<lparr>ci_enabled := False\<rparr>), (''z'', default_info)]\<rparr>"

theorem config_change_reconciles_witness:
  "\<exists>t. derive_for_config_change [''a'', ''b''] persisted_state = Some t
    \<and> map_of (ag_controllers t) ''a'' = Some (default_info\<lparr>ci_enabled := False\<rparr>)"
proof -
  have "derive_for_config_change [''a'', ''b''] persisted_state \<noteq> None"
  proof -
    have "''z'' \<in> set (dict_keys (ag_controllers persisted_state))" and "''z'' \<notin> set [''a'', ''b'']"
      by (simp_all add: persisted_state_def)
    then have "set (dict_keys (ag_controllers persisted_state)) \<noteq> set [''a'', ''b'']" by metis
    with conjunct1 [OF config_change_reconciles [of "[''a'', ''b'']" persisted_state]]
    show ?thesis by blast
  qed
  then obtain t where t: "derive_for_config_change [''a'', ''b''] persisted_state = Some t" by blast
  note R = conjunct2 [OF conjunct2 [OF config_change_reconciles, rule_format, OF t]]
  have "map_of (ag_controllers t) ''a'' = Some (default_info\<lparr>ci_enabled := False\<rparr>)"
    unfolding spec [OF R, of "''a''"] by (simp add: persisted_state_def)
  with t show ?thesis by blast
qed

subsection \<open>A concrete operator\<close>

definition demo_driver :: "string \<Rightarrow> unit driver" where
  "demo_driver n = \<lparr>dr_name = n, dr_startup = 0, dr_mode_state = (\<lambda>_. Some ''operate''),
    dr_contexts = [(None, ())], dr_interrupts = []\<rparr>"

definition demo_drivens :: "unit driven list" where
  "demo_drivens = [
    \<lparr>dv_driver = demo_driver ''camera'', dv_intent_at = (\<lambda>_. Some \<lparr>in_mode = ''m'', in_programs = []\<rparr>), dv_constrained = False\<rparr>,
    \<lparr>dv_driver = demo_driver ''mount'', dv_intent_at = (\<lambda>_. None), dv_constrained = True\<rparr>]"

definition demo_manager :: program_manager where
  "demo_manager = assign_controller ''p'' ''camera'' (new_program_manager [''p''])"

theorem programs_gated_witness:
  "\<exists>m'. apply_programs {} [''p''] (global_enable demo_manager) = Inr m' \<and> target_controller m' ''p'' = Some ''camera''"
proof -
  have "pm_targets_first demo_manager" and "\<And>p. map_of (pm_desired demo_manager) p \<noteq> None \<Longrightarrow> p \<in> set [''p'']"
    by (simp_all add: demo_manager_def pm_targets_first_def assign_controller_def new_program_manager_def)
  from programs_gated [OF this, of "{}" True] show ?thesis
    by (simp add: demo_manager_def assign_controller_def new_program_manager_def)
qed

theorem driver_demand_safe_witness:
  "d_state (case driver_demand (Some \<lparr>in_mode = ''m'', in_programs = []\<rparr>) True True (demo_driver ''camera'') of
      Inr d \<Rightarrow> d | Inl _ \<Rightarrow> no_demand) = Some SHUTDOWN"
proof -
  obtain dem where dem: "driver_demand (Some \<lparr>in_mode = ''m'', in_programs = []\<rparr>) True True (demo_driver ''camera'') = Inr dem"
    by (auto simp: driver_demand_def demanded_state_def demo_driver_def)
  from driver_demand_safe [OF this] dem show ?thesis by simp
qed


end
