(* ===== verification/Auto_Schedule.thy ===== *)
theory Auto_Schedule
  imports Common_Interval Auto_Operator
begin

section \<open>Operating modes and the scheduler (core/src/sensorkit/auto: mode.py, scheduler.py)\<close>

text \<open>
  A mode holds while all its criteria do; the scheduler stacks the modes, combines the windows
  the enabled programs offer, and stamps these onto the modes.  Times are seconds.

  \<open>parse_time_range\<close> and \<open>parse_time_delta\<close> (common/time.py, over dateutil and the site's
  symbol handlers) are parameters, collected in \<open>parsers\<close>.  The trees come from
  \<open>interval_tree\<close>: one with the intents of the schedule, one with the program tuples of the
  combined offers, one without data for the criteria; \<open>merge_overlaps\<close> of the last is described
  by \<open>merging\<close>.
\<close>

subsection \<open>Modes and criteria\<close>

datatype mode_state = OperateMode | StandbyMode

datatype criterion =
    TimeRangeCriterion string string
  | TaskingAvailableCriterion "string option"
  | AfterActivityCriterion string

record mode =
  md_name :: string
  md_state :: mode_state
  md_criteria :: "criterion list"

datatype schedule_error =
    TimeRangeError
  | IntervalFailure interval_error
  | OtherFailure string
  | UnknownProgram string
  | AmbiguousIntent

record parsers =
  parse_time_range :: "string \<Rightarrow> string \<Rightarrow> real \<Rightarrow> schedule_error + real \<times> real"
  parse_time_delta :: "string \<Rightarrow> schedule_error + real"

type_synonym offers = "(real \<times> real \<times> string list) list"

record mode_context =
  mc_time_ref :: real
  mc_previous_combined :: offers
  mc_offer_history :: offers

definition DAILY_PERIOD :: real where
  "DAILY_PERIOD = 86400"

definition time_range_intervals :: "parsers \<Rightarrow> string \<Rightarrow> string \<Rightarrow> real \<Rightarrow> schedule_error + (real \<times> real) list" where
  "time_range_intervals ps s e time_ref =
    rbind (parse_time_range ps s e time_ref) (\<lambda>(start, fin).
      if time_ref + DAILY_PERIOD \<le> fin then Inr [(start, fin)]
      else case parse_time_range ps s e (start + DAILY_PERIOD) of
             Inl TimeRangeError \<Rightarrow> Inr [(start, fin)]
           | Inl err \<Rightarrow> Inl err
           | Inr (next_start, next_end) \<Rightarrow>
               if next_end = fin
               then Inr [(start, fin), (next_start + DAILY_PERIOD, next_end + DAILY_PERIOD)]
               else Inr [(start, fin), (next_start, next_end)])"

abbreviation bounds_of :: "('t \<times> 't \<times> 'd) list \<Rightarrow> ('t \<times> 't) list" where
  "bounds_of ivs \<equiv> map (\<lambda>(b, e, d). (b, e)) ivs"

fun criterion_evaluate :: "parsers \<Rightarrow> mode_context \<Rightarrow> criterion \<Rightarrow> schedule_error + (real \<times> real) list" where
  "criterion_evaluate ps ctx (TimeRangeCriterion s e) = time_range_intervals ps s e (mc_time_ref ctx)"
| "criterion_evaluate ps ctx (TaskingAvailableCriterion from_program) =
    (if mc_previous_combined ctx \<noteq> []
     then Inr (bounds_of (case from_program of
            Some p \<Rightarrow> filter (\<lambda>(b, e, d). p \<in> set d) (mc_previous_combined ctx)
          | None \<Rightarrow> mc_previous_combined ctx))
     else Inr [])"
| "criterion_evaluate ps ctx (AfterActivityCriterion duration) =
    rbind (parse_time_delta ps duration) (\<lambda>dur.
      let offers = (if mc_offer_history ctx \<noteq> [] then mc_offer_history ctx else mc_previous_combined ctx)
      in if dur \<le> 0 \<and> offers \<noteq> [] then Inl (IntervalFailure NullInterval)
         else Inr (map (\<lambda>(b, e, d). (e, e + dur)) offers))"

definition lift_interval :: "interval_error + 'a \<Rightarrow> schedule_error + 'a" where
  "lift_interval r = (case r of Inl e \<Rightarrow> Inl (IntervalFailure e) | Inr a \<Rightarrow> Inr a)"

definition from_tuples :: "('t::linorder, unit, 'u) interval_tree \<Rightarrow> ('t \<times> 't) list \<Rightarrow> interval_error + 'u" where
  "from_tuples U ivs = rfold (\<lambda>(b, e). it_addi U b e ()) ivs (it_empty U)"

fun evaluate_criteria :: "(real, unit, 'u) interval_tree \<Rightarrow> ('u \<Rightarrow> 'u) \<Rightarrow> parsers \<Rightarrow> mode_context
    \<Rightarrow> criterion list \<Rightarrow> (real \<times> real) list list \<Rightarrow> schedule_error + (real \<times> real) list" where
  "evaluate_criteria U merge_overlaps ps ctx [] trees =
    rbind (lift_interval (intersect_interval_trees U trees (it_empty U))) (\<lambda>t. Inr (bounds_of (it_items U t)))"
| "evaluate_criteria U merge_overlaps ps ctx (c # cs) trees =
    rbind (criterion_evaluate ps ctx c) (\<lambda>ivs.
    rbind (lift_interval (from_tuples U ivs)) (\<lambda>tree.
      if it_items U tree = [] then Inr []
      else evaluate_criteria U merge_overlaps ps ctx cs (trees @ [bounds_of (it_items U (merge_overlaps tree))])))"

definition mode_evaluate :: "(real, unit, 'u) interval_tree \<Rightarrow> ('u \<Rightarrow> 'u) \<Rightarrow> parsers \<Rightarrow> mode_context
    \<Rightarrow> mode \<Rightarrow> schedule_error + (real \<times> real) list" where
  "mode_evaluate U merge_overlaps ps ctx m = evaluate_criteria U merge_overlaps ps ctx (md_criteria m) []"

subsection \<open>The schedule\<close>

definition create_schedule :: "(real, intent, 's) interval_tree \<Rightarrow> (real, string list, 'c) interval_tree
    \<Rightarrow> mode list \<Rightarrow> (real \<times> real) list list \<Rightarrow> string list \<Rightarrow> (real \<times> real) list list
    \<Rightarrow> interval_error + 'c \<times> 's" where
  "create_schedule S C modes evaluated_modes programs offers =
    rbind (stack_interval_trees S evaluated_modes
             (map (\<lambda>m. \<lparr>in_mode = md_name m, in_programs = []\<rparr>) modes) (it_empty S)) (\<lambda>schedule.
    rbind (combine_interval_trees C offers programs (it_empty C)) (\<lambda>combined_offers.
    rbind (stamp_interval_trees S schedule (it_items C combined_offers)
             (\<lambda>target_data stamp_data. \<lparr>in_mode = in_mode target_data, in_programs = stamp_data\<rparr>)) (\<lambda>schedule'.
      Inr (combined_offers, schedule'))))"

record program_config =
  pc_program :: string
  pc_priority :: int

record ('c, 's) scheduler =
  sh_modes :: "mode list"
  sh_configs :: "(string, program_config) dict"
  sh_combined :: 'c
  sh_intervals :: 's
  sh_history :: 'c

text \<open>\<open>sorted(modes, reverse=True)\<close> with operate modes below standby ones: standby modes first,
  each kind in the configured order, since reverse sorting is stable.\<close>

definition mode_rank :: "mode \<Rightarrow> nat" where
  "mode_rank m = (case md_state m of StandbyMode \<Rightarrow> 0 | OperateMode \<Rightarrow> 1)"

definition new_scheduler :: "(real, intent, 's) interval_tree \<Rightarrow> (real, string list, 'c) interval_tree
    \<Rightarrow> mode list \<Rightarrow> program_config list \<Rightarrow> ('c, 's) scheduler" where
  "new_scheduler S C modes configs =
    \<lparr>sh_modes = sort_key mode_rank modes,
     sh_configs = fold (\<lambda>c. dict_set (pc_program c) c) configs [],
     sh_combined = it_empty C, sh_intervals = it_empty S, sh_history = it_empty C\<rparr>"

definition get_intent :: "(real, intent, 's) interval_tree \<Rightarrow> ('c, 's) scheduler \<Rightarrow> real
    \<Rightarrow> schedule_error + intent option" where
  "get_intent S sh dt =
    (case filter (\<lambda>(x, y, d). x \<le> dt \<and> dt < y) (it_items S (sh_intervals sh)) of
       [] \<Rightarrow> Inr None
     | [(x, y, d)] \<Rightarrow> Inr (Some d)
     | _ \<Rightarrow> Inl AmbiguousIntent)"

text \<open>The history of offers: an offer cut short up to now, the current offers, less what ended
  an hour ago.  \<open>containsi\<close> and \<open>overlaps\<close> are read off the intervals of the tree.\<close>

definition remember :: "(real, string list, 'c) interval_tree \<Rightarrow> real \<times> real \<times> string list \<Rightarrow> 'c
    \<Rightarrow> interval_error + 'c" where
  "remember C iv history =
    (if iv \<in> set (it_items C history) then Inr history
     else it_addi C (fst iv) (fst (snd iv)) (snd (snd iv)) history)"

definition cut_short :: "real \<Rightarrow> offers \<Rightarrow> real \<times> real \<times> string list \<Rightarrow> bool" where
  "cut_short now combined iv \<longleftrightarrow> fst iv < now \<and> now < fst (snd iv)
    \<and> \<not> (\<exists>(x, y, d)\<in>set combined. x < fst (snd iv) \<and> fst iv < y)"

definition support_after_activity :: "(real, string list, 'c) interval_tree \<Rightarrow> real \<Rightarrow> offers \<Rightarrow> offers \<Rightarrow> 'c
    \<Rightarrow> interval_error + 'c" where
  "support_after_activity C now prev_combined combined history =
    rbind (rfold (\<lambda>iv. if cut_short now combined iv then remember C (fst iv, now, snd (snd iv)) else Inr)
             prev_combined history) (\<lambda>history.
    rbind (rfold (remember C) combined history) (\<lambda>history.
      rfold (it_remove C) (filter (\<lambda>iv. fst (snd iv) \<le> now - 3600) (it_items C history)) history))"

definition prioritised :: "(string, program_config) dict \<Rightarrow> string set \<Rightarrow> (string, (real \<times> real) list) dict
    \<Rightarrow> schedule_error + (string \<times> (real \<times> real) list) list" where
  "prioritised configs enabled offers_dict =
    rbind (rtraverse (\<lambda>it. case map_of configs (fst it) of
             None \<Rightarrow> Inl (UnknownProgram (fst it)) | Some c \<Rightarrow> Inr (pc_priority c, it))
           (filter (\<lambda>it. fst it \<in> enabled) offers_dict)) (\<lambda>keyed.
      Inr (map snd (sort_key fst keyed)))"

definition scheduler_update :: "(real, intent, 's) interval_tree \<Rightarrow> (real, string list, 'c) interval_tree
    \<Rightarrow> (real, unit, 'u) interval_tree \<Rightarrow> ('u \<Rightarrow> 'u) \<Rightarrow> parsers \<Rightarrow> real
    \<Rightarrow> (string, (real \<times> real) list) dict \<Rightarrow> string set \<Rightarrow> ('c, 's) scheduler
    \<Rightarrow> schedule_error + ('c, 's) scheduler" where
  "scheduler_update S C U merge_overlaps ps now offers_dict enabled sh =
    (let prev_combined = it_items C (sh_combined sh);
         ctx = \<lparr>mc_time_ref = now, mc_previous_combined = prev_combined, mc_offer_history = it_items C (sh_history sh)\<rparr>;
         evaluated = map (\<lambda>m. case mode_evaluate U merge_overlaps ps ctx m of Inl _ \<Rightarrow> [] | Inr ivs \<Rightarrow> ivs) (sh_modes sh)
     in rbind (prioritised (sh_configs sh) enabled offers_dict) (\<lambda>offers.
        rbind (lift_interval (create_schedule S C (sh_modes sh) evaluated (map fst offers) (map snd offers)))
          (\<lambda>(combined, intervals).
        rbind (lift_interval (support_after_activity C now prev_combined (it_items C combined) (sh_history sh)))
          (\<lambda>history.
          Inr (sh\<lparr>sh_combined := combined, sh_intervals := intervals, sh_history := history\<rparr>)))))"

subsection \<open>When a mode holds\<close>

text \<open>What \<open>merge_overlaps(strict=False)\<close> promises: the same points, no overlaps.\<close>

definition merging :: "(real, unit, 'u) interval_tree \<Rightarrow> ('u \<Rightarrow> 'u) \<Rightarrow> bool" where
  "merging U merge_overlaps \<longleftrightarrow>
    (\<forall>t. disjoint (bounds_of (it_items U (merge_overlaps t)))
       \<and> (\<forall>p. holds_at p (bounds_of (it_items U (merge_overlaps t))) \<longleftrightarrow> holds_at p (bounds_of (it_items U t))))"

definition criterion_holds :: "parsers \<Rightarrow> mode_context \<Rightarrow> real \<Rightarrow> criterion \<Rightarrow> bool" where
  "criterion_holds ps ctx p c = (case criterion_evaluate ps ctx c of Inl _ \<Rightarrow> False | Inr ivs \<Rightarrow> holds_at p ivs)"

definition criterion_proper :: "parsers \<Rightarrow> mode_context \<Rightarrow> criterion \<Rightarrow> bool" where
  "criterion_proper ps ctx c =
    (case criterion_evaluate ps ctx c of Inl _ \<Rightarrow> False | Inr ivs \<Rightarrow> \<forall>iv\<in>set ivs. fst iv < snd iv)"

lemma holds_bounds: "holds_at p (bounds_of ivs) \<longleftrightarrow> covering p (set ivs) \<noteq> {}"
  by (force simp: holds_at_def covering_def)

lemma reads_holds: "reads p (set ivs) v \<Longrightarrow> holds_at p (bounds_of ivs) \<longleftrightarrow> v \<noteq> None"
  unfolding holds_bounds by (auto simp: reads_def split: option.splits)

lemma from_tuples_items:
  assumes U: "lawful U" and "\<forall>iv\<in>set ivs. fst iv < snd iv"
  shows "\<exists>t. from_tuples U ivs = Inr t \<and> set (it_items U t) = (\<lambda>(b, e). (b, e, ())) ` set ivs"
proof -
  have "\<exists>t. rfold (\<lambda>(b, e). it_addi U b e ()) ivs t0 = Inr t
      \<and> set (it_items U t) = set (it_items U t0) \<union> (\<lambda>(b, e). (b, e, ())) ` set ivs" for t0
    using assms(2)
  proof (induction ivs arbitrary: t0)
    case (Cons iv ivs)
    obtain b e where iv: "iv = (b, e)" "b < e" using Cons.prems by (cases iv) auto
    obtain t1 where t1: "it_addi U b e () t0 = Inr t1" "set (it_items U t1) = insert (b, e, ()) (set (it_items U t0))"
      by (rule lawful_addi [OF U iv(2)])
    show ?case using Cons.IH [of t1] Cons.prems t1 by (auto simp: iv(1))
  qed simp
  from this [of "it_empty U"] show ?thesis by (simp add: from_tuples_def lawful_empty [OF U])
qed

lemma from_tuples_holds:
  assumes "set items = (\<lambda>(b, e). (b, e, ())) ` set ivs"
  shows "holds_at p (bounds_of items) \<longleftrightarrow> holds_at p ivs"
  unfolding holds_bounds by (force simp: covering_def assms holds_at_def)

lemma evaluate_criteria_correct:
  assumes U: "lawful U" and M: "merging U merge_overlaps"
    and "\<forall>c\<in>set cs. criterion_proper ps ctx c" and "\<forall>ivs\<in>set trees. disjoint ivs" and "cs \<noteq> [] \<or> trees \<noteq> []"
  shows "\<exists>ivs. evaluate_criteria U merge_overlaps ps ctx cs trees = Inr ivs
    \<and> (\<forall>iv\<in>set ivs. fst iv < snd iv)
    \<and> (\<forall>p. holds_at p ivs \<longleftrightarrow> (\<forall>c\<in>set cs. criterion_holds ps ctx p c) \<and> (\<forall>ivs\<in>set trees. holds_at p ivs))"
  using assms(3-)
proof (induction cs arbitrary: trees)
  case Nil
  then obtain t where t: "intersect_interval_trees U trees (it_empty U) = Inr t"
    and r: "\<And>p. reads p (set (it_items U t)) (if \<forall>ivs\<in>set trees. holds_at p ivs then Some () else None)"
    using intersect_correct [OF U, of trees] by auto
  have "holds_at p (bounds_of (it_items U t)) \<longleftrightarrow> (\<forall>ivs\<in>set trees. holds_at p ivs)" for p
    using reads_holds [OF r [of p]] by simp
  moreover have "\<forall>iv\<in>set (bounds_of (it_items U t)). fst iv < snd iv"
    using lawful_nonnull [OF U] by fastforce
  ultimately show ?case using t by (simp add: lift_interval_def)
next
  case (Cons c cs)
  then obtain ivs where ivs: "criterion_evaluate ps ctx c = Inr ivs" "\<forall>iv\<in>set ivs. fst iv < snd iv"
    by (auto simp: criterion_proper_def split: sum.splits)
  obtain t where t: "from_tuples U ivs = Inr t" and items: "set (it_items U t) = (\<lambda>(b, e). (b, e, ())) ` set ivs"
    using from_tuples_items [OF U ivs(2)] by blast
  have holds: "criterion_holds ps ctx p c \<longleftrightarrow> holds_at p (bounds_of (it_items U t))" for p
    by (simp add: criterion_holds_def ivs(1) from_tuples_holds [OF items])
  show ?case
  proof (cases "it_items U t = []")
    case True
    then have "\<not> criterion_holds ps ctx p c" for p unfolding holds by (simp add: holds_at_def)
    then show ?thesis using True by (simp add: ivs(1) t lift_interval_def holds_at_def)
  next
    case False
    let ?new = "bounds_of (it_items U (merge_overlaps t))"
    have new: "disjoint ?new" "\<And>p. holds_at p ?new \<longleftrightarrow> criterion_holds ps ctx p c"
      using M unfolding merging_def holds by blast+
    have "evaluate_criteria U merge_overlaps ps ctx (c # cs) trees
        = evaluate_criteria U merge_overlaps ps ctx cs (trees @ [?new])"
      using False by (simp add: ivs(1) t lift_interval_def)
    moreover have "\<forall>ivs\<in>set (trees @ [?new]). disjoint ivs" using Cons.prems(2) new(1) by auto
    ultimately show ?thesis
      using Cons.IH [of "trees @ [?new]"] Cons.prems(1) new(2) by auto
  qed
qed

lemma mode_evaluate_correct:
  assumes "lawful U" and "merging U merge_overlaps" and "md_criteria m \<noteq> []"
    and "\<forall>c\<in>set (md_criteria m). criterion_proper ps ctx c"
  shows "\<exists>ivs. mode_evaluate U merge_overlaps ps ctx m = Inr ivs \<and> (\<forall>iv\<in>set ivs. fst iv < snd iv)
    \<and> (\<forall>p. holds_at p ivs \<longleftrightarrow> (\<forall>c\<in>set (md_criteria m). criterion_holds ps ctx p c))"
  using evaluate_criteria_correct [OF assms(1,2), of "md_criteria m" ps ctx "[]"] assms(3,4)
  by (simp add: mode_evaluate_def)

lemma evaluate_criteria_proper:
  assumes "lawful U" and "evaluate_criteria U merge_overlaps ps ctx cs trees = Inr ivs" and "iv \<in> set ivs"
  shows "fst iv < snd iv"
  using assms(2,3)
proof (induction cs arbitrary: trees)
  case Nil
  then show ?case using lawful_nonnull [OF assms(1)] by (auto simp: rbind_Inr_iff)
next
  case (Cons c cs)
  then show ?case by (auto simp: rbind_Inr_iff split: if_splits)
qed

subsection \<open>What the schedule holds at a time\<close>

text \<open>\<open>mode_at\<close> is the last mode in the order given that holds.\<close>

definition mode_at :: "mode list \<Rightarrow> (real \<times> real) list list \<Rightarrow> real \<Rightarrow> mode option" where
  "mode_at modes evaluated p = on_top (zip modes evaluated) p None"

lemma on_top_map: "on_top (zip (map f ds) ivss) p (map_option f v) = map_option f (on_top (zip ds ivss) p v)"
proof (induction ds arbitrary: ivss v)
  case (Cons d ds)
  show ?case
  proof (cases ivss)
    case (Cons ivs rest)
    have "on_top (zip (map f ds) rest) p (map_option f (if holds_at p ivs then Some d else v))
        = map_option f (on_top (zip ds rest) p (if holds_at p ivs then Some d else v))"
      by (rule Cons.IH)
    then show ?thesis using Cons by (cases "holds_at p ivs") simp_all
  qed simp
qed simp

lemma create_schedule_at:
  assumes S: "lawful S" and C: "lawful C"
    and ev: "\<forall>ivs\<in>set evaluated. \<forall>iv\<in>set ivs. fst iv < snd iv" and of: "\<forall>ivs\<in>set offers. \<forall>iv\<in>set ivs. fst iv \<le> snd iv"
    and len: "length evaluated = length modes" "length programs = length offers"
  shows "\<exists>combined sched. create_schedule S C modes evaluated programs offers = Inr (combined, sched)
    \<and> (\<forall>p. reads p (set (it_items S sched)) (map_option
        (\<lambda>m. \<lparr>in_mode = md_name m, in_programs = holding programs offers p\<rparr>) (mode_at modes evaluated p)))"
proof -
  let ?bare = "\<lambda>m. \<lparr>in_mode = md_name m, in_programs = []\<rparr>"
    and ?merge = "\<lambda>target_data stamp_data. \<lparr>in_mode = in_mode target_data, in_programs = stamp_data\<rparr>"
  obtain t where t: "stack_interval_trees S evaluated (map ?bare modes) (it_empty S) = Inr t"
    and rt: "\<And>p v. reads p (set (it_items S (it_empty S))) v
        \<Longrightarrow> reads p (set (it_items S t)) (on_top (zip (map ?bare modes) evaluated) p v)"
    using stack_correct [OF S ev, of "map ?bare modes" "it_empty S"] len by auto
  have modes: "reads p (set (it_items S t)) (map_option ?bare (mode_at modes evaluated p))" for p
    using rt [of p None] on_top_map [of ?bare modes evaluated p None]
    by (simp add: lawful_empty [OF S] reads_def mode_at_def)
  obtain c where c: "combine_interval_trees C offers programs (it_empty C) = Inr c"
    and rc: "\<And>p. reads p (set (it_items C c)) (if holding programs offers p = [] then None else Some (holding programs offers p))"
    using combine_correct [OF C of len(2)] by blast
  have stamps: "\<forall>(b, e, s)\<in>set (it_items C c). b < e" "distinct (it_items C c)"
    using lawful_items [OF C] by blast+
  obtain s where s: "stamp_interval_trees S t (it_items C c) ?merge = Inr s"
    using stamp_reads [OF S stamps rc] by blast
  have "reads p (set (it_items S s)) (map_option
      (\<lambda>m. \<lparr>in_mode = md_name m, in_programs = holding programs offers p\<rparr>) (mode_at modes evaluated p))" for p
  proof -
    have "reads p (set (it_items S s)) (case if holding programs offers p = [] then None else Some (holding programs offers p) of
        None \<Rightarrow> map_option ?bare (mode_at modes evaluated p)
      | Some w \<Rightarrow> map_option (\<lambda>d. ?merge d w) (map_option ?bare (mode_at modes evaluated p)))"
      using stamp_reads [OF S stamps rc [of p], where t = t and merge_func = ?merge] s modes [of p] by auto
    then show ?thesis by (cases "mode_at modes evaluated p") (auto split: if_splits)
  qed
  then show ?thesis using t c s by (simp add: create_schedule_def)
qed

lemma distinct_set_single: "distinct xs \<Longrightarrow> set xs = {x} \<Longrightarrow> xs = [x]"
  by (cases xs) (auto simp: subset_singleton_iff)

lemma get_intent_reads:
  assumes S: "lawful S" and r: "reads p (set (it_items S (sh_intervals sh))) v"
  shows "get_intent S sh p = Inr v"
proof -
  let ?at = "filter (\<lambda>(x, y, d). x \<le> p \<and> p < y) (it_items S (sh_intervals sh))"
  have set: "set ?at = covering p (set (it_items S (sh_intervals sh)))" by (auto simp: covering_def)
  have dist: "distinct ?at" using lawful_distinct [OF S] by simp
  show ?thesis
  proof (cases v)
    case None
    then have "?at = []" using r unfolding set_empty [symmetric] set reads_def by simp
    then show ?thesis unfolding get_intent_def None by (simp only: list.case)
  next
    case (Some d)
    then obtain x y where "set ?at = {(x, y, d)}" using r unfolding set by (auto simp: reads_def)
    then have "?at = [(x, y, d)]" by (rule distinct_set_single [OF dist])
    then show ?thesis unfolding get_intent_def Some by (simp only: list.case prod.case)
  qed
qed

subsection \<open>Priorities\<close>

lemma on_top_last:
  "on_top (zip ms (map f ms)) p v =
    (let hold = filter (\<lambda>m. holds_at p (f m)) ms in if hold = [] then v else Some (last hold))"
  by (induction ms arbitrary: v) (auto simp: Let_def)

text \<open>The mode that counts: the last operate mode that holds, else the last standby one.\<close>

definition chosen_mode :: "(mode \<Rightarrow> bool) \<Rightarrow> mode list \<Rightarrow> mode option" where
  "chosen_mode holds ms =
    (let operating = filter (\<lambda>m. holds m \<and> md_state m = OperateMode) ms;
         standing_by = filter (\<lambda>m. holds m \<and> md_state m = StandbyMode) ms
     in if operating \<noteq> [] then Some (last operating)
        else if standing_by \<noteq> [] then Some (last standing_by) else None)"

lemma mode_state_cases: "md_state m \<noteq> OperateMode \<longleftrightarrow> md_state m = StandbyMode"
  by (cases "md_state m") simp_all

lemma sort_modes:
  "sort_key mode_rank ms =
    filter (\<lambda>m. md_state m = StandbyMode) ms @ filter (\<lambda>m. md_state m = OperateMode) ms"
proof (induction ms)
  case (Cons m ms)
  have rank: "md_state m = OperateMode \<Longrightarrow> mode_rank m = 1" "md_state m = StandbyMode \<Longrightarrow> mode_rank m = 0" for m
    by (simp_all add: mode_rank_def)
  have skip: "insort_key mode_rank m (xs @ ys) = xs @ insort_key mode_rank m ys"
    if "\<forall>x\<in>set xs. mode_rank x < mode_rank m" for xs ys
    using that by (induction xs) auto
  have here: "insort_key mode_rank m ys = m # ys" if "\<forall>y\<in>set ys. mode_rank m \<le> mode_rank y" for ys
    using that by (cases ys) auto
  show ?case
  proof (cases "md_state m")
    case OperateMode
    then show ?thesis
      using skip [of "filter (\<lambda>m. md_state m = StandbyMode) ms" "filter (\<lambda>m. md_state m = OperateMode) ms"]
        here [of "filter (\<lambda>m. md_state m = OperateMode) ms"] OperateMode by (simp add: Cons rank)
  next
    case StandbyMode
    then show ?thesis
      using here [of "filter (\<lambda>m. md_state m = StandbyMode) ms @ filter (\<lambda>m. md_state m = OperateMode) ms"]
      by (simp add: Cons rank)
  qed
qed simp

lemma mode_at_chosen:
  "mode_at (sort_key mode_rank ms) (map f (sort_key mode_rank ms)) p = chosen_mode (\<lambda>m. holds_at p (f m)) ms"
  unfolding mode_at_def on_top_last chosen_mode_def Let_def sort_modes
  by (simp add: conj_commute)

lemma sort_by_key: "map snd (sort_key fst (map (\<lambda>x. (f x, x)) xs)) = sort_key f xs"
proof (induction xs)
  case (Cons x xs)
  have "map snd (insort_key fst (f x, x) (map (\<lambda>x. (f x, x)) ys)) = insort_key f x ys" for ys
    by (induction ys) (auto simp: comp_def)
  moreover have "sort_key fst (map (\<lambda>x. (f x, x)) xs) = map (\<lambda>x. (f x, x)) (sort_key f xs)"
  proof -
    have "insort_key fst (f y, y) (map (\<lambda>x. (f x, x)) ys) = map (\<lambda>x. (f x, x)) (insort_key f y ys)" for y ys
      by (induction ys) auto
    then show ?thesis by (induction xs) auto
  qed
  ultimately show ?case by simp
qed simp

definition priority_of :: "(string, program_config) dict \<Rightarrow> string \<Rightarrow> int" where
  "priority_of configs n = (case map_of configs n of None \<Rightarrow> 0 | Some c \<Rightarrow> pc_priority c)"

text \<open>The programs with a window at \<open>p\<close>, by priority, in the order of the offers where equal.\<close>

definition offering :: "(string, program_config) dict \<Rightarrow> string set \<Rightarrow> (string, (real \<times> real) list) dict
    \<Rightarrow> real \<Rightarrow> string list" where
  "offering configs enabled offers_dict p =
    map fst (filter (\<lambda>it. holds_at p (snd it))
      (sort_key (\<lambda>it. priority_of configs (fst it)) (filter (\<lambda>it. fst it \<in> enabled) offers_dict)))"

lemma prioritised_ok:
  assumes "\<forall>n\<in>set (dict_keys offers_dict). n \<in> enabled \<longrightarrow> n \<in> set (dict_keys configs)"
  shows "prioritised configs enabled offers_dict =
    Inr (sort_key (\<lambda>it. priority_of configs (fst it)) (filter (\<lambda>it. fst it \<in> enabled) offers_dict))"
proof -
  let ?its = "filter (\<lambda>it. fst it \<in> enabled) offers_dict"
  let ?key = "\<lambda>it. case map_of configs (fst it) of
      None \<Rightarrow> Inl (UnknownProgram (fst it)) | Some c \<Rightarrow> Inr (pc_priority c, it)"
  have "?key it = Inr (priority_of configs (fst it), it)" if "it \<in> set ?its" for it
  proof -
    have "fst it \<in> set (dict_keys configs)" using assms that by auto
    then obtain c where "map_of configs (fst it) = Some c" unfolding ex_map_of [symmetric] by (rule exE)
    then show ?thesis by (simp add: priority_of_def)
  qed
  then have "list_all2 (\<lambda>it y. ?key it = Inr y) ?its (map (\<lambda>it. (priority_of configs (fst it), it)) ?its)"
    unfolding list_all2_map2 by (intro list.rel_refl_strong) simp
  then have "rtraverse ?key ?its = Inr (map (\<lambda>it. (priority_of configs (fst it), it)) ?its)"
    by (simp add: rtraverse_Inr_iff)
  then show ?thesis by (simp add: prioritised_def sort_by_key)
qed

lemma holding_distinct:
  assumes "distinct (map fst its)"
  shows "holding (map fst its) (map snd its) p = map fst (filter (\<lambda>it. holds_at p (snd it)) its)"
proof -
  have "(\<exists>i<length its. fst (its ! i) = fst it \<and> holds_at p (snd (its ! i))) \<longleftrightarrow> holds_at p (snd it)"
    if "it \<in> set its" for it
    using that assms by (metis distinct_map in_set_conv_nth inj_onD nth_mem)
  then have "filter (\<lambda>it. \<exists>i<length its. fst (its ! i) = fst it \<and> holds_at p (snd (its ! i))) its
      = filter (\<lambda>it. holds_at p (snd it)) its"
    by (rule filter_cong [OF refl])
  moreover have "(\<exists>i<length (map snd its). map fst its ! i = d \<and> holds_at p (map snd its ! i))
      \<longleftrightarrow> (\<exists>i<length its. fst (its ! i) = d \<and> holds_at p (snd (its ! i)))" for d
    by (rule ex_cong1) auto
  ultimately show ?thesis by (simp only: holding_def filter_map comp_def)
qed

subsection \<open>The history of offers\<close>

lemma remember_ok:
  assumes "lawful C" and "fst iv < fst (snd iv)"
  shows "\<exists>h'. remember C iv h = Inr h' \<and> set (it_items C h') = insert iv (set (it_items C h))"
proof (cases "iv \<in> set (it_items C h)")
  case True
  then show ?thesis by (auto simp: remember_def)
next
  case False
  obtain h' where "it_addi C (fst iv) (fst (snd iv)) (snd (snd iv)) h = Inr h'"
    "set (it_items C h') = insert (fst iv, fst (snd iv), snd (snd iv)) (set (it_items C h))"
    by (rule lawful_addi [OF assms])
  with False show ?thesis by (simp add: remember_def)
qed

lemma remember_all:
  assumes "lawful C" and "\<forall>iv\<in>set ivs. sel iv \<longrightarrow> fst (f iv) < fst (snd (f iv))"
  shows "\<exists>h'. rfold (\<lambda>iv. if sel iv then remember C (f iv) else Inr) ivs h = Inr h'
    \<and> set (it_items C h') = set (it_items C h) \<union> f ` {iv \<in> set ivs. sel iv}"
  using assms(2)
proof (induction ivs arbitrary: h)
  case (Cons iv ivs)
  show ?case
  proof (cases "sel iv")
    case True
    then obtain h1 where h1: "remember C (f iv) h = Inr h1" "set (it_items C h1) = insert (f iv) (set (it_items C h))"
      using remember_ok [OF assms(1), of "f iv" h] Cons.prems by auto
    then show ?thesis using Cons.IH [of h1] Cons.prems True by auto
  next
    case False
    then show ?thesis using Cons.IH [of h] Cons.prems by auto
  qed
qed simp

lemma remove_all:
  assumes "lawful C" and "distinct ivs" and "set ivs \<subseteq> set (it_items C h)"
  shows "\<exists>h'. rfold (it_remove C) ivs h = Inr h' \<and> set (it_items C h') = set (it_items C h) - set ivs"
  using assms(2,3)
proof (induction ivs arbitrary: h)
  case (Cons iv ivs)
  then have "iv \<in> set (it_items C h)" by simp
  then obtain h1 where h1: "it_remove C iv h = Inr h1" "set (it_items C h1) = set (it_items C h) - {iv}"
    by (rule lawful_remove [OF assms(1)])
  have "set ivs \<subseteq> set (it_items C h1)" using Cons.prems h1(2) by auto
  then show ?case using Cons.IH [of h1] Cons.prems(1) h1 by auto
qed simp

definition remembered :: "real \<Rightarrow> offers \<Rightarrow> offers \<Rightarrow> (real \<times> real \<times> string list) set \<Rightarrow> (real \<times> real \<times> string list) set" where
  "remembered now prev_combined combined history =
    {iv \<in> history \<union> (\<lambda>iv. (fst iv, now, snd (snd iv))) ` {iv \<in> set prev_combined. cut_short now combined iv} \<union> set combined.
      now - 3600 < fst (snd iv)}"

lemma support_after_activity_ok:
  assumes C: "lawful C" and nonnull: "\<forall>iv\<in>set combined. fst iv < fst (snd iv)"
  shows "\<exists>h'. support_after_activity C now prev_combined combined h = Inr h'
    \<and> set (it_items C h') = remembered now prev_combined combined (set (it_items C h))"
proof -
  obtain h1 where h1: "rfold (\<lambda>iv. if cut_short now combined iv then remember C (fst iv, now, snd (snd iv)) else Inr) prev_combined h = Inr h1"
      "set (it_items C h1) = set (it_items C h) \<union> (\<lambda>iv. (fst iv, now, snd (snd iv))) ` {iv \<in> set prev_combined. cut_short now combined iv}"
    using remember_all [OF C, of prev_combined "cut_short now combined" "\<lambda>iv. (fst iv, now, snd (snd iv))" h]
    by (auto simp: cut_short_def)
  obtain h2 where h2: "rfold (remember C) combined h1 = Inr h2"
      "set (it_items C h2) = set (it_items C h1) \<union> set combined"
    using remember_all [OF C, of combined "\<lambda>_. True" "\<lambda>iv. iv" h1] nonnull by auto
  let ?stale = "filter (\<lambda>iv. fst (snd iv) \<le> now - 3600) (it_items C h2)"
  obtain h3 where "rfold (it_remove C) ?stale h2 = Inr h3"
      "set (it_items C h3) = set (it_items C h2) - set ?stale"
    using remove_all [OF C, of ?stale h2] lawful_distinct [OF C] by auto
  moreover have "X - {iv \<in> X. fst (snd iv) \<le> now - 3600} = {iv \<in> X. now - 3600 < fst (snd iv)}"
    for X :: "(real \<times> real \<times> string list) set" by auto
  ultimately have "set (it_items C h3) = remembered now prev_combined combined (set (it_items C h))"
    unfolding remembered_def h1(2) [symmetric] h2(2) [symmetric] by (simp only: set_filter)
  then show ?thesis
    using h1(1) h2(1) \<open>rfold (it_remove C) ?stale h2 = Inr h3\<close> by (simp add: support_after_activity_def)
qed

subsection \<open>An update of the scheduler\<close>

definition mode_holds :: "(real, unit, 'u) interval_tree \<Rightarrow> ('u \<Rightarrow> 'u) \<Rightarrow> parsers \<Rightarrow> mode_context \<Rightarrow> real \<Rightarrow> mode \<Rightarrow> bool" where
  "mode_holds U merge_overlaps ps ctx p m =
    holds_at p (case mode_evaluate U merge_overlaps ps ctx m of Inl _ \<Rightarrow> [] | Inr ivs \<Rightarrow> ivs)"

definition context_of :: "(real, string list, 'c) interval_tree \<Rightarrow> real \<Rightarrow> ('c, 's) scheduler \<Rightarrow> mode_context" where
  "context_of C now sh = \<lparr>mc_time_ref = now, mc_previous_combined = it_items C (sh_combined sh),
    mc_offer_history = it_items C (sh_history sh)\<rparr>"

lemma update_intent:
  assumes S: "lawful S" and C: "lawful C" and U: "lawful U"
    and modes: "sh_modes sh = sort_key mode_rank ms"
    and known: "\<forall>n\<in>set (dict_keys offers_dict). n \<in> enabled \<longrightarrow> n \<in> set (dict_keys (sh_configs sh))"
    and dist: "distinct (dict_keys offers_dict)"
    and windows: "\<forall>it\<in>set offers_dict. \<forall>iv\<in>set (snd it). fst iv \<le> snd iv"
  shows "\<exists>sh'. scheduler_update S C U merge_overlaps ps now offers_dict enabled sh = Inr sh'
    \<and> sh_modes sh' = sh_modes sh \<and> sh_configs sh' = sh_configs sh
    \<and> (\<forall>p. get_intent S sh' p = Inr (map_option
         (\<lambda>m. \<lparr>in_mode = md_name m, in_programs = offering (sh_configs sh) enabled offers_dict p\<rparr>)
         (chosen_mode (mode_holds U merge_overlaps ps (context_of C now sh) p) ms)))
    \<and> set (it_items C (sh_history sh')) = remembered now (it_items C (sh_combined sh))
        (it_items C (sh_combined sh')) (set (it_items C (sh_history sh)))"
proof -
  let ?ev = "\<lambda>m. case mode_evaluate U merge_overlaps ps (context_of C now sh) m of Inl _ \<Rightarrow> [] | Inr ivs \<Rightarrow> ivs"
  let ?its = "sort_key (\<lambda>it. priority_of (sh_configs sh) (fst it)) (filter (\<lambda>it. fst it \<in> enabled) offers_dict)"
  have ev: "\<forall>ivs\<in>set (map ?ev (sh_modes sh)). \<forall>iv\<in>set ivs. fst iv < snd iv"
  proof (intro ballI)
    fix ivs iv
    assume "ivs \<in> set (map ?ev (sh_modes sh))" and iv: "iv \<in> set ivs"
    then obtain m where m: "ivs = ?ev m" by auto
    show "fst iv < snd iv"
    proof (cases "mode_evaluate U merge_overlaps ps (context_of C now sh) m")
      case (Inl e)
      then show ?thesis using iv m by simp
    next
      case (Inr ivs')
      then show ?thesis
        using evaluate_criteria_proper [OF U Inr [unfolded mode_evaluate_def], of iv] iv m by simp
    qed
  qed
  have of: "\<forall>ivs\<in>set (map snd ?its). \<forall>iv\<in>set ivs. fst iv \<le> snd iv"
    using windows by (simp only: set_map set_sort set_filter) blast
  have dits: "distinct (map fst ?its)"
    using dist by (auto simp: distinct_map intro: inj_on_subset)
  obtain combined sched where cs: "create_schedule S C (sh_modes sh) (map ?ev (sh_modes sh)) (map fst ?its) (map snd ?its) = Inr (combined, sched)"
    and r: "\<And>p. reads p (set (it_items S sched)) (map_option
        (\<lambda>m. \<lparr>in_mode = md_name m, in_programs = holding (map fst ?its) (map snd ?its) p\<rparr>)
        (mode_at (sh_modes sh) (map ?ev (sh_modes sh)) p))"
    using create_schedule_at [OF S C ev of, of "sh_modes sh" "map fst ?its"] by auto
  have "\<forall>iv\<in>set (it_items C combined). fst iv < fst (snd iv)"
    using lawful_nonnull [OF C] by (metis prod.collapse)
  from support_after_activity_ok [OF C this, of now "it_items C (sh_combined sh)" "sh_history sh"]
  obtain h where h: "support_after_activity C now (it_items C (sh_combined sh)) (it_items C combined) (sh_history sh) = Inr h"
    and hs: "set (it_items C h) = remembered now (it_items C (sh_combined sh)) (it_items C combined) (set (it_items C (sh_history sh)))"
    by blast
  let ?sh = "sh\<lparr>sh_combined := combined, sh_intervals := sched, sh_history := h\<rparr>"
  have run: "scheduler_update S C U merge_overlaps ps now offers_dict enabled sh = Inr ?sh"
    using cs h by (simp add: scheduler_update_def prioritised_ok [OF known] context_of_def lift_interval_def Let_def)
  have "get_intent S ?sh p = Inr (map_option
         (\<lambda>m. \<lparr>in_mode = md_name m, in_programs = offering (sh_configs sh) enabled offers_dict p\<rparr>)
         (chosen_mode (mode_holds U merge_overlaps ps (context_of C now sh) p) ms))" for p
  proof -
    have "mode_at (sh_modes sh) (map ?ev (sh_modes sh)) p
        = chosen_mode (mode_holds U merge_overlaps ps (context_of C now sh) p) ms"
      unfolding modes mode_at_chosen by (simp add: mode_holds_def [abs_def])
    moreover have "holding (map fst ?its) (map snd ?its) p = offering (sh_configs sh) enabled offers_dict p"
      by (simp only: holding_distinct [OF dits] offering_def)
    ultimately show ?thesis using r [of p] by (intro get_intent_reads [OF S]) simp
  qed
  then show ?thesis using run hs by auto
qed


lemma chosen_mode_holds: "chosen_mode holds ms = Some m \<Longrightarrow> m \<in> set ms \<and> holds m"
proof -
  have in_last: "xs \<noteq> [] \<Longrightarrow> last xs \<in> set xs" for xs :: "mode list" by simp
  assume "chosen_mode holds ms = Some m"
  then show ?thesis
    using in_last [of "filter (\<lambda>m. holds m \<and> md_state m = OperateMode) ms"]
      in_last [of "filter (\<lambda>m. holds m \<and> md_state m = StandbyMode) ms"]
    by (auto simp: chosen_mode_def Let_def split: if_splits)
qed

lemma offering_first:
  assumes "offering configs enabled offers_dict p = n # ns" and "distinct (dict_keys offers_dict)"
  shows "n \<in> enabled \<and> (\<exists>ws. map_of offers_dict n = Some ws \<and> holds_at p ws)
    \<and> (\<forall>q\<in>enabled. \<forall>ws. map_of offers_dict q = Some ws \<and> holds_at p ws \<longrightarrow>
        priority_of configs n \<le> priority_of configs q)"
proof -
  let ?sorted = "filter (\<lambda>it. holds_at p (snd it))
      (sort_key (\<lambda>it. priority_of configs (fst it)) (filter (\<lambda>it. fst it \<in> enabled) offers_dict))"
  obtain it rest where it: "?sorted = it # rest" "fst it = n"
    using assms(1) unfolding offering_def by auto
  have members: "set ?sorted = {it \<in> set offers_dict. fst it \<in> enabled \<and> holds_at p (snd it)}" by auto
  have "sorted (map (\<lambda>it. priority_of configs (fst it)) ?sorted)"
    by (rule sorted_filter) simp
  then have least: "\<forall>jt\<in>set ?sorted. priority_of configs n \<le> priority_of configs (fst jt)"
    unfolding it(1) using it(2) by auto
  have "it \<in> set ?sorted" unfolding it(1) by simp
  then have "fst it \<in> enabled" "map_of offers_dict n = Some (snd it)" "holds_at p (snd it)"
    using it(2) assms(2) unfolding members by (auto intro: map_of_is_SomeI)
  moreover have "priority_of configs n \<le> priority_of configs q"
    if "q \<in> enabled" "map_of offers_dict q = Some ws" "holds_at p ws" for q ws
  proof -
    have "(q, ws) \<in> set ?sorted" unfolding members using that by (auto dest: map_of_SomeD)
    with least show ?thesis by fastforce
  qed
  ultimately show ?thesis using it(2) by auto
qed

lemma demanded_state_program:
  "demanded_state it operate d = Inr (st, Some n) \<Longrightarrow> operate \<and> st = OPERATE
    \<and> (\<exists>i ns. it = Some i \<and> in_programs i = n # ns \<and> dr_mode_state d (in_mode i) = Some ''operate'')"
  by (auto simp: demanded_state_def split: if_splits option.splits list.splits)

lemma demand_with_program:
  assumes "driver_demand it constrained operate d = Inr dem" and "d_program dem = Some n"
  shows "\<exists>st. demanded_state it operate d = Inr (st, Some n) \<and> \<not> constrained \<and> d_state dem = Some st"
proof -
  obtain st prog where dst: "demanded_state it operate d = Inr (st, prog)"
    using assms(1) by (auto simp: driver_demand_def rbind_Inr_iff)
  have "d_state dem = Some (if constrained then SHUTDOWN else st) \<and> d_program dem = (if constrained then None else prog)"
    using assms(1) by (auto simp: driver_demand_def dst rbind_Inr_iff Let_def)
  then show ?thesis using assms(2) dst by (auto split: if_splits)
qed

text \<open>C13. C. A driver commands a program only under a mode that operates it: the program is enabled,
  offers a window at that moment, no enabled program offering then has a better priority, the
  controller is elected and unconstrained, and it is asked to operate.\<close>

theorem demanded_program_offers:
  assumes "lawful S" and "lawful C" and "lawful U"
    and "sh_modes sh = sort_key mode_rank ms"
    and "\<forall>n\<in>set (dict_keys offers_dict). n \<in> enabled \<longrightarrow> n \<in> set (dict_keys (sh_configs sh))"
    and dist: "distinct (dict_keys offers_dict)"
    and "\<forall>it\<in>set offers_dict. \<forall>iv\<in>set (snd it). fst iv \<le> snd iv"
    and up: "scheduler_update S C U merge_overlaps ps now offers_dict enabled sh = Inr sh'"
    and it: "get_intent S sh' p = Inr it"
    and dem: "driver_demand it constrained operate d = Inr dem" "d_program dem = Some n"
  shows "\<not> constrained \<and> operate \<and> d_state dem = Some OPERATE \<and> n \<in> enabled
    \<and> (\<exists>ws. map_of offers_dict n = Some ws \<and> holds_at p ws)
    \<and> (\<forall>q\<in>enabled. \<forall>ws. map_of offers_dict q = Some ws \<and> holds_at p ws \<longrightarrow>
        priority_of (sh_configs sh) n \<le> priority_of (sh_configs sh) q)
    \<and> (\<exists>m\<in>set ms. mode_holds U merge_overlaps ps (context_of C now sh) p m
        \<and> dr_mode_state d (md_name m) = Some ''operate'')"
proof -
  have "it = map_option (\<lambda>m. \<lparr>in_mode = md_name m, in_programs = offering (sh_configs sh) enabled offers_dict p\<rparr>)
      (chosen_mode (mode_holds U merge_overlaps ps (context_of C now sh) p) ms)"
    using update_intent [OF assms(1-7), of merge_overlaps ps now] up it by auto
  moreover have prog: "\<not> constrained" "operate" "d_state dem = Some OPERATE"
    "\<exists>i ns. it = Some i \<and> in_programs i = n # ns \<and> dr_mode_state d (in_mode i) = Some ''operate''"
    using demand_with_program [OF dem] demanded_state_program by blast+
  ultimately obtain m ns where m: "chosen_mode (mode_holds U merge_overlaps ps (context_of C now sh) p) ms = Some m"
      "offering (sh_configs sh) enabled offers_dict p = n # ns" "dr_mode_state d (md_name m) = Some ''operate''"
    by auto
  show ?thesis
    using prog(1-3) offering_first [OF m(2) dist] chosen_mode_holds [OF m(1)] m(3) by blast
qed

subsection \<open>A night with two programs\<close>

text \<open>\<open>list_merge\<close> merges overlaps by the combining sweep over a single input.\<close>

definition list_merge :: "(real \<times> real \<times> unit) list \<Rightarrow> (real \<times> real \<times> unit) list" where
  "list_merge t = (case combine_interval_trees list_tree [bounds_of (tidy t)] [()] [] of
     Inl _ \<Rightarrow> [] | Inr r \<Rightarrow> map (\<lambda>(b, e, _). (b, e, ())) (tidy r))"

lemma list_merge_merging: "merging list_tree list_merge"
  unfolding merging_def
proof
  fix t :: "(real \<times> real \<times> unit) list"
  let ?in = "bounds_of (tidy t)"
  have le: "\<forall>ivs\<in>set [?in]. \<forall>iv\<in>set ivs. fst iv \<le> snd iv" by (auto simp: tidy_set)
  obtain r where r: "combine_interval_trees list_tree [?in] [()] [] = Inr r"
    and reads: "\<And>p. reads p (set (tidy r)) (if holding [()] [?in] p = [] then None else Some (holding [()] [?in] p))"
    using combine_correct [OF list_tree_lawful le, of "[()]"] by auto
  have items: "it_items list_tree (list_merge t) = tidy (map (\<lambda>(b, e, _). (b, e, ())) (tidy r))"
    by (simp add: list_merge_def r)
  have same: "set (bounds_of (it_items list_tree (list_merge t))) = set (bounds_of (tidy r))"
    unfolding items by (force simp: tidy_set)
  have "holds_at p (bounds_of (it_items list_tree (list_merge t))) \<longleftrightarrow> holds_at p (bounds_of (it_items list_tree t))" for p
  proof -
    have "holds_at p (bounds_of (it_items list_tree (list_merge t))) \<longleftrightarrow> holds_at p (bounds_of (tidy r))"
      unfolding holds_at_def same ..
    also have "\<dots> \<longleftrightarrow> holding [()] [?in] p \<noteq> []" using reads_holds [OF reads [of p]] by simp
    also have "\<dots> \<longleftrightarrow> holds_at p ?in" by (simp add: holding_def)
    finally show ?thesis by simp
  qed
  moreover have "disjoint (bounds_of (it_items list_tree (list_merge t)))"
  proof -
    have "distinct (bounds_of (tidy (u :: (real \<times> real \<times> unit) list)))" for u
      by (auto simp: distinct_map inj_on_def)
    then have "distinct (bounds_of (it_items list_tree (list_merge t)))" unfolding items .
    moreover have "x < y" if "(x, y) \<in> set (bounds_of (tidy r))" for x y using that by (auto simp: tidy_set)
    moreover have "(x, y) = (u, v) \<or> y \<le> u \<or> v \<le> x"
      if a: "(x, y) \<in> set (bounds_of (tidy r))" and b: "(u, v) \<in> set (bounds_of (tidy r))" for x y u v
    proof (rule ccontr)
      assume no: "\<not> ((x, y) = (u, v) \<or> y \<le> u \<or> v \<le> x)"
      obtain d d' where ab: "(x, y, d) \<in> set (tidy r)" "(u, v, d') \<in> set (tidy r)" using a b by auto
      then have "{(x, y, d), (u, v, d')} \<subseteq> covering (max x u) (set (tidy r))"
        using no by (auto simp: covering_def tidy_set)
      then show False using reads [of "max x u"] no by (auto simp: reads_def split: if_splits)
    qed
    ultimately show ?thesis unfolding disjoint_def same by (metis prod.collapse)
  qed
  ultimately show "disjoint (bounds_of (it_items list_tree (list_merge t)))
    \<and> (\<forall>p. holds_at p (bounds_of (it_items list_tree (list_merge t))) \<longleftrightarrow> holds_at p (bounds_of (it_items list_tree t)))"
    by blast
qed

definition night_modes :: "mode list" where
  "night_modes = [\<lparr>md_name = ''night'', md_state = OperateMode, md_criteria = [TimeRangeCriterion ''sunset'' ''sunrise'']\<rparr>,
    \<lparr>md_name = ''idle'', md_state = StandbyMode, md_criteria = [TimeRangeCriterion ''noon'' ''noon'']\<rparr>]"

definition night_parsers :: parsers where
  "night_parsers = \<lparr>parse_time_range = (\<lambda>s e ref. if s = ''sunset'' then Inr (ref, ref + 90000) else Inl TimeRangeError),
    parse_time_delta = (\<lambda>s. Inr 60)\<rparr>"

definition night_scheduler :: "(offers, (real \<times> real \<times> intent) list) scheduler" where
  "night_scheduler = new_scheduler list_tree list_tree night_modes
    [\<lparr>pc_program = ''survey'', pc_priority = 5\<rparr>, \<lparr>pc_program = ''alerts'', pc_priority = 1\<rparr>]"

definition night_offers :: "(string, (real \<times> real) list) dict" where
  "night_offers = [(''survey'', [(0, 50)]), (''alerts'', [(10, 20)])]"

lemma night_facts:
  "sh_modes night_scheduler = sort_key mode_rank night_modes"
  "set (dict_keys (sh_configs night_scheduler)) = {''survey'', ''alerts''}"
  "dict_keys night_offers = [''survey'', ''alerts'']"
  by (simp_all add: night_scheduler_def new_scheduler_def night_offers_def insert_commute)

lemma night_known:
  "\<forall>n\<in>set (dict_keys night_offers). n \<in> {''survey'', ''alerts''} \<longrightarrow> n \<in> set (dict_keys (sh_configs night_scheduler))"
  "distinct (dict_keys night_offers)"
  "\<forall>it\<in>set night_offers. \<forall>iv\<in>set (snd it). fst iv \<le> snd iv"
  unfolding night_facts by (simp_all add: night_offers_def)

lemma night_mode:
  "mode_evaluate list_tree list_merge night_parsers (context_of list_tree 0 night_scheduler) (hd night_modes)
    = Inr [(0, 90000)]"
  by (simp add: mode_evaluate_def night_modes_def time_range_intervals_def night_parsers_def context_of_def
      DAILY_PERIOD_def from_tuples_def lift_interval_def tidy_def dedup_def list_add_def
      list_merge_def combine_interval_trees_def tagged_def held_def count_datum_def
      intersect_interval_trees_def sort_key_def)

lemma night_idle:
  "mode_evaluate list_tree list_merge night_parsers (context_of list_tree 0 night_scheduler) (night_modes ! 1)
    = Inl TimeRangeError"
  by (simp add: mode_evaluate_def night_modes_def time_range_intervals_def night_parsers_def)

lemma night_chosen:
  "chosen_mode (mode_holds list_tree list_merge night_parsers (context_of list_tree 0 night_scheduler) 15) night_modes
    = Some (hd night_modes)"
  using night_mode night_idle
  by (simp add: chosen_mode_def mode_holds_def night_modes_def holds_at_def)

lemma night_first: "md_name (hd night_modes) = ''night''"
  by (simp add: night_modes_def)

lemma night_offering:
  "offering (sh_configs night_scheduler) {''survey'', ''alerts''} night_offers 15 = [''alerts'', ''survey'']"
  by (simp add: offering_def night_scheduler_def new_scheduler_def night_offers_def priority_of_def holds_at_def sort_key_def)


definition night_driver :: "unit driver" where
  "night_driver = \<lparr>dr_name = ''camera'', dr_startup = 0, dr_mode_state = (\<lambda>m. if m = ''night'' then Some ''operate'' else None),
    dr_contexts = [(None, ()), (Some ''alerts'', ())], dr_interrupts = [(''alerts'', True)]\<rparr>"

theorem demanded_program_offers_witness:
  "\<exists>sh' it dem. scheduler_update list_tree list_tree list_tree list_merge night_parsers 0 night_offers
      {''survey'', ''alerts''} night_scheduler = Inr sh'
    \<and> get_intent list_tree sh' 15 = Inr it
    \<and> driver_demand it False True night_driver = Inr dem \<and> d_program dem = Some ''alerts''
    \<and> d_state dem = Some OPERATE \<and> priority_of (sh_configs night_scheduler) ''alerts'' \<le> priority_of (sh_configs night_scheduler) ''survey''"
proof -
  let ?it = "Some \<lparr>in_mode = ''night'', in_programs = [''alerts'', ''survey'']\<rparr>"
  obtain sh' where up: "scheduler_update list_tree list_tree list_tree list_merge night_parsers 0 night_offers
      {''survey'', ''alerts''} night_scheduler = Inr sh'"
    and intent: "\<forall>p. get_intent list_tree sh' p = Inr (map_option
         (\<lambda>m. \<lparr>in_mode = md_name m, in_programs = offering (sh_configs night_scheduler) {''survey'', ''alerts''} night_offers p\<rparr>)
         (chosen_mode (mode_holds list_tree list_merge night_parsers (context_of list_tree 0 night_scheduler) p) night_modes))"
    using update_intent [OF list_tree_lawful list_tree_lawful list_tree_lawful night_facts(1) night_known,
        of list_merge night_parsers 0] by blast
  have it: "get_intent list_tree sh' 15 = Inr ?it"
    using intent by (simp add: night_chosen night_offering night_first)
  obtain dem where dem: "driver_demand ?it False True night_driver = Inr dem" "d_program dem = Some ''alerts''"
    by (simp add: driver_demand_def demanded_state_def night_driver_def)
  have "map_of night_offers ''survey'' = Some [(0, 50)]" "holds_at 15 [(0, 50 :: real)]"
    by (simp_all add: night_offers_def holds_at_def)
  then show ?thesis
    using demanded_program_offers [OF list_tree_lawful list_tree_lawful list_tree_lawful night_facts(1) night_known
        up it dem] up it dem by blast
qed

end
