(* ===== verification/Dag_Graph.thy ===== *)
theory Dag_Graph
  imports Kit_Prelude
begin

section \<open>Dependency graphs (core/src/sensorkit/common/dag.py)\<close>

text \<open>
  Nodes, graphs and the builder of \<open>common/dag.py\<close>, with Kahn's sort \<open>Graph.topo_order\<close>, the
  cycle it names when it fails, the levels \<open>Graph.format\<close> groups nodes into, and
  \<open>GraphBuilder\<close>.  Ids are the builder's positions, so natural numbers.  A frozenset is a
  \<open>nat set\<close>; \<open>Graph.deps\<close> and \<open>Graph.hard\<close> are dicts in insertion order.
\<close>

subsection \<open>Nodes and graphs\<close>

datatype on_failure = Stop | Skip | Continue

datatype override_outcome = OvOk | OvSkipped

record node_override =
  ov_outcome :: override_outcome
  ov_reason :: string

record 'p node =
  nid :: nat
  n_label :: string
  n_group :: string
  n_payload :: 'p
  n_on_failure :: on_failure
  n_optional :: bool
  n_delay_s :: real
  n_override :: "node_override option"

record 'p graph =
  g_nodes :: "'p node list"
  g_deps :: "(nat, nat set) dict"
  g_hard :: "(nat, nat set) dict"

datatype dag_error =
    KeyError
  | IndexError
  | ValueError
  | CycleError "string list"

abbreviation node_ids :: "'p graph \<Rightarrow> nat list" where
  "node_ids g \<equiv> map nid (g_nodes g)"

definition deps_of :: "'p graph \<Rightarrow> nat \<Rightarrow> nat set" where
  "deps_of g i = (case map_of (g_deps g) i of Some ds \<Rightarrow> ds | None \<Rightarrow> {})"

definition hard_of :: "'p graph \<Rightarrow> nat \<Rightarrow> nat set" where
  "hard_of g i = (case map_of (g_hard g) i of Some ds \<Rightarrow> ds | None \<Rightarrow> {})"

definition find_node :: "'p graph \<Rightarrow> nat \<Rightarrow> 'p node option" where
  "find_node g i = find (\<lambda>n. nid n = i) (g_nodes g)"

subsection \<open>Graph.topo\_order and Graph.\_cycle\<close>

text \<open>\<open>dependents[d]\<close>: the nodes that wait for \<open>d\<close>, in the order of \<open>self.deps.items()\<close>.\<close>

definition dependents :: "'p graph \<Rightarrow> nat \<Rightarrow> nat list" where
  "dependents g d = map fst (filter (\<lambda>(n, ds). d \<in> ds) (g_deps g))"

text \<open>
  \<open>for nid in order\<close> iterates over a list it extends: \<open>order\<close> is the part visited and the
  part still to visit.  \<open>Counter.subtract\<close> takes one off each dependent's in-degree.
\<close>

definition subtract :: "(nat \<Rightarrow> int) \<Rightarrow> nat list \<Rightarrow> nat \<Rightarrow> int" where
  "subtract indeg xs = (\<lambda>i. indeg i - int (count_list xs i))"

lemma sum_nat_subtract:
  assumes "finite K" and "set xs \<subseteq> K"
  shows "length (filter (\<lambda>i. subtract indeg xs i = 0) xs)
      + (\<Sum>i\<in>K. nat (subtract indeg xs i)) \<le> (\<Sum>i\<in>K. nat (indeg i))"
proof -
  let ?z = "\<lambda>i. subtract indeg xs i = 0"
  have "length (filter ?z xs) = (\<Sum>i\<in>K. count_list (filter ?z xs) i)"
    by (subst sum_count_set [symmetric]) (use assms in \<open>auto intro!: sum_count_set\<close>)
  also have "\<dots> = (\<Sum>i\<in>K. if ?z i then count_list xs i else 0)"
    by (simp add: count_list_filter)
  finally have "length (filter ?z xs) = \<dots>" .
  moreover have "(if ?z i then count_list xs i else 0) + nat (subtract indeg xs i) \<le> nat (indeg i)"
    for i by (auto simp: subtract_def)
  ultimately show ?thesis
    by (simp add: sum.distrib [symmetric] sum_mono)
qed

function topo_loop :: "'p graph \<Rightarrow> (nat \<Rightarrow> int) \<Rightarrow> nat list \<Rightarrow> nat list \<Rightarrow> nat list" where
  "topo_loop g indeg seen [] = seen"
| "topo_loop g indeg seen (x # todo) =
    (let indeg' = subtract indeg (dependents g x)
     in topo_loop g indeg' (seen @ [x])
          (todo @ filter (\<lambda>i. indeg' i = 0) (dependents g x)))"
  by pat_completeness auto
termination
proof (relation "measure (\<lambda>(g, indeg, seen, todo).
    length todo + (\<Sum>i\<in>set (dict_keys (g_deps g)). nat (indeg i)))", goal_cases)
  case (2 g indeg seen x todo indeg')
  have "set (dependents g x) \<subseteq> set (dict_keys (g_deps g))"
    by (auto simp: dependents_def)
  with 2 show ?case
    using sum_nat_subtract [of "set (dict_keys (g_deps g))" "dependents g x" indeg] by simp
qed simp

text \<open>
  \<open>_cycle\<close> follows, from the least stuck node, the least stuck dependency, until a node
  repeats.  \<open>min\<close> of an empty set raises; \<open>None\<close> here.
\<close>

function cycle_walk :: "(nat \<Rightarrow> nat set) \<Rightarrow> nat list \<Rightarrow> nat list \<Rightarrow> nat \<Rightarrow> nat list option" where
  "cycle_walk ds stuck path i =
    (if i \<in> set path then Some (dropWhile (\<lambda>j. j \<noteq> i) path @ [i])
     else case filter (\<lambda>j. j \<in> ds i) stuck of
            [] \<Rightarrow> None
          | j # js \<Rightarrow> cycle_walk ds stuck (path @ [i]) (Min (set (j # js))))"
  by pat_completeness auto
termination
proof (relation "measure (\<lambda>(ds, stuck, path, i). card (insert i (set stuck) - set path))", goal_cases)
  case (2 ds stuck path i j js)
  have "Min (set (j # js)) \<in> set (j # js)"
    by (rule Min_in) auto
  moreover from 2 have "set (j # js) \<subseteq> set stuck"
    by (metis filter_is_subset)
  ultimately have "insert (Min (set (j # js))) (set stuck) - set (path @ [i])
      \<subset> insert i (set stuck) - set path"
    using 2(1) by auto
  then show ?case
    by (simp add: psubset_card_mono del: List.set_simps)
qed simp

declare cycle_walk.simps [simp del]

definition graph_cycle :: "(nat \<Rightarrow> nat set) \<Rightarrow> nat list \<Rightarrow> nat list option" where
  "graph_cycle ds stuck =
    (case stuck of [] \<Rightarrow> None | _ \<Rightarrow> cycle_walk ds stuck [] (Min (set stuck)))"

definition indegrees :: "'p graph \<Rightarrow> nat \<Rightarrow> int" where
  "indegrees g i = (if i \<in> set (node_ids g) then int (card (deps_of g i)) else 0)"

text \<open>The labels of a cycle, as the message names them.\<close>

definition cycle_labels :: "'p graph \<Rightarrow> nat list option \<Rightarrow> dag_error" where
  "cycle_labels g c =
    (case c of None \<Rightarrow> ValueError
     | Some is \<Rightarrow>
        (case those (map (\<lambda>i. map_option n_label (find_node g i)) is) of
           None \<Rightarrow> KeyError | Some ls \<Rightarrow> CycleError ls))"

definition topo_order :: "'p graph \<Rightarrow> dag_error + nat list" where
  "topo_order g =
    (let ids = dedup (node_ids g);
         order = topo_loop g (indegrees g) [] (filter (\<lambda>i. indegrees g i = 0) ids);
         keys = dedup (ids @ concat (map (dependents g) order));
         stuck = filter (\<lambda>i. i \<notin> set order) keys
     in rbind (rguard (\<forall>i\<in>set ids. i \<in> set (dict_keys (g_deps g))) KeyError) (\<lambda>_.
        rbind (rguard (\<forall>(i, ds)\<in>set (g_deps g). ds \<subseteq> set ids) KeyError) (\<lambda>_.
        if length order < length (g_nodes g)
        then Inl (cycle_labels g (graph_cycle (deps_of g) stuck))
        else Inr order)))"

subsection \<open>Well-formed graphs and Kahn's invariant\<close>

definition wf_graph :: "'p graph \<Rightarrow> bool" where
  "wf_graph g \<longleftrightarrow> distinct (node_ids g)
    \<and> dict_keys (g_deps g) = node_ids g \<and> dict_keys (g_hard g) = node_ids g
    \<and> (\<forall>i. deps_of g i \<subseteq> set (node_ids g)) \<and> (\<forall>i. hard_of g i \<subseteq> deps_of g i)"

text \<open>\<open>(d, i)\<close>: node \<open>i\<close> waits for node \<open>d\<close>.\<close>

definition waits_for :: "'p graph \<Rightarrow> (nat \<times> nat) set" where
  "waits_for g = {(d, i). d \<in> deps_of g i}"

definition dep_ordered :: "(nat \<Rightarrow> nat set) \<Rightarrow> nat list \<Rightarrow> bool" where
  "dep_ordered ds L \<longleftrightarrow> (\<forall>ys x zs. L = ys @ x # zs \<longrightarrow> ds x \<subseteq> set ys)"

lemma dep_orderedD: "dep_ordered ds L \<Longrightarrow> L = ys @ x # zs \<Longrightarrow> ds x \<subseteq> set ys"
  by (simp add: dep_ordered_def)

lemma dep_ordered_append:
  assumes "dep_ordered ds L" and "\<forall>x\<in>set M. ds x \<subseteq> set L"
  shows "dep_ordered ds (L @ M)"
  unfolding dep_ordered_def
proof (intro allI impI)
  fix ys x zs
  assume eq: "L @ M = ys @ x # zs"
  then consider us where "L = ys @ x # us" | us where "ys = L @ us" "M = us @ x # zs"
    by (auto simp: append_eq_append_conv2 append_eq_Cons_conv)
  then show "ds x \<subseteq> set ys"
    by cases (use assms in \<open>auto simp: dep_ordered_def\<close>)
qed

lemma wf_graph_finite_deps: "wf_graph g \<Longrightarrow> finite (deps_of g i)"
  unfolding wf_graph_def by (meson List.finite_set finite_subset)

lemma wf_graph_deps_outside: "wf_graph g \<Longrightarrow> i \<notin> set (node_ids g) \<Longrightarrow> deps_of g i = {}"
  by (metis deps_of_def map_of_eq_None_iff list.set_map option.simps(4) wf_graph_def)

lemma wf_graph_hard_deps: "wf_graph g \<Longrightarrow> d \<in> hard_of g i \<Longrightarrow> d \<in> deps_of g i"
  by (auto simp: wf_graph_def)

lemma wf_graph_dep_node: "wf_graph g \<Longrightarrow> d \<in> deps_of g i \<Longrightarrow> d \<in> set (node_ids g)"
  unfolding wf_graph_def by blast

lemma wf_dependents:
  assumes "wf_graph g"
  shows "distinct (dependents g d)" and "i \<in> set (dependents g d) \<longleftrightarrow> d \<in> deps_of g i"
proof -
  have keys: "distinct (dict_keys (g_deps g))" using assms unfolding wf_graph_def by metis
  then show "distinct (dependents g d)"
    unfolding dependents_def by (rule distinct_map_filter)
  have "i \<in> set (dependents g d) \<longleftrightarrow> (\<exists>ds. (i, ds) \<in> set (g_deps g) \<and> d \<in> ds)"
    by (force simp: dependents_def)
  also have "\<dots> \<longleftrightarrow> d \<in> deps_of g i"
  proof (cases "map_of (g_deps g) i")
    case None
    then have "(i, ds) \<notin> set (g_deps g)" for ds
      using weak_map_of_SomeI by fastforce
    then show ?thesis using None by (simp add: deps_of_def)
  next
    case (Some es)
    have "(i, ds) \<in> set (g_deps g) \<longleftrightarrow> ds = es" for ds
      using Some map_of_eq_Some_iff [OF keys, of i ds] by auto
    then show ?thesis using Some by (simp add: deps_of_def)
  qed
  finally show "i \<in> set (dependents g d) \<longleftrightarrow> d \<in> deps_of g i" .
qed

definition kahn_inv :: "'p graph \<Rightarrow> (nat \<Rightarrow> int) \<Rightarrow> nat list \<Rightarrow> nat list \<Rightarrow> bool" where
  "kahn_inv g indeg seen todo \<longleftrightarrow>
     distinct (seen @ todo)
   \<and> (\<forall>i. i \<in> set (seen @ todo) \<longleftrightarrow> i \<in> set (node_ids g) \<and> deps_of g i \<subseteq> set seen)
   \<and> (\<forall>i\<in>set (node_ids g). indeg i = int (card (deps_of g i - set seen)))
   \<and> dep_ordered (deps_of g) (seen @ todo)"

lemma kahn_inv_start:
  assumes "wf_graph g"
  shows "kahn_inv g (indegrees g) []
    (filter (\<lambda>i. indegrees g i = 0) (dedup (node_ids g)))"
proof -
  let ?L = "filter (\<lambda>i. indegrees g i = 0) (dedup (node_ids g))"
  have mem: "i \<in> set ?L \<longleftrightarrow> i \<in> set (node_ids g) \<and> deps_of g i = {}" for i
    using wf_graph_finite_deps [OF assms, of i] by (auto simp: indegrees_def)
  have "dep_ordered (deps_of g) ?L"
    unfolding dep_ordered_def
  proof (intro allI impI)
    fix ys x zs
    assume "?L = ys @ x # zs"
    then have "x \<in> set ?L" by (metis in_set_conv_decomp)
    then show "deps_of g x \<subseteq> set ys" using mem by simp
  qed
  then show ?thesis using mem by (simp add: kahn_inv_def indegrees_def del: set_filter)
qed

lemma kahn_inv_step:
  assumes wf: "wf_graph g" and inv: "kahn_inv g indeg seen (x # todo)"
  defines "indeg' \<equiv> subtract indeg (dependents g x)"
  shows "kahn_inv g indeg' (seen @ [x]) (todo @ filter (\<lambda>i. indeg' i = 0) (dependents g x))"
proof -
  note dep = wf_dependents [OF wf]
  have x: "x \<notin> set seen" using inv by (auto simp: kahn_inv_def)
  have count: "count_list (dependents g x) i = (if x \<in> deps_of g i then 1 else 0)" for i
    using dep by (simp add: count_list_distinct)
  have deg: "indeg' i = int (card (deps_of g i - set (seen @ [x])))"
    if "i \<in> set (node_ids g)" for i
  proof -
    let ?D = "deps_of g i - set seen"
    have "deps_of g i - set (seen @ [x]) = ?D - {x}" by auto
    moreover have "card ?D = card (?D - {x}) + (if x \<in> deps_of g i then 1 else 0)"
      using x wf_graph_finite_deps [OF wf, of i] card_Suc_Diff1 [of ?D x] by auto
    moreover have "indeg i = int (card ?D)" using inv that unfolding kahn_inv_def by blast
    ultimately show ?thesis by (simp add: indeg'_def subtract_def count)
  qed
  have ids: "set (dependents g x) \<subseteq> set (node_ids g)"
    using dep(2) wf_graph_deps_outside [OF wf] by fastforce
  have zero: "indeg' i = 0 \<longleftrightarrow> deps_of g i \<subseteq> set (seen @ [x])" if "i \<in> set (node_ids g)" for i
    using deg [OF that] wf_graph_finite_deps [OF wf, of i] by auto
  let ?new = "filter (\<lambda>i. indeg' i = 0) (dependents g x)"
  have new: "i \<in> set ?new \<longleftrightarrow> x \<in> deps_of g i \<and> deps_of g i \<subseteq> set (seen @ [x])" for i
  proof -
    have mem: "i \<in> set (dependents g x) \<Longrightarrow> i \<in> set (node_ids g)" using ids by blast
    show ?thesis using zero [of i] mem dep(2) [of i x]
      by (simp only: set_filter mem_Collect_eq) blast
  qed
  have old: "i \<in> set (seen @ x # todo) \<longleftrightarrow> i \<in> set (node_ids g) \<and> deps_of g i \<subseteq> set seen" for i
    using inv by (simp add: kahn_inv_def)
  have "distinct ((seen @ x # todo) @ ?new)"
  proof -
    have "set (seen @ x # todo) \<inter> set ?new = {}" using old new x by blast
    moreover have "distinct (seen @ x # todo)" using inv unfolding kahn_inv_def by blast
    moreover have "distinct ?new" using dep(1) by (rule distinct_filter)
    ultimately show ?thesis by (simp only: distinct_append)
  qed
  moreover have "i \<in> set ((seen @ x # todo) @ ?new)
      \<longleftrightarrow> i \<in> set (node_ids g) \<and> deps_of g i \<subseteq> set (seen @ [x])" for i
    using old [of i] new [of i] ids dep(2) by (auto simp: subset_iff)
  moreover have "dep_ordered (deps_of g) ((seen @ x # todo) @ ?new)"
  proof (rule dep_ordered_append)
    show "dep_ordered (deps_of g) (seen @ x # todo)" using inv unfolding kahn_inv_def by blast
    show "\<forall>i\<in>set ?new. deps_of g i \<subseteq> set (seen @ x # todo)" using new by fastforce
  qed
  ultimately show ?thesis using deg by (simp add: kahn_inv_def)
qed

lemma kahn_inv_loop:
  assumes "wf_graph g" and "kahn_inv g indeg seen todo"
  shows "\<exists>indeg'. kahn_inv g indeg' (topo_loop g indeg seen todo) []"
  using assms
proof (induction g indeg seen todo rule: topo_loop.induct)
  case (2 g indeg seen x todo)
  then show ?case using kahn_inv_step [OF 2(2,3)] by (simp add: Let_def)
qed auto

text \<open>What the sort leaves: every node whose dependencies were all placed, after them.\<close>

definition kahn_order :: "'p graph \<Rightarrow> nat list" where
  "kahn_order g = topo_loop g (indegrees g) [] (filter (\<lambda>i. indegrees g i = 0) (dedup (node_ids g)))"

lemma kahn_order_facts:
  assumes "wf_graph g"
  shows "distinct (kahn_order g)"
    and "i \<in> set (kahn_order g) \<longleftrightarrow> i \<in> set (node_ids g) \<and> deps_of g i \<subseteq> set (kahn_order g)"
    and "dep_ordered (deps_of g) (kahn_order g)"
proof -
  obtain indeg where inv: "kahn_inv g indeg (kahn_order g) []"
    using kahn_inv_loop [OF assms kahn_inv_start [OF assms]] unfolding kahn_order_def by blast
  show "distinct (kahn_order g)" and "dep_ordered (deps_of g) (kahn_order g)"
    using inv by (simp_all add: kahn_inv_def)
  show "i \<in> set (kahn_order g) \<longleftrightarrow> i \<in> set (node_ids g) \<and> deps_of g i \<subseteq> set (kahn_order g)"
    using inv unfolding kahn_inv_def append_Nil2 by blast
qed

subsection \<open>Cycles\<close>

text \<open>A cycle of waiting nodes: each waits for the next, and the last is the first.\<close>

definition dep_cycle :: "(nat \<Rightarrow> nat set) \<Rightarrow> nat list \<Rightarrow> bool" where
  "dep_cycle ds c \<longleftrightarrow> 2 \<le> length c \<and> hd c = last c \<and> successively (\<lambda>i j. j \<in> ds i) c"

lemma cycle_walk_finds:
  assumes "\<forall>i\<in>set stuck. ds i \<inter> set stuck \<noteq> {}"
    and "i \<in> set stuck" and "set path \<subseteq> set stuck"
    and "successively (\<lambda>i j. j \<in> ds i) (path @ [i])"
  shows "\<exists>c. cycle_walk ds stuck path i = Some c \<and> dep_cycle ds c \<and> set c \<subseteq> set stuck"
  using assms
proof (induction ds stuck path i rule: cycle_walk.induct)
  case (1 ds stuck path i)
  show ?case
  proof (cases "i \<in> set path")
    case True
    let ?c = "dropWhile (\<lambda>j. j \<noteq> i) path @ [i]"
    have ne: "dropWhile (\<lambda>j. j \<noteq> i) path \<noteq> []" using True by (simp add: dropWhile_eq_Nil_conv)
    then have "hd ?c = i" using hd_dropWhile [OF ne] by (simp add: hd_append)
    moreover have "2 \<le> length ?c" using ne by (cases "dropWhile (\<lambda>j. j \<noteq> i) path") auto
    moreover have "successively (\<lambda>i j. j \<in> ds i) (takeWhile (\<lambda>j. j \<noteq> i) path @ ?c)"
      using "1.prems"(4) by (simp only: append_assoc [symmetric] takeWhile_dropWhile_id)
    then have "successively (\<lambda>i j. j \<in> ds i) ?c"
      by (simp only: successively_append_iff)
    moreover have "set ?c \<subseteq> set stuck"
      using "1.prems"(2,3) set_dropWhileD [of _ "\<lambda>j. j \<noteq> i" path] by auto
    ultimately have "dep_cycle ds ?c" and "set ?c \<subseteq> set stuck"
      by (simp_all add: dep_cycle_def)
    moreover have "cycle_walk ds stuck path i = Some ?c"
      using True by (simp add: cycle_walk.simps)
    ultimately show ?thesis by blast
  next
    case False
    obtain j js where js: "filter (\<lambda>j. j \<in> ds i) stuck = j # js"
      using "1.prems"(1,2) by (cases "filter (\<lambda>j. j \<in> ds i) stuck") (auto simp: filter_empty_conv)
    let ?m = "Min (set (j # js))"
    have "?m \<in> set (j # js)" by (rule Min_in) auto
    then have m: "?m \<in> set stuck" "?m \<in> ds i"
      unfolding js [symmetric] by auto
    have "successively (\<lambda>i j. j \<in> ds i) ((path @ [i]) @ [?m])"
      using "1.prems"(4) m(2) by (simp add: successively_append_iff del: List.set_simps)
    moreover have "set (path @ [i]) \<subseteq> set stuck" using "1.prems"(2,3) by simp
    ultimately obtain c where "cycle_walk ds stuck (path @ [i]) ?m = Some c"
      and "dep_cycle ds c \<and> set c \<subseteq> set stuck"
      using "1.IH" [OF False js "1.prems"(1) m(1)] by blast
    then show ?thesis using False js by (subst cycle_walk.simps) simp
  qed
qed

lemma dep_cycle_trancl:
  assumes "successively (\<lambda>i j. j \<in> ds i) (a # b # c)"
  shows "(last (b # c), a) \<in> {(d, i). d \<in> ds i}\<^sup>+"
  using assms
proof (induction c arbitrary: a b)
  case (Cons x c)
  have "(last (x # c), b) \<in> {(d, i). d \<in> ds i}\<^sup>+" using Cons.prems by (intro Cons.IH) simp
  moreover have "(b, a) \<in> {(d, i). d \<in> ds i}" using Cons.prems by simp
  ultimately show ?case by (simp add: trancl_into_trancl)
qed auto

lemma dep_cycle_not_acyclic: "dep_cycle (deps_of g) c \<Longrightarrow> \<not> acyclic (waits_for g)"
proof -
  assume c: "dep_cycle (deps_of g) c"
  then obtain a b cs where eq: "c = a # b # cs"
    unfolding dep_cycle_def by (metis Suc_le_length_iff numeral_2_eq_2)
  have "successively (\<lambda>i j. j \<in> deps_of g i) (a # b # cs)"
    using c eq unfolding dep_cycle_def by blast
  from dep_cycle_trancl [OF this] have "(last (b # cs), a) \<in> (waits_for g)\<^sup>+"
    by (simp only: waits_for_def)
  moreover have "last (b # cs) = a" using c eq by (simp add: dep_cycle_def split: if_splits)
  ultimately show ?thesis unfolding acyclic_def by metis
qed

lemma dep_ordered_trancl:
  assumes "dep_ordered (deps_of g) L" and "(d, x) \<in> (waits_for g)\<^sup>+" and "L = ys @ x # zs"
  shows "d \<in> set ys"
  using assms(2)
proof (induction rule: converse_trancl_induct)
  case (base d)
  then show ?case using assms(1,3) unfolding dep_ordered_def waits_for_def by blast
next
  case (step d e)
  then obtain us vs where "ys = us @ e # vs" by (meson split_list)
  moreover from this have "deps_of g e \<subseteq> set us"
    using assms(1,3) unfolding dep_ordered_def by fastforce
  ultimately show ?case using step(1) by (auto simp: waits_for_def)
qed

lemma dep_ordered_acyclic:
  assumes "distinct L" and "dep_ordered (deps_of g) L" and "\<forall>i. i \<notin> set L \<longrightarrow> deps_of g i = {}"
  shows "acyclic (waits_for g)"
  unfolding acyclic_def
proof (intro allI notI)
  fix x assume x: "(x, x) \<in> (waits_for g)\<^sup>+"
  then obtain d where "d \<in> deps_of g x" unfolding waits_for_def by (induction rule: trancl_induct) auto
  then have "x \<in> set L" using assms(3) by blast
  then obtain ys zs where "L = ys @ x # zs" by (meson split_list)
  with dep_ordered_trancl [OF assms(2) x] assms(1) show False by auto
qed

subsection \<open>What topo\_order returns\<close>

lemma wf_graph_entry:
  assumes "wf_graph g" and "(i, ds) \<in> set (g_deps g)"
  shows "ds = deps_of g i"
proof -
  have "distinct (dict_keys (g_deps g))" using assms(1) unfolding wf_graph_def by metis
  then have "map_of (g_deps g) i = Some ds" using assms(2) by (rule map_of_is_SomeI)
  then show ?thesis by (simp add: deps_of_def)
qed

lemma topo_order_wf:
  assumes "wf_graph g"
  shows "topo_order g =
    (if length (kahn_order g) < length (g_nodes g)
     then Inl (cycle_labels g (graph_cycle (deps_of g)
       (filter (\<lambda>i. i \<notin> set (kahn_order g))
         (dedup (dedup (node_ids g) @ concat (map (dependents g) (kahn_order g)))))))
     else Inr (kahn_order g))"
proof -
  have 1: "\<forall>i\<in>set (dedup (node_ids g)). i \<in> set (dict_keys (g_deps g))"
    using assms unfolding wf_graph_def set_dedup by metis
  have 2: "\<forall>(i, ds)\<in>set (g_deps g). ds \<subseteq> set (dedup (node_ids g))"
    using wf_graph_entry [OF assms] assms unfolding wf_graph_def set_dedup by blast
  show ?thesis
    unfolding topo_order_def Let_def kahn_order_def [symmetric]
      rguard_pass [OF 1] rguard_pass [OF 2] rbind_simps ..
qed

lemma kahn_order_complete:
  assumes "wf_graph g"
  shows "length (kahn_order g) < length (g_nodes g) \<longleftrightarrow> set (kahn_order g) \<noteq> set (node_ids g)"
proof -
  have sub: "set (kahn_order g) \<subseteq> set (node_ids g)"
    using kahn_order_facts(2) [OF assms] by blast
  have "length (kahn_order g) = card (set (kahn_order g))"
    using kahn_order_facts(1) [OF assms] by (simp add: distinct_card)
  moreover have "length (g_nodes g) = card (set (node_ids g))"
    using assms distinct_card [of "node_ids g"] unfolding wf_graph_def by simp
  ultimately show ?thesis
    using sub card_subset_eq [of "set (node_ids g)" "set (kahn_order g)"]
      psubset_card_mono [of "set (node_ids g)" "set (kahn_order g)"] by (auto simp del: set_map)
qed

lemma topo_order_Inr:
  assumes "wf_graph g" and "topo_order g = Inr order"
  shows "distinct order" and "set order = set (node_ids g)" and "dep_ordered (deps_of g) order"
proof -
  have "order = kahn_order g" and full: "\<not> length (kahn_order g) < length (g_nodes g)"
    using assms(2) unfolding topo_order_wf [OF assms(1)] by (simp_all split: if_splits)
  then show "distinct order" and "dep_ordered (deps_of g) order"
    using kahn_order_facts [OF assms(1)] by simp_all
  show "set order = set (node_ids g)"
    using kahn_order_complete [OF assms(1)] full \<open>order = kahn_order g\<close> by blast
qed

lemma find_node_id:
  "i \<in> set (node_ids g) \<Longrightarrow> \<exists>n. find_node g i = Some n \<and> n \<in> set (g_nodes g) \<and> nid n = i"
  unfolding find_node_def
  by (cases "find (\<lambda>n. nid n = i) (g_nodes g)")
    (auto simp: find_None_iff find_Some_iff)

lemma topo_order_Inl:
  assumes wf: "wf_graph g" and "topo_order g = Inl e"
  shows "\<exists>is. dep_cycle (deps_of g) is \<and> set is \<subseteq> set (node_ids g)
    \<and> e = CycleError (map (\<lambda>i. n_label (the (find_node g i))) is)"
proof -
  let ?keys = "dedup (dedup (node_ids g) @ concat (map (dependents g) (kahn_order g)))"
  let ?stuck = "filter (\<lambda>i. i \<notin> set (kahn_order g)) ?keys"
  have short: "length (kahn_order g) < length (g_nodes g)"
    and e: "e = cycle_labels g (graph_cycle (deps_of g) ?stuck)"
    using assms(2) unfolding topo_order_wf [OF wf] by (simp_all split: if_splits)
  have "set (dependents g d) \<subseteq> set (node_ids g)" for d
    using wf_dependents(2) [OF wf] wf_graph_deps_outside [OF wf] by blast
  then have keys: "set ?keys = set (node_ids g)" by auto
  then have stuck: "i \<in> set ?stuck \<longleftrightarrow> i \<in> set (node_ids g) \<and> i \<notin> set (kahn_order g)" for i
    by (simp only: set_filter mem_Collect_eq)
  have waits: "\<forall>i\<in>set ?stuck. deps_of g i \<inter> set ?stuck \<noteq> {}"
    using stuck kahn_order_facts(2) [OF wf] wf_graph_dep_node [OF wf] by blast
  obtain i where "i \<in> set (node_ids g)" "i \<notin> set (kahn_order g)"
    using short kahn_order_complete [OF wf] kahn_order_facts(2) [OF wf] by blast
  then have "i \<in> set ?stuck" using stuck by blast
  then have ne: "?stuck \<noteq> []" by (metis empty_iff list.set(1))
  then have "Min (set ?stuck) \<in> set ?stuck" by (intro Min_in List.finite_set) (simp only: set_empty not_False_eq_True)
  with waits obtain c where c: "cycle_walk (deps_of g) ?stuck [] (Min (set ?stuck)) = Some c"
    and cyc: "dep_cycle (deps_of g) c" and sub: "set c \<subseteq> set ?stuck"
    using cycle_walk_finds [of ?stuck "deps_of g" _ "[]"] by (metis empty_subsetI list.set(1) append_Nil successively.simps(2))
  have "graph_cycle (deps_of g) ?stuck = Some c"
    using ne c unfolding graph_cycle_def by (cases ?stuck) simp_all
  moreover have nodes: "set c \<subseteq> set (node_ids g)" using sub stuck by blast
  have "map (\<lambda>i. map_option n_label (find_node g i)) c
      = map Some (map (\<lambda>i. n_label (the (find_node g i))) c)"
    using nodes find_node_id by (fastforce simp del: set_map)
  then have "those (map (\<lambda>i. map_option n_label (find_node g i)) c)
      = Some (map (\<lambda>i. n_label (the (find_node g i))) c)"
    by (simp only: those_map_Some)
  ultimately have "e = CycleError (map (\<lambda>i. n_label (the (find_node g i))) c)"
    unfolding e cycle_labels_def by simp
  with cyc nodes show ?thesis by blast
qed

lemma topo_order_iff_acyclic:
  assumes "wf_graph g"
  shows "(\<exists>order. topo_order g = Inr order) \<longleftrightarrow> acyclic (waits_for g)"
proof
  assume "\<exists>order. topo_order g = Inr order"
  then obtain order where "topo_order g = Inr order" by blast
  note order = topo_order_Inr [OF assms this]
  show "acyclic (waits_for g)"
    using dep_ordered_acyclic [OF order(1,3)] order(2) wf_graph_deps_outside [OF assms] by blast
next
  assume "acyclic (waits_for g)"
  then have "topo_order g \<noteq> Inl e" for e
    using topo_order_Inl [OF assms, of e] dep_cycle_not_acyclic by blast
  then show "\<exists>order. topo_order g = Inr order" by (metis sum.exhaust)
qed

subsection \<open>GraphBuilder\<close>

record 'p builder =
  b_nodes :: "'p node list"
  b_soft :: "nat set list"
  b_hard :: "nat set list"

definition empty_builder :: "'p builder" where
  "empty_builder = \<lparr>b_nodes = [], b_soft = [], b_hard = []\<rparr>"

definition builder_len :: "'p builder \<Rightarrow> nat" where
  "builder_len b = length (b_nodes b)"

definition builder_get :: "'p builder \<Rightarrow> nat \<Rightarrow> dag_error + 'p node" where
  "builder_get b i = (if i < length (b_nodes b) then Inr (b_nodes b ! i) else Inl IndexError)"

definition builder_add ::
  "string \<Rightarrow> string \<Rightarrow> 'p \<Rightarrow> nat set \<Rightarrow> nat set \<Rightarrow> on_failure \<Rightarrow> bool \<Rightarrow> real \<Rightarrow> node_override option
    \<Rightarrow> 'p builder \<Rightarrow> nat \<times> 'p builder" where
  "builder_add label grp payload soft hard onf optional delay ov b =
    (let i = length (b_nodes b) in
     (i, b\<lparr>b_nodes := b_nodes b @
              [\<lparr>nid = i, n_label = label, n_group = grp, n_payload = payload, n_on_failure = onf,
                n_optional = optional, n_delay_s = delay, n_override = ov\<rparr>],
          b_soft := b_soft b @ [soft],
          b_hard := b_hard b @ [hard]\<rparr>))"

definition builder_require :: "nat \<Rightarrow> nat set \<Rightarrow> 'p builder \<Rightarrow> dag_error + 'p builder" where
  "builder_require i ds b =
    (if i < length (b_hard b) then Inr (b\<lparr>b_hard := (b_hard b)[i := b_hard b ! i \<union> ds]\<rparr>)
     else Inl IndexError)"

definition builder_order :: "nat \<Rightarrow> nat set \<Rightarrow> 'p builder \<Rightarrow> dag_error + 'p builder" where
  "builder_order i ds b =
    (if i < length (b_soft b) then Inr (b\<lparr>b_soft := (b_soft b)[i := b_soft b ! i \<union> ds]\<rparr>)
     else Inl IndexError)"

definition frozen :: "'p builder \<Rightarrow> 'p graph" where
  "frozen b =
    \<lparr>g_nodes = b_nodes b,
     g_deps = map (\<lambda>i. (i, b_soft b ! i \<union> b_hard b ! i)) [0..<length (b_nodes b)],
     g_hard = map (\<lambda>i. (i, b_hard b ! i)) [0..<length (b_nodes b)]\<rparr>"

definition build :: "'p builder \<Rightarrow> dag_error + 'p graph" where
  "build b = rbind (topo_order (frozen b)) (\<lambda>_. Inr (frozen b))"

text \<open>Ids are positions, and the three lists stay parallel.\<close>

definition wf_builder :: "'p builder \<Rightarrow> bool" where
  "wf_builder b \<longleftrightarrow> length (b_soft b) = length (b_nodes b) \<and> length (b_hard b) = length (b_nodes b)
    \<and> map nid (b_nodes b) = [0..<length (b_nodes b)]"

lemma wf_builder_empty [simp]: "wf_builder empty_builder"
  by (simp add: wf_builder_def empty_builder_def)

lemma wf_builder_add:
  "wf_builder b \<Longrightarrow> builder_add label grp payload soft hard onf optional delay ov b = (i, b')
    \<Longrightarrow> wf_builder b' \<and> i = length (b_nodes b) \<and> length (b_nodes b') = Suc (length (b_nodes b))"
  by (auto simp: wf_builder_def builder_add_def Let_def)

lemma wf_builder_require: "wf_builder b \<Longrightarrow> builder_require i ds b = Inr b' \<Longrightarrow> wf_builder b'"
  by (auto simp: wf_builder_def builder_require_def split: if_splits)

lemma wf_builder_order: "wf_builder b \<Longrightarrow> builder_order i ds b = Inr b' \<Longrightarrow> wf_builder b'"
  by (auto simp: wf_builder_def builder_order_def split: if_splits)

lemma map_of_upt [simp]:
  "map_of (map (\<lambda>i. (i, f i)) [0..<n]) k = (if k < n then Some (f k) else None)"
  by (simp add: map_of_map_keys [symmetric] map_of_eq_None_iff) (auto simp: map_of_map_restrict restrict_map_def)

lemma frozen_deps:
  "deps_of (frozen b) i = (if i < length (b_nodes b) then b_soft b ! i \<union> b_hard b ! i else {})"
  by (simp add: deps_of_def frozen_def)

lemma frozen_hard:
  "hard_of (frozen b) i = (if i < length (b_nodes b) then b_hard b ! i else {})"
  by (simp add: hard_of_def frozen_def)

lemma topo_order_known_deps:
  assumes "topo_order g = Inr order" and "(i, ds) \<in> set (g_deps g)"
  shows "ds \<subseteq> set (node_ids g)"
  using assms by (auto simp: topo_order_def Let_def rbind_Inr_iff split: if_splits)

lemma build_wf:
  assumes "wf_builder b" and "build b = Inr g"
  shows "g = frozen b" and "wf_graph g" and "\<exists>order. topo_order g = Inr order"
proof -
  show g: "g = frozen b" and topo: "\<exists>order. topo_order g = Inr order"
    using assms(2) by (auto simp: build_def rbind_Inr_iff)
  then obtain order where order: "topo_order (frozen b) = Inr order" by blast
  have ids: "node_ids (frozen b) = [0..<length (b_nodes b)]"
    using assms(1) by (simp add: wf_builder_def frozen_def)
  have "deps_of (frozen b) i \<subseteq> set (node_ids (frozen b))" for i
  proof (cases "i < length (b_nodes b)")
    case True
    then have "(i, b_soft b ! i \<union> b_hard b ! i) \<in> set (g_deps (frozen b))"
      by (simp add: frozen_def)
    then show ?thesis using topo_order_known_deps [OF order] True by (simp only: frozen_deps if_True)
  qed (simp add: frozen_deps)
  moreover have "hard_of (frozen b) i \<subseteq> deps_of (frozen b) i" for i
    by (simp add: frozen_deps frozen_hard)
  moreover have "dict_keys (g_deps (frozen b)) = node_ids (frozen b)"
    and "dict_keys (g_hard (frozen b)) = node_ids (frozen b)"
    unfolding ids by (simp_all add: frozen_def comp_def)
  moreover have "distinct (node_ids (frozen b))" unfolding ids by simp
  ultimately show "wf_graph g" unfolding g wf_graph_def by blast
qed

subsection \<open>The contract a runner needs of its graph\<close>

text \<open>
  The runner's progress rests on two facts about the graph: it is well formed, and in every
  non-empty set of its nodes some node waits for none of the others.  \<open>GraphBuilder.build\<close>
  provides both.
\<close>

locale graph_source =
  fixes yields :: "'p graph \<Rightarrow> bool"
  assumes yields_wf: "yields g \<Longrightarrow> wf_graph g"
    and yields_order: "yields g \<Longrightarrow> \<exists>order. topo_order g = Inr order"
begin

lemma first_unblocked:
  assumes "yields g" and "P \<noteq> {}" and "P \<subseteq> set (node_ids g)"
  shows "\<exists>i\<in>P. deps_of g i \<inter> P = {}"
proof -
  obtain order where "topo_order g = Inr order" using yields_order [OF assms(1)] by blast
  note order = topo_order_Inr [OF yields_wf [OF assms(1)] this]
  have "\<exists>x\<in>set order. x \<in> P" using assms(2,3) order(2) by blast
  from split_list_first_prop [OF this]
  obtain ys x zs where eq: "order = ys @ x # zs" and "x \<in> P" "\<forall>y\<in>set ys. y \<notin> P" by blast
  have "deps_of g x \<subseteq> set ys"
    using order(3) eq by (rule dep_orderedD)
  then have "deps_of g x \<inter> P = {}" using \<open>\<forall>y\<in>set ys. y \<notin> P\<close> by blast
  with \<open>x \<in> P\<close> show ?thesis by blast
qed

end

definition built_graph :: "'p graph \<Rightarrow> bool" where
  "built_graph g \<longleftrightarrow> (\<exists>b. wf_builder b \<and> build b = Inr g)"

lemma built_graph_facts:
  assumes "built_graph g"
  shows "wf_graph g" and "\<exists>order. topo_order g = Inr order"
  using assms build_wf unfolding built_graph_def by blast+

interpretation built: graph_source built_graph
  by (rule graph_source.intro) (erule built_graph_facts)+

subsection \<open>Graph.format\<close>

text \<open>\<open>level[d]\<close> of an unplaced dependency raises; \<open>max\<close> of nothing is \<open>-1\<close>, so a root is at 0.\<close>

fun place_levels :: "(nat \<Rightarrow> nat set) \<Rightarrow> nat list \<Rightarrow> (nat, nat) dict \<Rightarrow> dag_error + (nat, nat) dict" where
  "place_levels ds [] lvl = Inr lvl"
| "place_levels ds (i # is) lvl =
    rbind (rguard (ds i \<subseteq> set (dict_keys lvl)) KeyError) (\<lambda>_.
      place_levels ds is
        (dict_set i (if ds i = {} then 0 else 1 + Max ((\<lambda>d. the (map_of lvl d)) ` ds i)) lvl))"

fun on_failure_str :: "on_failure \<Rightarrow> string" where
  "on_failure_str Stop = ''stop''"
| "on_failure_str Skip = ''skip''"
| "on_failure_str Continue = ''continue''"

fun outcome_str :: "override_outcome \<Rightarrow> string" where
  "outcome_str OvOk = ''ok''"
| "outcome_str OvSkipped = ''skipped''"

definition node_marks :: "on_failure \<Rightarrow> 'p node \<Rightarrow> string" where
  "node_marks dflt n =
    (case n_override n of
       Some ov \<Rightarrow> ''  (override '' @ outcome_str (ov_outcome ov) @ '': '' @ ov_reason ov @ '')''
     | None \<Rightarrow>
        (let flags = (if n_on_failure n \<noteq> dflt then [on_failure_str (n_on_failure n)] else [])
                   @ (if n_optional n then [''optional''] else [])
         in if flags \<noteq> [] then ''  ('' @ join '', '' flags @ '')'' else ''''))"

definition level_lines :: "on_failure \<Rightarrow> 'p node list \<Rightarrow> string list" where
  "level_lines dflt ns =
    (''['' @ join '' + '' (dedup (map n_group ns)) @ '']'')
    # map (\<lambda>n. ''    '' @ n_label n @ node_marks dflt n) ns"

definition graph_levels :: "'p graph \<Rightarrow> dag_error + (nat, nat) dict" where
  "graph_levels g = rbind (topo_order g) (\<lambda>order. place_levels (deps_of g) order [])"

definition format_graph :: "'p graph \<Rightarrow> dag_error + string" where
  "format_graph g =
    rbind (graph_levels g) (\<lambda>lvl.
      let groups = group_by (\<lambda>n. the (map_of lvl (nid n))) (g_nodes g) [];
          policies = map n_on_failure (g_nodes g);
          dflt = (case most_common policies (dedup policies) of Some p \<Rightarrow> p | None \<Rightarrow> Stop)
      in Inr (join newline
        ((''on_failure: '' @ on_failure_str dflt)
         # concat (map (\<lambda>l. level_lines dflt (the (map_of groups l)))
             (sort (dict_keys groups))))))"

lemma place_levels_facts:
  assumes "dep_ordered ds (ys @ is)" and "distinct (ys @ is)"
    and "set (dict_keys lvl) = set ys"
    and "\<forall>i\<in>set ys. the (map_of lvl i) =
      (if ds i = {} then 0 else 1 + Max ((\<lambda>d. the (map_of lvl d)) ` ds i))"
  shows "\<exists>lvl'. place_levels ds is lvl = Inr lvl' \<and> set (dict_keys lvl') = set (ys @ is)
    \<and> (\<forall>i\<in>set (ys @ is). the (map_of lvl' i) =
      (if ds i = {} then 0 else 1 + Max ((\<lambda>d. the (map_of lvl' d)) ` ds i)))"
  using assms
proof (induction "is" arbitrary: ys lvl)
  case (Cons i "is")
  let ?v = "if ds i = {} then 0 else 1 + Max ((\<lambda>d. the (map_of lvl d)) ` ds i)"
  let ?lvl = "dict_set i ?v lvl"
  have sub: "ds i \<subseteq> set ys" using dep_orderedD [OF Cons.prems(1)] by blast
  have fresh: "i \<notin> set ys" using Cons.prems(2) by simp
  have same: "(\<lambda>d. the (map_of ?lvl d)) ` ds j = (\<lambda>d. the (map_of lvl d)) ` ds j"
    if "j \<in> set (ys @ [i])" for j
  proof -
    have "ds j \<subseteq> set ys"
    proof (cases "j = i")
      case False
      with that obtain us vs where "ys = us @ j # vs" by (auto dest: split_list)
      then show ?thesis using dep_orderedD [OF Cons.prems(1), of us j "vs @ i # is"] by auto
    qed (use sub in simp)
    with fresh have "i \<notin> ds j" by blast
    then show ?thesis by (intro image_cong) auto
  qed
  have "\<forall>j\<in>set (ys @ [i]). the (map_of ?lvl j) =
      (if ds j = {} then 0 else 1 + Max ((\<lambda>d. the (map_of ?lvl d)) ` ds j))"
  proof
    fix j assume j: "j \<in> set (ys @ [i])"
    show "the (map_of ?lvl j) = (if ds j = {} then 0 else 1 + Max ((\<lambda>d. the (map_of ?lvl d)) ` ds j))"
      unfolding same [OF j] using j Cons.prems(4) fresh by (cases "j = i") simp_all
  qed
  moreover have "set (dict_keys ?lvl) = set (ys @ [i])"
    using Cons.prems(3) unfolding dict_keys_set by simp
  ultimately obtain lvl' where "place_levels ds is ?lvl = Inr lvl'"
    and "set (dict_keys lvl') = set ((ys @ [i]) @ is)"
    and "\<forall>j\<in>set ((ys @ [i]) @ is). the (map_of lvl' j) =
      (if ds j = {} then 0 else 1 + Max ((\<lambda>d. the (map_of lvl' d)) ` ds j))"
    using Cons.IH [of "ys @ [i]" ?lvl] Cons.prems(1,2) by (auto simp del: list.set_map set_map)
  moreover have "place_levels ds (i # is) lvl = place_levels ds is ?lvl"
    using sub Cons.prems(3) by (simp add: rguard_pass del: list.set_map set_map)
  ultimately show ?case by (intro exI [of _ lvl']) (simp del: list.set_map set_map)
qed auto

subsection \<open>Properties\<close>

text \<open>C7. \<open>Graph.topo_order\<close> on a well-formed graph either lists every node once with each
  dependency before its dependents, or fails by naming, with the nodes' labels, a real cycle
  of nodes that wait for each other.\<close>

theorem topo_order_correct:
  assumes "wf_graph g"
  shows "case topo_order g of
      Inr order \<Rightarrow> distinct order \<and> set order = set (node_ids g) \<and> dep_ordered (deps_of g) order
    | Inl e \<Rightarrow> (\<exists>c. dep_cycle (deps_of g) c \<and> set c \<subseteq> set (node_ids g)
        \<and> e = CycleError (map (\<lambda>i. n_label (the (find_node g i))) c))"
  using topo_order_Inr [OF assms] topo_order_Inl [OF assms] by (auto split: sum.split)

text \<open>C22. What \<open>GraphBuilder.build\<close> returns is well formed and acyclic, keeps the nodes added,
  orders each node after its soft and its hard dependencies and keeps the hard ones apart; it
  refuses exactly the builders with an unknown dependency or a cycle.\<close>

theorem build_correct:
  assumes "wf_builder b"
  shows "(\<forall>g. build b = Inr g \<longrightarrow> wf_graph g \<and> acyclic (waits_for g) \<and> g_nodes g = b_nodes b
      \<and> (\<forall>i<length (b_nodes b). deps_of g i = b_soft b ! i \<union> b_hard b ! i \<and> hard_of g i = b_hard b ! i))
    \<and> ((\<exists>g. build b = Inr g) \<longleftrightarrow> wf_graph (frozen b) \<and> acyclic (waits_for (frozen b)))"
proof (intro conjI allI impI)
  fix g assume "build b = Inr g"
  note built = build_wf [OF assms this]
  show "wf_graph g" by (rule built)
  show "acyclic (waits_for g)" using built topo_order_iff_acyclic by blast
  show "g_nodes g = b_nodes b" unfolding built(1) by (simp add: frozen_def)
  fix i assume "i < length (b_nodes b)"
  then show "deps_of g i = b_soft b ! i \<union> b_hard b ! i" and "hard_of g i = b_hard b ! i"
    unfolding built(1) by (simp_all add: frozen_deps frozen_hard)
next
  have "(\<exists>g. build b = Inr g) \<longleftrightarrow> (\<exists>order. topo_order (frozen b) = Inr order)"
    by (auto simp: build_def rbind_Inr_iff)
  then show "(\<exists>g. build b = Inr g) \<longleftrightarrow> wf_graph (frozen b) \<and> acyclic (waits_for (frozen b))"
    using build_wf [OF assms] topo_order_iff_acyclic [of "frozen b"] by metis
qed

text \<open>\<open>Graph.format\<close> never fails on an acyclic graph, and its level of a node is zero
  without dependencies and one more than its deepest dependency otherwise, so every dependency
  stands on a strictly earlier level.\<close>

theorem format_levels:
  assumes "wf_graph g" and "acyclic (waits_for g)"
  shows "\<exists>lvl text. graph_levels g = Inr lvl \<and> format_graph g = Inr text
    \<and> (\<forall>i\<in>set (node_ids g). the (map_of lvl i) =
        (if deps_of g i = {} then 0 else 1 + Max ((\<lambda>d. the (map_of lvl d)) ` deps_of g i))
      \<and> (\<forall>d\<in>deps_of g i. the (map_of lvl d) < the (map_of lvl i)))"
proof -
  obtain order where topo: "topo_order g = Inr order"
    using assms topo_order_iff_acyclic by blast
  note order = topo_order_Inr [OF assms(1) topo]
  obtain lvl where lvl: "place_levels (deps_of g) order [] = Inr lvl"
    and level: "\<forall>i\<in>set (node_ids g). the (map_of lvl i) =
      (if deps_of g i = {} then 0 else 1 + Max ((\<lambda>d. the (map_of lvl d)) ` deps_of g i))"
    using place_levels_facts [of "deps_of g" "[]" order "[]"] order by (auto simp del: set_map list.set_map)
  have "the (map_of lvl d) < the (map_of lvl i)" if "i \<in> set (node_ids g)" "d \<in> deps_of g i" for i d
  proof -
    have "the (map_of lvl d) \<le> Max ((\<lambda>d. the (map_of lvl d)) ` deps_of g i)"
      using that(2) wf_graph_finite_deps [OF assms(1)] by simp
    then show ?thesis using bspec [OF level that(1)] that(2) by auto
  qed
  moreover have "graph_levels g = Inr lvl" using topo lvl by (simp add: graph_levels_def)
  ultimately show ?thesis using level by (auto simp: format_graph_def Let_def simp del: set_map list.set_map)
qed

subsection \<open>A concrete graph\<close>

definition demo_builder :: "unit builder" where
  "demo_builder =
    snd (builder_add ''c'' ''g'' () {0} {1} Skip True 0 None
      (snd (builder_add ''b'' ''g'' () {} {0} Continue False 0 None
        (snd (builder_add ''a'' ''f'' () {} {} Stop False 0 None empty_builder)))))"

lemma demo_builder_wf: "wf_builder demo_builder"
  by (simp add: demo_builder_def wf_builder_def builder_add_def empty_builder_def Let_def upt_rec)

lemma demo_builder_builds: "\<exists>g. build demo_builder = Inr g"
  by (simp add: demo_builder_def builder_add_def empty_builder_def Let_def build_def topo_order_def
      frozen_def upt_rec rbind_Inr_iff indegrees_def deps_of_def dedup_def dependents_def subtract_def
      rguard_def)

lemma demo_builder_frozen: "wf_graph (frozen demo_builder) \<and> acyclic (waits_for (frozen demo_builder))"
  using demo_builder_wf demo_builder_builds build_wf topo_order_iff_acyclic by blast

theorem topo_order_correct_witness: "\<exists>order. topo_order (frozen demo_builder) = Inr order
    \<and> distinct order \<and> set order = set (node_ids (frozen demo_builder))"
proof -
  obtain order where "topo_order (frozen demo_builder) = Inr order"
    using demo_builder_frozen topo_order_iff_acyclic by blast
  then show ?thesis using topo_order_correct [of "frozen demo_builder"] demo_builder_frozen by simp
qed

theorem build_correct_witness: "\<exists>g. build demo_builder = Inr g \<and> wf_graph g \<and> deps_of g 2 = {0, 1}"
proof -
  obtain g where g: "build demo_builder = Inr g" using demo_builder_builds by blast
  have "deps_of g 2 = b_soft demo_builder ! 2 \<union> b_hard demo_builder ! 2 \<and> wf_graph g"
    using build_correct [OF demo_builder_wf] g
    by (simp add: demo_builder_def builder_add_def empty_builder_def Let_def)
  then show ?thesis using g by (auto simp: demo_builder_def builder_add_def empty_builder_def Let_def)
qed

theorem format_levels_witness: "\<exists>lvl. graph_levels (frozen demo_builder) = Inr lvl
    \<and> the (map_of lvl 0) < the (map_of lvl 2)"
proof -
  have "2 \<in> set (node_ids (frozen demo_builder))" and "0 \<in> deps_of (frozen demo_builder) 2"
    by (simp_all add: frozen_deps) (simp_all add: frozen_def demo_builder_def builder_add_def
      empty_builder_def Let_def)
  then show ?thesis
    using format_levels [of "frozen demo_builder"] demo_builder_frozen by blast
qed

end
