(* ===== verification/Sensor_Topology.thy ===== *)
theory Sensor_Topology
  imports Kit_Prelude "HOL-Library.Sublist" "HOL-Library.List_Lexorder" "HOL-Library.Char_ord"
    "HOL-Library.Multiset"
begin

section \<open>Sensor structures and their indexes (core/src/sensorkit/sensor/topology.py)\<close>

text \<open>
  The authored structure of a sensor is a tree of devices, units and selectors with ports.
  \<open>Topology\<close> walks it once, refusing a device placed twice and siblings with one path
  segment, and keeps four dicts: records, chains, selector ports and claimed keys.  The
  walk is modelled statement by statement (\<open>visit\<close>, \<open>descend\<close>, \<open>visit_ports\<close>, \<open>scan\<close>,
  \<open>claim\<close>).  \<open>located\<close> lists, without state, what the walk should find; the two are proved
  equal, and the rest of the theory reasons about the listing: chains and required ports are
  determined by paths alone.
\<close>

subsection \<open>The authored records\<close>

type_synonym structure_path = "string list"

record placement =
  pl_device :: string
  pl_path :: structure_path

definition depth :: "placement \<Rightarrow> nat" where
  "depth p = length (pl_path p)"

definition path_str :: "structure_path \<Rightarrow> string" where
  "path_str path = (let s = join ''/'' path in if s = [] then ''<root>'' else s)"

record device =
  dev_key :: string
  dev_traits :: "string list"
  dev_tags :: "string list"
  dev_instrument :: bool

definition placement_at :: "device \<Rightarrow> structure_path \<Rightarrow> placement" where
  "placement_at d path =
    \<lparr>pl_device = dev_key d, pl_path = (if dev_instrument d then path @ [dev_key d] else path)\<rparr>"

datatype component =
    Device device
  | Unit string "component list"
  | Selector (sel_key: string) (sel_ports: "port list") (sel_traits: "string list") (sel_tags: "string list")
and port =
    Port (port_name: string) (port_components: "component list")

definition format_paths :: "placement list \<Rightarrow> string" where
  "format_paths ps =
    (let s = join '', '' (map (\<lambda>p. path_str (pl_path p)) ps) in if s = [] then ''<no instrument>'' else s)"

datatype topology_error =
    PlacedTwice string string string
  | NamedTwice string "string list"
  | NoPlacement

subsection \<open>The walk\<close>

record tables =
  t_records :: "(placement, component) dict"
  t_chains :: "(placement, placement list) dict"
  t_ports :: "(placement, (placement \<times> string) list) dict"
  t_placed :: "(string, placement) dict"

definition empty_tables :: tables where
  "empty_tables = \<lparr>t_records = [], t_chains = [], t_ports = [], t_placed = []\<rparr>"

definition claim :: "string \<Rightarrow> placement \<Rightarrow> (string, placement) dict
    \<Rightarrow> topology_error + (string, placement) dict" where
  "claim key p placed =
    (case map_of placed key of
       Some held \<Rightarrow> Inl (PlacedTwice key (path_str (pl_path held)) (path_str (pl_path p)))
     | None \<Rightarrow> Inr (dict_set key p placed))"

text \<open>One turn of the loop of \<open>_scan\<close>, over the claimed keys, the shared placements and the
  path segments so far.\<close>

fun scan_node :: "structure_path \<Rightarrow> component
    \<Rightarrow> (string, placement) dict \<times> placement list \<times> string list
    \<Rightarrow> topology_error + (string, placement) dict \<times> placement list \<times> string list" where
  "scan_node path (Device d) (placed, shared, segs) =
    rbind (claim (dev_key d) (placement_at d path) placed) (\<lambda>placed'.
      Inr (if dev_instrument d then (placed', shared, segs @ [dev_key d])
           else (placed', shared @ [placement_at d path], segs)))"
| "scan_node path (Unit u cs) (placed, shared, segs) = Inr (placed, shared, segs @ [u])"
| "scan_node path (Selector k ports trs tgs) (placed, shared, segs) =
    (let p = \<lparr>pl_device = k, pl_path = path\<rparr> in
     rbind (claim k p placed) (\<lambda>placed'.
       Inr (placed', shared @ [p], segs @ map port_name ports)))"

definition scan :: "component list \<Rightarrow> structure_path \<Rightarrow> tables
    \<Rightarrow> topology_error + tables \<times> placement list" where
  "scan cs path t =
    rbind (rfold (scan_node path) cs (t_placed t, [], [])) (\<lambda>(placed, shared, segs).
      let dupes = sort (repeated segs) in
      if dupes \<noteq> [] then Inl (NamedTwice (path_str path) dupes)
      else Inr (t\<lparr>t_placed := placed\<rparr>, shared))"

fun index_node :: "structure_path \<Rightarrow> placement list \<Rightarrow> (placement \<times> string) list
    \<Rightarrow> component \<Rightarrow> tables \<Rightarrow> tables" where
  "index_node path here selected (Device d) t =
    (let p = placement_at d path;
         t' = t\<lparr>t_records := dict_set p (Device d) (t_records t)\<rparr>
     in if dev_instrument d
        then t'\<lparr>t_chains := dict_set p (here @ [p]) (t_chains t'),
                t_ports := dict_set p selected (t_ports t')\<rparr>
        else t')"
| "index_node path here selected _ t = t"

fun visit :: "component list \<Rightarrow> structure_path \<Rightarrow> placement list \<Rightarrow> (placement \<times> string) list
      \<Rightarrow> tables \<Rightarrow> topology_error + tables"
and descend :: "component list \<Rightarrow> structure_path \<Rightarrow> placement list \<Rightarrow> (placement \<times> string) list
      \<Rightarrow> tables \<Rightarrow> topology_error + tables"
and visit_ports :: "port list \<Rightarrow> placement \<Rightarrow> structure_path \<Rightarrow> placement list
      \<Rightarrow> (placement \<times> string) list \<Rightarrow> tables \<Rightarrow> topology_error + tables" where
  "visit cs path upper selected t =
    rbind (scan cs path t) (\<lambda>(t1, shared).
      descend cs path (upper @ shared) selected
        (fold (index_node path (upper @ shared) selected) cs t1))"
| "descend [] path here selected t = Inr t"
| "descend (Device d # ns) path here selected t = descend ns path here selected t"
| "descend (Unit u cs # ns) path here selected t =
    rbind (visit cs (path @ [u]) here selected t) (\<lambda>t'. descend ns path here selected t')"
| "descend (Selector k ports trs tgs # ns) path here selected t =
    (let p = \<lparr>pl_device = k, pl_path = path\<rparr>;
         t' = t\<lparr>t_records := dict_set p (Selector k ports trs tgs) (t_records t)\<rparr>
     in rbind (visit_ports ports p path here selected t')
          (\<lambda>t''. descend ns path here selected t''))"
| "visit_ports [] p path here selected t = Inr t"
| "visit_ports (Port name cs # ports) p path here selected t =
    rbind (visit cs (path @ [name]) here (selected @ [(p, name)]) t)
      (\<lambda>t'. visit_ports ports p path here selected t')"

subsection \<open>Topology\<close>

record topology =
  tp_structure :: "component list"
  tp_records :: "(placement, component) dict"
  tp_chains :: "(placement, placement list) dict"
  tp_ports :: "(placement, (placement \<times> string) list) dict"
  tp_readers :: "(placement, placement list) dict"
  tp_private :: "(placement, placement set) dict"

definition collect_readers :: "(placement, placement list) dict \<Rightarrow> (placement, placement list) dict" where
  "collect_readers chs =
    fold (\<lambda>(instrument, chain). fold (\<lambda>p. dict_append p instrument) chain) chs []"

definition owned :: "(placement, placement list) dict \<Rightarrow> placement \<Rightarrow> placement \<Rightarrow> bool" where
  "owned readers p instrument \<longleftrightarrow>
     pl_path p \<in> {butlast (pl_path instrument), pl_path instrument}
     \<and> map_of readers p = Some [instrument]"

definition make_topology :: "component list \<Rightarrow> topology_error + topology" where
  "make_topology structure =
    rbind (visit structure [] [] [] empty_tables) (\<lambda>t.
      let readers = collect_readers (t_chains t) in
      Inr \<lparr>tp_structure = structure, tp_records = t_records t, tp_chains = t_chains t,
           tp_ports = t_ports t, tp_readers = readers,
           tp_private = map (\<lambda>(i, chain). (i, {p \<in> set chain. owned readers p i})) (t_chains t)\<rparr>)"

definition placements :: "topology \<Rightarrow> placement list" where
  "placements tp = dict_keys (tp_records tp)"

definition instruments :: "topology \<Rightarrow> placement list" where
  "instruments tp = dict_keys (tp_chains tp)"

definition lookup :: "('k, 'v) dict \<Rightarrow> 'k \<Rightarrow> topology_error + 'v" where
  "lookup d k = (case map_of d k of Some v \<Rightarrow> Inr v | None \<Rightarrow> Inl NoPlacement)"

definition record_of :: "topology \<Rightarrow> placement \<Rightarrow> topology_error + component" where
  "record_of tp p = lookup (tp_records tp) p"

fun record_tags :: "component \<Rightarrow> string list" where
  "record_tags (Device d) = dev_tags d"
| "record_tags (Selector k ps trs tgs) = tgs"
| "record_tags (Unit u cs) = []"

fun record_traits :: "component \<Rightarrow> string list" where
  "record_traits (Device d) = dev_traits d"
| "record_traits (Selector k ps trs tgs) = trs"
| "record_traits (Unit u cs) = []"

fun is_instrument :: "component \<Rightarrow> bool" where
  "is_instrument (Device d) = dev_instrument d"
| "is_instrument _ = False"

fun record_kind :: "component \<Rightarrow> string" where
  "record_kind (Selector k ps trs tgs) = ''selector''"
| "record_kind (Device d) = (if dev_instrument d then ''instrument'' else ''device'')"
| "record_kind (Unit u cs) = ''device''"

definition tags :: "topology \<Rightarrow> placement \<Rightarrow> topology_error + string set" where
  "tags tp p = rbind (record_of tp p) (\<lambda>r. Inr (set (record_tags r)))"

definition kind :: "topology \<Rightarrow> placement \<Rightarrow> topology_error + string" where
  "kind tp p = rbind (record_of tp p) (\<lambda>r. Inr (record_kind r))"

definition instrument :: "topology \<Rightarrow> placement \<Rightarrow> topology_error + bool" where
  "instrument tp p = rbind (record_of tp p) (\<lambda>r. Inr (is_instrument r))"

definition chain_of :: "topology \<Rightarrow> placement \<Rightarrow> topology_error + placement list" where
  "chain_of tp i = lookup (tp_chains tp) i"

definition readers_of :: "topology \<Rightarrow> placement \<Rightarrow> placement list" where
  "readers_of tp p = (case map_of (tp_readers tp) p of Some is \<Rightarrow> is | None \<Rightarrow> [])"

definition private_of :: "topology \<Rightarrow> placement \<Rightarrow> topology_error + placement set" where
  "private_of tp i = lookup (tp_private tp) i"

definition selector_states :: "topology \<Rightarrow> placement \<Rightarrow> topology_error + (placement \<times> string) list" where
  "selector_states tp i = lookup (tp_ports tp) i"

text \<open>\<open>dict(pairs)\<close>: the last pair of a key counts.\<close>

definition of_pairs :: "('k \<times> 'v) list \<Rightarrow> ('k, 'v) dict" where
  "of_pairs kvs = fold (\<lambda>(k, v). dict_set k v) kvs []"

fun first_differing :: "(placement, string) dict \<Rightarrow> (placement \<times> string) list \<Rightarrow> placement option" where
  "first_differing ports [] = None"
| "first_differing ports ((s, port) # rest) =
    (case map_of ports s of
       Some q \<Rightarrow> if q \<noteq> port then Some s else first_differing ports rest
     | None \<Rightarrow> first_differing ports rest)"

definition mutually_exclusive :: "topology \<Rightarrow> placement \<Rightarrow> placement \<Rightarrow> topology_error + placement option" where
  "mutually_exclusive tp a b =
    rbind (selector_states tp b) (\<lambda>bs.
    rbind (selector_states tp a) (\<lambda>as.
      Inr (first_differing (of_pairs bs) as)))"

subsection \<open>The listing the walk should produce\<close>

text \<open>
  A node opens zero or more levels: a unit one, a selector one per port.  Each has a path
  segment, its components and, behind a port, the selector that must be set.
\<close>

fun children :: "component \<Rightarrow> (string \<times> component list \<times> string option) list" where
  "children (Device d) = []"
| "children (Unit u cs) = [(u, cs, None)]"
| "children (Selector k ports trs tgs) = map (\<lambda>q. (port_name q, port_components q, Some k)) ports"

definition child_levels :: "component list \<Rightarrow> (string \<times> component list \<times> string option) list" where
  "child_levels cs = concat (map children cs)"

fun segments :: "component \<Rightarrow> string list" where
  "segments (Device d) = (if dev_instrument d then [dev_key d] else [])"
| "segments c = map fst (children c)"

fun placed_by :: "structure_path \<Rightarrow> component \<Rightarrow> placement option" where
  "placed_by path (Device d) = Some (placement_at d path)"
| "placed_by path (Unit u cs) = None"
| "placed_by path (Selector k ports trs tgs) = Some \<lparr>pl_device = k, pl_path = path\<rparr>"

definition shared_at :: "structure_path \<Rightarrow> component list \<Rightarrow> placement list" where
  "shared_at path cs = List.map_filter (placed_by path) (filter (\<lambda>c. \<not> is_instrument c) cs)"

record site =
  s_pl :: placement
  s_rec :: component
  s_chain :: "placement list"
  s_sel :: "(placement \<times> string) list"

definition sites_at :: "structure_path \<Rightarrow> placement list \<Rightarrow> (placement \<times> string) list
    \<Rightarrow> component list \<Rightarrow> site list" where
  "sites_at path here sel cs =
    List.map_filter (\<lambda>c. map_option (\<lambda>p.
        \<lparr>s_pl = p, s_rec = c, s_chain = (if is_instrument c then here @ [p] else here), s_sel = sel\<rparr>)
      (placed_by path c)) cs"

definition behind :: "structure_path \<Rightarrow> string \<Rightarrow> string option \<Rightarrow> (placement \<times> string) list" where
  "behind path n sel = (case sel of None \<Rightarrow> [] | Some k \<Rightarrow> [(\<lparr>pl_device = k, pl_path = path\<rparr>, n)])"

lemma size_children:
  "(n, cs', k) \<in> set (children c) \<Longrightarrow> size_list size cs' < size c"
proof (cases c)
  case (Selector key ports trs tgs)
  assume "(n, cs', k) \<in> set (children c)"
  then obtain q where q: "q \<in> set ports" "port_components q = cs'" using Selector by auto
  have "size_list size (port_components q) < size q" by (cases q) simp
  then have "size_list size cs' < size q" using q(2) by simp
  also have "size q \<le> size_list size ports" using q(1) by (simp add: size_list_estimation')
  finally show ?thesis using Selector by simp
qed auto

lemma size_child_levels:
  assumes "(n, cs', k) \<in> set (child_levels cs)"
  shows "size_list size cs' < size_list size cs"
proof -
  from assms obtain c where c: "c \<in> set cs" "(n, cs', k) \<in> set (children c)"
    by (auto simp: child_levels_def)
  from size_children [OF c(2)] have "size_list size cs' < size c" .
  also have "size c \<le> size_list size cs" using c(1) by (simp add: size_list_estimation')
  finally show ?thesis .
qed

function located :: "component list \<Rightarrow> structure_path \<Rightarrow> placement list \<Rightarrow> (placement \<times> string) list
    \<Rightarrow> site list" where
  "located cs path upper sel =
    (let here = upper @ shared_at path cs in
     sites_at path here sel cs
     @ concat (map (\<lambda>(n, cs', k). located cs' (path @ [n]) here (sel @ behind path n k)) (child_levels cs)))"
  by pat_completeness auto
termination
  by (relation "measure (\<lambda>(cs, path, upper, sel). size_list size cs)") (auto intro: size_child_levels)

text \<open>The order in which records are entered: a level's devices, then node by node.\<close>

function entered :: "component list \<Rightarrow> structure_path \<Rightarrow> (placement \<times> component) list" where
  "entered cs path =
    List.map_filter (\<lambda>c. case c of Device d \<Rightarrow> Some (placement_at d path, c) | _ \<Rightarrow> None) cs
    @ concat (map (\<lambda>c.
        (case c of Selector k _ _ _ \<Rightarrow> [(\<lparr>pl_device = k, pl_path = path\<rparr>, c)] | _ \<Rightarrow> [])
        @ concat (map (\<lambda>(n, cs', k). entered cs' (path @ [n])) (children c))) cs)"
  by pat_completeness auto
termination
  by (relation "measure (\<lambda>(cs, path). size_list size cs)")
    (auto intro!: size_child_levels simp: child_levels_def)

function names_ok :: "component list \<Rightarrow> bool" where
  "names_ok cs \<longleftrightarrow> distinct (concat (map segments cs))
    \<and> (\<forall>(n, cs', k)\<in>set (child_levels cs). names_ok cs')"
  by pat_completeness auto
termination
  by (relation "measure (size_list size)") (auto intro: size_child_levels)

declare located.simps [simp del] entered.simps [simp del] names_ok.simps [simp del]
  visit.simps [simp del] descend.simps [simp del] visit_ports.simps [simp del]

subsection \<open>The walk produces the listing\<close>

definition inner :: "component list \<Rightarrow> structure_path \<Rightarrow> placement list \<Rightarrow> (placement \<times> string) list
    \<Rightarrow> site list" where
  "inner ns path here sel =
    concat (map (\<lambda>(n, cs', k). located cs' (path @ [n]) here (sel @ behind path n k)) (child_levels ns))"

definition entered_in :: "component list \<Rightarrow> structure_path \<Rightarrow> (placement \<times> component) list" where
  "entered_in ns path = concat (map (\<lambda>c.
      (case c of Selector k _ _ _ \<Rightarrow> [(\<lparr>pl_device = k, pl_path = path\<rparr>, c)] | _ \<Rightarrow> [])
      @ concat (map (\<lambda>(n, cs', k). entered cs' (path @ [n])) (children c))) ns)"

definition names_in :: "component list \<Rightarrow> bool" where
  "names_in ns \<longleftrightarrow> (\<forall>(n, cs', k)\<in>set (child_levels ns). names_ok cs')"

definition claim_all :: "placement list \<Rightarrow> (string, placement) dict
    \<Rightarrow> topology_error + (string, placement) dict" where
  "claim_all ps placed = rfold (\<lambda>p. claim (pl_device p) p) ps placed"

abbreviation dict_sets :: "('k \<times> 'v) list \<Rightarrow> ('k, 'v) dict \<Rightarrow> ('k, 'v) dict" where
  "dict_sets kvs d \<equiv> fold (\<lambda>(k, v). dict_set k v) kvs d"

abbreviation inst_sites :: "site list \<Rightarrow> site list" where
  "inst_sites ss \<equiv> filter (\<lambda>s. is_instrument (s_rec s)) ss"

definition enter :: "(placement \<times> component) list \<Rightarrow> site list \<Rightarrow> tables \<Rightarrow> tables" where
  "enter recs ss t =
    t\<lparr>t_records := dict_sets recs (t_records t),
      t_chains := dict_sets (map (\<lambda>s. (s_pl s, s_chain s)) (inst_sites ss)) (t_chains t),
      t_ports := dict_sets (map (\<lambda>s. (s_pl s, s_sel s)) (inst_sites ss)) (t_ports t)\<rparr>"

text \<open>What one part of the walk does to the tables, and how two parts compose.\<close>

definition entering :: "bool \<Rightarrow> (placement \<times> component) list \<Rightarrow> site list \<Rightarrow> tables \<Rightarrow> tables \<Rightarrow> bool" where
  "entering ok recs ss t t' \<longleftrightarrow> ok \<and> (\<exists>placed. claim_all (map s_pl ss) (t_placed t) = Inr placed
      \<and> t' = (enter recs ss t)\<lparr>t_placed := placed\<rparr>)"

lemma claim_all_append: "claim_all (ps @ qs) placed = rbind (claim_all ps placed) (claim_all qs)"
  unfolding claim_all_def by (rule rfold_append)

lemma entering_nil [simp]: "entering ok [] [] t t' \<longleftrightarrow> ok \<and> t' = t"
  by (auto simp: entering_def claim_all_def enter_def)

lemma entering_comp:
  "(\<exists>u. entering a r1 s1 t u \<and> entering b r2 s2 u t') \<longleftrightarrow> entering (a \<and> b) (r1 @ r2) (s1 @ s2) t t'"
proof -
  have t: "(enter r2 s2 ((enter r1 s1 t)\<lparr>t_placed := p\<rparr>))\<lparr>t_placed := q\<rparr>
      = (enter (r1 @ r2) (s1 @ s2) t)\<lparr>t_placed := q\<rparr>" for p q
    by (simp add: enter_def)
  show ?thesis
    unfolding entering_def map_append claim_all_append
    by (auto simp: rbind_Inr_iff t)
qed

lemma located_unfold: "located cs path upper sel =
    sites_at path (upper @ shared_at path cs) sel cs @ inner cs path (upper @ shared_at path cs) sel"
  by (subst located.simps) (simp add: inner_def Let_def)

lemma entered_unfold: "entered cs path =
    List.map_filter (\<lambda>c. case c of Device d \<Rightarrow> Some (placement_at d path, c) | _ \<Rightarrow> None) cs
    @ entered_in cs path"
  by (subst entered.simps) (simp add: entered_in_def)

lemma names_ok_unfold: "names_ok cs \<longleftrightarrow> distinct (concat (map segments cs)) \<and> names_in cs"
  by (subst names_ok.simps) (simp add: names_in_def)

lemma inner_Cons: "inner (c # ns) path here sel = inner [c] path here sel @ inner ns path here sel"
  by (simp add: inner_def child_levels_def)

lemma entered_in_Cons: "entered_in (c # ns) path = entered_in [c] path @ entered_in ns path"
  by (simp add: entered_in_def)

lemma names_in_Cons: "names_in (c # ns) \<longleftrightarrow> names_in [c] \<and> names_in ns"
  by (simp add: names_in_def child_levels_def ball_Un split_def)

lemma pl_device_placement_at [simp]: "pl_device (placement_at d path) = dev_key d"
  by (simp add: placement_at_def)

lemma scan_loop:
  "rfold (scan_node path) cs (placed, shared, segs) =
    rbind (claim_all (List.map_filter (placed_by path) cs) placed) (\<lambda>placed'.
      Inr (placed', shared @ shared_at path cs, segs @ concat (map segments cs)))"
proof (induction cs arbitrary: placed shared segs)
  case Nil
  then show ?case by (simp add: claim_all_def shared_at_def map_filter_simps)
next
  case (Cons c cs)
  show ?case
  proof (cases c)
    case (Device d)
    then show ?thesis
      by (cases "claim (dev_key d) (placement_at d path) placed")
        (auto simp: claim_all_def shared_at_def map_filter_simps Cons.IH)
  next
    case (Unit u cs')
    then show ?thesis by (simp add: claim_all_def shared_at_def map_filter_simps Cons.IH)
  next
    case (Selector k ports trs tgs)
    then show ?thesis
      by (cases "claim k \<lparr>pl_device = k, pl_path = path\<rparr> placed")
        (auto simp: claim_all_def shared_at_def map_filter_simps Cons.IH Let_def comp_def)
  qed
qed

lemma index_loop:
  "fold (index_node path here sel) cs t =
    enter (List.map_filter (\<lambda>c. case c of Device d \<Rightarrow> Some (placement_at d path, c) | _ \<Rightarrow> None) cs)
      (sites_at path here sel cs) t"
proof (induction cs arbitrary: t)
  case Nil
  then show ?case by (simp add: enter_def sites_at_def map_filter_simps)
next
  case (Cons c cs)
  show ?case
    by (cases c) (simp_all add: Cons.IH enter_def sites_at_def map_filter_simps Let_def)
qed

lemma map_s_pl_sites_at: "map s_pl (sites_at path here sel cs) = List.map_filter (placed_by path) cs"
  unfolding sites_at_def
  by (induction cs) (auto simp: map_filter_simps split: option.splits)

lemma rfold_Inr_only: "rbind r (\<lambda>x. Inr (f x)) = Inr y \<longleftrightarrow> (\<exists>x. r = Inr x \<and> y = f x)"
  by (cases r) auto

lemma sort_eq_Nil: "sort xs = [] \<longleftrightarrow> xs = []"
  by (metis set_empty set_sort)

lemma scan_ok:
  "scan cs path t = Inr (t1, shared) \<longleftrightarrow> distinct (concat (map segments cs))
    \<and> shared = shared_at path cs
    \<and> (\<exists>placed. claim_all (List.map_filter (placed_by path) cs) (t_placed t) = Inr placed
        \<and> t1 = t\<lparr>t_placed := placed\<rparr>)"
  unfolding scan_def scan_loop
  by (cases "claim_all (List.map_filter (placed_by path) cs) (t_placed t)")
    (auto simp: Let_def sort_eq_Nil)

lemma level_entering:
  "(\<exists>t1 shared. scan cs path t = Inr (t1, shared)
      \<and> u = fold (index_node path (upper @ shared) sel) cs t1 \<and> here = upper @ shared)
   \<longleftrightarrow> here = upper @ shared_at path cs
     \<and> entering (distinct (concat (map segments cs)))
      (List.map_filter (\<lambda>c. case c of Device d \<Rightarrow> Some (placement_at d path, c) | _ \<Rightarrow> None) cs)
      (sites_at path here sel cs) t u"
  by (auto simp: scan_ok entering_def index_loop map_s_pl_sites_at enter_def)

lemma inner_Device: "inner [Device d] path here sel = []"
  and entered_in_Device: "entered_in [Device d] path = []"
  and names_in_Device: "names_in [Device d]"
  by (simp_all add: inner_def entered_in_def names_in_def child_levels_def)

lemma inner_Unit: "inner [Unit u cs] path here sel = located cs (path @ [u]) here sel"
  and entered_in_Unit: "entered_in [Unit u cs] path = entered cs (path @ [u])"
  and names_in_Unit: "names_in [Unit u cs] \<longleftrightarrow> names_ok cs"
  by (simp_all add: inner_def entered_in_def names_in_def child_levels_def behind_def)

lemma entering_selector:
  "entering (names_in [Selector k ports trs tgs]) (entered_in [Selector k ports trs tgs] path)
      (inner [Selector k ports trs tgs] path here sel) t u
   \<longleftrightarrow> entering (\<forall>q\<in>set ports. names_ok (port_components q))
      (concat (map (\<lambda>q. entered (port_components q) (path @ [port_name q])) ports))
      (concat (map (\<lambda>q. located (port_components q) (path @ [port_name q]) here
          (sel @ [(\<lparr>pl_device = k, pl_path = path\<rparr>, port_name q)])) ports))
      (t\<lparr>t_records := dict_set \<lparr>pl_device = k, pl_path = path\<rparr> (Selector k ports trs tgs) (t_records t)\<rparr>) u"
  by (simp add: entering_def enter_def inner_def entered_in_def names_in_def child_levels_def
      behind_def comp_def)

lemma visit_entering:
  "visit cs path upper sel t = Inr t'
    \<longleftrightarrow> entering (names_ok cs) (entered cs path) (located cs path upper sel) t t'"
  "descend ns path here sel t = Inr t'
    \<longleftrightarrow> entering (names_in ns) (entered_in ns path) (inner ns path here sel) t t'"
  "visit_ports ports p path here sel t = Inr t' \<longleftrightarrow>
    entering (\<forall>q\<in>set ports. names_ok (port_components q))
      (concat (map (\<lambda>q. entered (port_components q) (path @ [port_name q])) ports))
      (concat (map (\<lambda>q. located (port_components q) (path @ [port_name q]) here
          (sel @ [(p, port_name q)])) ports)) t t'"
proof (induction cs path upper sel t and ns path here sel t and ports p path here sel t
    arbitrary: t' and t' and t' rule: visit_descend_visit_ports.induct)
  case (1 cs path upper sel t)
  let ?here = "upper @ shared_at path cs"
  let ?dev = "List.map_filter (\<lambda>c. case c of Device d \<Rightarrow> Some (placement_at d path, c) | _ \<Rightarrow> None) cs"
  have "visit cs path upper sel t = Inr t' \<longleftrightarrow> (\<exists>t1 shared. scan cs path t = Inr (t1, shared)
      \<and> descend cs path (upper @ shared) sel
          (fold (index_node path (upper @ shared) sel) cs t1) = Inr t')"
    by (subst visit.simps) (auto simp: rbind_Inr_iff)
  also have "\<dots> \<longleftrightarrow> (\<exists>u here. (\<exists>t1 shared. scan cs path t = Inr (t1, shared)
        \<and> u = fold (index_node path (upper @ shared) sel) cs t1 \<and> here = upper @ shared)
      \<and> entering (names_in cs) (entered_in cs path) (inner cs path here sel) u t')"
    using 1 by (auto simp del: fold_simps)
  also have "\<dots> \<longleftrightarrow> (\<exists>u. entering (distinct (concat (map segments cs))) ?dev
        (sites_at path ?here sel cs) t u
      \<and> entering (names_in cs) (entered_in cs path) (inner cs path ?here sel) u t')"
    unfolding level_entering by blast
  finally show ?case
    unfolding entering_comp located_unfold entered_unfold names_ok_unfold .
next
  case (3 d ns path here sel t)
  then show ?case
    by (subst inner_Cons, subst entered_in_Cons, subst names_in_Cons)
      (simp add: descend.simps inner_Device entered_in_Device names_in_Device)
next
  case (4 u cs ns path here sel t)
  have "descend (Unit u cs # ns) path here sel t = Inr t'
      \<longleftrightarrow> (\<exists>u'. entering (names_ok cs) (entered cs (path @ [u])) (located cs (path @ [u]) here sel) t u'
          \<and> entering (names_in ns) (entered_in ns path) (inner ns path here sel) u' t')"
    using 4 by (auto simp: descend.simps rbind_Inr_iff)
  then show ?case
    unfolding entering_comp
    by (subst inner_Cons, subst entered_in_Cons, subst names_in_Cons)
      (simp add: inner_Unit entered_in_Unit names_in_Unit)
next
  case (5 k ports trs tgs ns path here sel t)
  let ?p = "\<lparr>pl_device = k, pl_path = path\<rparr>" and ?c = "Selector k ports trs tgs"
  let ?t = "t\<lparr>t_records := dict_set ?p ?c (t_records t)\<rparr>"
  have "descend (?c # ns) path here sel t = Inr t' \<longleftrightarrow>
      (\<exists>u. visit_ports ports ?p path here sel ?t = Inr u \<and> descend ns path here sel u = Inr t')"
    by (auto simp: descend.simps rbind_Inr_iff Let_def)
  also have "\<dots> \<longleftrightarrow> (\<exists>u. entering (names_in [?c]) (entered_in [?c] path) (inner [?c] path here sel) t u
      \<and> entering (names_in ns) (entered_in ns path) (inner ns path here sel) u t')"
    using 5 by (simp add: entering_selector)
  finally show ?case
    unfolding entering_comp
    by (subst inner_Cons, subst entered_in_Cons, subst names_in_Cons)
next
  case (7 name cs ports p path here sel t)
  have "visit_ports (Port name cs # ports) p path here sel t = Inr t'
      \<longleftrightarrow> (\<exists>u. visit cs (path @ [name]) here (sel @ [(p, name)]) t = Inr u
          \<and> visit_ports ports p path here sel u = Inr t')"
    by (simp add: visit_ports.simps rbind_Inr_iff)
  then show ?case
    using 7 by (simp add: entering_comp)
qed (auto simp: descend.simps visit_ports.simps inner_def entered_in_def names_in_def child_levels_def)

lemma claim_all_ok:
  "claim_all ps placed = Inr placed' \<longleftrightarrow> distinct (map pl_device ps)
    \<and> set (map pl_device ps) \<inter> set (dict_keys placed) = {}
    \<and> placed' = placed @ map (\<lambda>p. (pl_device p, p)) ps"
proof (induction ps arbitrary: placed)
  case Nil
  then show ?case by (auto simp: claim_all_def)
next
  case (Cons p ps)
  show ?case
  proof (cases "map_of placed (pl_device p)")
    case None
    then have fresh: "pl_device p \<notin> set (dict_keys placed)" by (simp add: map_of_None_key)
    then have "claim_all (p # ps) placed = claim_all ps (placed @ [(pl_device p, p)])"
      using None by (simp add: claim_all_def claim_def dict_set_fresh)
    then show ?thesis using fresh by (auto simp: Cons.IH)
  next
    case (Some held)
    then have "pl_device p \<in> set (dict_keys placed)" by (rule map_of_Some_key)
    then show ?thesis using Some by (auto simp: claim_all_def claim_def)
  qed
qed

lemma dict_sets_fresh:
  "distinct (map fst kvs) \<Longrightarrow> set (map fst kvs) \<inter> set (dict_keys d) = {} \<Longrightarrow> dict_sets kvs d = d @ kvs"
proof (induction kvs arbitrary: d)
  case (Cons kv kvs)
  then show ?case by (cases kv) (simp add: dict_set_fresh)
qed simp

lemma mset_concat_pairs:
  "mset (concat (map (\<lambda>c. f c @ g c) cs)) = mset (concat (map f cs)) + mset (concat (map g cs))"
  by (induction cs) (simp_all add: ac_simps)

lemma concat_children:
  "concat (map (\<lambda>c. concat (map f (children c))) cs) = concat (map f (child_levels cs))"
  by (induction cs) (simp_all add: child_levels_def)

abbreviation site_record :: "site \<Rightarrow> placement \<times> component" where
  "site_record s \<equiv> (s_pl s, s_rec s)"

lemma mset_level:
  "mset (List.map_filter (\<lambda>c. case c of Device d \<Rightarrow> Some (placement_at d path, c) | _ \<Rightarrow> None) cs)
    + mset (concat (map (\<lambda>c. case c of Selector k _ _ _ \<Rightarrow> [(\<lparr>pl_device = k, pl_path = path\<rparr>, c)] | _ \<Rightarrow> []) cs))
   = mset (map site_record (sites_at path here sel cs))"
proof (induction cs)
  case Nil
  then show ?case by (simp add: sites_at_def map_filter_simps)
next
  case (Cons c cs)
  then show ?case by (cases c) (auto simp: sites_at_def map_filter_simps)
qed

lemma mset_concat_cong:
  "(\<And>x. x \<in> set xs \<Longrightarrow> mset (f x) = mset (g x)) \<Longrightarrow> mset (concat (map f xs)) = mset (concat (map g xs))"
  by (induction xs) simp_all

lemma mset_entered_in:
  "mset (entered_in cs path) =
    mset (concat (map (\<lambda>c. case c of Selector k _ _ _ \<Rightarrow> [(\<lparr>pl_device = k, pl_path = path\<rparr>, c)] | _ \<Rightarrow> []) cs))
    + mset (concat (map (\<lambda>(n, cs', k). entered cs' (path @ [n])) (child_levels cs)))"
  by (simp only: entered_in_def mset_concat_pairs concat_children)

lemma mset_entered: "mset (entered cs path) = mset (map site_record (located cs path upper sel))"
proof (induction cs path upper sel rule: located.induct)
  case (1 cs path upper sel)
  let ?here = "upper @ shared_at path cs"
  have "mset (concat (map (\<lambda>(n, cs', k). entered cs' (path @ [n])) (child_levels cs)))
      = mset (concat (map (\<lambda>(n, cs', k). map site_record
          (located cs' (path @ [n]) ?here (sel @ behind path n k))) (child_levels cs)))"
    by (rule mset_concat_cong) (use 1 in auto)
  also have "\<dots> = mset (map site_record (inner cs path ?here sel))"
    by (simp add: inner_def map_concat comp_def split_def)
  finally show ?case
    unfolding located_unfold entered_unfold mset_append map_append mset_entered_in
    by (simp only: mset_level [symmetric] add.assoc)
qed

text \<open>
  What \<open>Topology.__init__\<close> accepts and what it then holds: names differ among siblings, no
  device key occurs twice, and the dicts are the listing.
\<close>

abbreviation all_sites :: "component list \<Rightarrow> site list" where
  "all_sites cs \<equiv> located cs [] [] []"

definition placed_once :: "component list \<Rightarrow> bool" where
  "placed_once cs \<longleftrightarrow> distinct (map (\<lambda>s. pl_device (s_pl s)) (all_sites cs))"

lemma distinct_map_inner: "distinct (map (\<lambda>x. f (g x)) xs) \<Longrightarrow> distinct (map g xs)"
  by (induction xs) auto

lemma make_topology_ok:
  "make_topology cs = Inr tp \<longleftrightarrow> names_ok cs \<and> placed_once cs
    \<and> tp_structure tp = cs
    \<and> tp_records tp = entered cs []
    \<and> tp_chains tp = map (\<lambda>s. (s_pl s, s_chain s)) (inst_sites (all_sites cs))
    \<and> tp_ports tp = map (\<lambda>s. (s_pl s, s_sel s)) (inst_sites (all_sites cs))
    \<and> tp_readers tp = collect_readers (tp_chains tp)
    \<and> tp_private tp = map (\<lambda>(i, chain). (i, {p \<in> set chain. owned (tp_readers tp) p i})) (tp_chains tp)"
proof -
  let ?ss = "all_sites cs"
  have keys: "distinct (map s_pl ?ss)" if "placed_once cs"
    by (rule distinct_map_inner [where f = pl_device, OF that [unfolded placed_once_def]])
  have inst: "distinct (map s_pl (inst_sites ?ss))" if "placed_once cs"
    by (rule distinct_map_filter [OF keys [OF that]])
  have "mset (map fst (entered cs [])) = mset (map s_pl ?ss)"
    using arg_cong [OF mset_entered [of cs "[]" "[]" "[]"], of "image_mset fst"]
    by (simp add: comp_def image_mset.compositionality)
  then have recs: "distinct (map fst (entered cs []))" if "placed_once cs"
    using keys [OF that] by (metis mset_eq_imp_distinct_iff)
  have "visit cs [] [] [] empty_tables = Inr t \<longleftrightarrow> names_ok cs \<and> placed_once cs
     \<and> t = \<lparr>t_records = entered cs [],
         t_chains = map (\<lambda>s. (s_pl s, s_chain s)) (inst_sites ?ss),
         t_ports = map (\<lambda>s. (s_pl s, s_sel s)) (inst_sites ?ss),
         t_placed = map (\<lambda>s. (pl_device (s_pl s), s_pl s)) ?ss\<rparr>" for t
    unfolding visit_entering(1) entering_def claim_all_ok
    using recs inst
    by (auto simp: enter_def empty_tables_def placed_once_def comp_def dict_sets_fresh)
  note visit = this
  let ?chs = "map (\<lambda>s. (s_pl s, s_chain s)) (inst_sites ?ss)"
  have "make_topology cs = Inr tp \<longleftrightarrow> names_ok cs \<and> placed_once cs
    \<and> tp = \<lparr>tp_structure = cs, tp_records = entered cs [], tp_chains = ?chs,
        tp_ports = map (\<lambda>s. (s_pl s, s_sel s)) (inst_sites ?ss),
        tp_readers = collect_readers ?chs,
        tp_private = map (\<lambda>(i, chain). (i, {p \<in> set chain. owned (collect_readers ?chs) p i})) ?chs\<rparr>"
    unfolding make_topology_def Let_def rfold_Inr_only visit by (simp add: conj_assoc)
  then show ?thesis by (cases tp) (simp only: topology.simps topology.iffs, blast)
qed

subsection \<open>Paths determine chains and selector states\<close>

abbreviation site_path :: "site \<Rightarrow> structure_path" where
  "site_path s \<equiv> pl_path (s_pl s)"

text \<open>A site of a level lies at its path, an instrument one segment below; every site of an
  inner level below its own segment.\<close>

lemma in_map_filter: "x \<in> set (List.map_filter f xs) \<longleftrightarrow> (\<exists>y\<in>set xs. f y = Some x)"
  unfolding map_filter_def by force

lemma sites_atE:
  assumes "s \<in> set (sites_at path here sel cs)"
  obtains "s_rec s \<in> set cs" and "placed_by path (s_rec s) = Some (s_pl s)" and "s_sel s = sel"
    and "s_chain s = (if is_instrument (s_rec s) then here @ [s_pl s] else here)"
  using assms unfolding sites_at_def in_map_filter by auto

lemma sites_at_I:
  "c \<in> set cs \<Longrightarrow> placed_by path c = Some p \<Longrightarrow>
    \<lparr>s_pl = p, s_rec = c, s_chain = (if is_instrument c then here @ [p] else here), s_sel = sel\<rparr>
      \<in> set (sites_at path here sel cs)"
  unfolding sites_at_def in_map_filter by force

lemma placed_by_path:
  assumes "placed_by path c = Some p"
  shows "pl_path p = (if is_instrument c then path @ [pl_device p] else path)"
  using assms by (cases c) (auto simp: placement_at_def)

lemma placed_by_segment:
  "placed_by path c = Some p \<Longrightarrow> is_instrument c \<Longrightarrow> pl_device p \<in> set (segments c)"
  by (cases c) auto

lemma innerE:
  assumes "s \<in> set (inner ns path here sel)"
  obtains c n cs' k where "c \<in> set ns" and "(n, cs', k) \<in> set (children c)"
    and "s \<in> set (located cs' (path @ [n]) here (sel @ behind path n k))"
  using assms unfolding inner_def child_levels_def by fastforce

lemma inner_I:
  "c \<in> set ns \<Longrightarrow> (n, cs', k) \<in> set (children c) \<Longrightarrow>
    s \<in> set (located cs' (path @ [n]) here (sel @ behind path n k)) \<Longrightarrow> s \<in> set (inner ns path here sel)"
  unfolding inner_def child_levels_def by fastforce

lemma in_locatedE:
  assumes "s \<in> set (located cs path upper sel)"
  obtains "s \<in> set (sites_at path (upper @ shared_at path cs) sel cs)"
    | "s \<in> set (inner cs path (upper @ shared_at path cs) sel)"
  using assms unfolding located_unfold by auto

lemma children_segment: "(n, cs', k) \<in> set (children c) \<Longrightarrow> n \<in> set (segments c) \<and> \<not> is_instrument c"
  by (cases c) force+

lemma distinct_concat_same:
  "distinct (concat (map f xs)) \<Longrightarrow> x \<in> set xs \<Longrightarrow> y \<in> set xs \<Longrightarrow> n \<in> set (f x) \<Longrightarrow> n \<in> set (f y)
    \<Longrightarrow> x = y"
  by (induction xs) auto

lemma distinct_concat_inner: "distinct (concat (map f xs)) \<Longrightarrow> x \<in> set xs \<Longrightarrow> distinct (f x)"
  by (induction xs) auto

text \<open>Under distinct names one segment opens one level.\<close>

lemma same_level:
  assumes ok: "names_ok cs"
    and "c \<in> set cs" "(n, cs1, k) \<in> set (children c)"
    and "d \<in> set cs" "(n, cs2, l) \<in> set (children d)"
  shows "c = d \<and> cs1 = cs2 \<and> k = l"
proof -
  have dist: "distinct (concat (map segments cs))" using ok by (simp add: names_ok_unfold)
  have "c = d"
    using distinct_concat_same [OF dist assms(2,4)] children_segment assms(3,5) by blast
  moreover have "distinct (segments c)" by (rule distinct_concat_inner [OF dist assms(2)])
  then have "distinct (map fst (children c))" by (cases c) auto
  ultimately show ?thesis
    using assms(3,5) by (metis map_of_is_SomeI option.inject prod.inject)
qed

lemma child_names_ok: "names_ok cs \<Longrightarrow> c \<in> set cs \<Longrightarrow> (n, cs', k) \<in> set (children c) \<Longrightarrow> names_ok cs'"
  by (subst (asm) names_ok_unfold) (force simp: names_in_def child_levels_def)

lemma located_path: "s \<in> set (located cs path upper sel) \<Longrightarrow> prefix path (site_path s)"
proof (induction cs path upper sel rule: located.induct)
  case (1 cs path upper sel)
  from 1(2) show ?case
  proof (cases rule: in_locatedE)
    case 1
    then show ?thesis by (elim sites_atE) (auto dest: placed_by_path)
  next
    case 2
    then show ?thesis
    proof (cases rule: innerE)
      case (1 c n cs' k)
      then have "(n, cs', k) \<in> set (child_levels cs)" by (auto simp: child_levels_def)
      with 1 have "prefix (path @ [n]) (site_path s)" using "1.IH" by blast
      then show ?thesis by (rule append_prefixD)
    qed
  qed
qed

lemma inner_path:
  assumes "s \<in> set (inner cs path here sel)"
  obtains c n cs' k where "c \<in> set cs" and "(n, cs', k) \<in> set (children c)"
    and "s \<in> set (located cs' (path @ [n]) here (sel @ behind path n k))"
    and "prefix (path @ [n]) (site_path s)"
  using assms by (cases rule: innerE) (metis located_path that)

lemma prefix_same_segment: "prefix (p @ [a]) x \<Longrightarrow> prefix (p @ [b]) x \<Longrightarrow> a = b"
  by (auto simp: prefix_def)

lemma inner_same:
  assumes ok: "names_ok cs" and c: "c \<in> set cs" "(n, cs', k) \<in> set (children c)"
    and e: "e \<in> set (inner cs path here sel)" and pre: "prefix (path @ [n]) (site_path e)"
  shows "e \<in> set (located cs' (path @ [n]) here (sel @ behind path n k))"
proof -
  from e obtain d m ds l where d: "d \<in> set cs" "(m, ds, l) \<in> set (children d)"
    and l: "e \<in> set (located ds (path @ [m]) here (sel @ behind path m l))"
    and "prefix (path @ [m]) (site_path e)" by (rule inner_path)
  with pre have "m = n" by (metis prefix_same_segment)
  with same_level [OF ok c] d l show ?thesis by metis
qed

text \<open>An instrument's own segment opens no level.\<close>

lemma instrument_segment:
  assumes ok: "names_ok cs" and s: "s \<in> set (sites_at path here sel cs)"
    and c: "c \<in> set cs" "n \<in> set (segments c)" "\<not> is_instrument c"
  shows "\<not> prefix (path @ [n]) (site_path s)"
proof
  assume pre: "prefix (path @ [n]) (site_path s)"
  from s have mem: "s_rec s \<in> set cs" and pl: "placed_by path (s_rec s) = Some (s_pl s)"
    by (auto elim: sites_atE)
  show False
  proof (cases "is_instrument (s_rec s)")
    case True
    have "n = pl_device (s_pl s)" using pre placed_by_path [OF pl] True by simp
    then have "n \<in> set (segments (s_rec s))" using placed_by_segment [OF pl True] by simp
    moreover have "distinct (concat (map segments cs))" using ok by (simp add: names_ok_unfold)
    ultimately have "s_rec s = c" using distinct_concat_same mem c(1,2) by metis
    with True c(3) show False by simp
  next
    case False
    then show False using pre placed_by_path [OF pl] by simp
  qed
qed

lemma level_not_below:
  assumes "names_ok cs" and "s \<in> set (sites_at path here sel cs)"
    and "e \<in> set (inner cs path here' sel')"
  shows "\<not> prefix (site_path e) (site_path s)"
  using assms(3)
proof (cases rule: inner_path)
  case (1 c n cs' k)
  then show ?thesis
    using instrument_segment [OF assms(1,2), of c n] children_segment [of n cs' k c]
    by (meson prefix_order.trans)
qed

lemma set_shared_at:
  "set (shared_at path cs) = {s_pl e | e. e \<in> set (sites_at path here sel cs) \<and> \<not> is_instrument (s_rec e)}"
proof -
  have "p \<in> set (shared_at path cs) \<longleftrightarrow> (\<exists>c\<in>set cs. \<not> is_instrument c \<and> placed_by path c = Some p)" for p
    by (auto simp: shared_at_def in_map_filter)
  moreover have "(\<exists>c\<in>set cs. \<not> is_instrument c \<and> placed_by path c = Some p)
      \<longleftrightarrow> (\<exists>e. p = s_pl e \<and> e \<in> set (sites_at path here sel cs) \<and> \<not> is_instrument (s_rec e))" for p
    unfolding sites_at_def in_map_filter by force
  ultimately show ?thesis by blast
qed

lemma level_path:
  assumes "s \<in> set (sites_at path here sel cs)"
  shows "site_path s = (if is_instrument (s_rec s) then path @ [pl_device (s_pl s)] else path)"
  by (rule sites_atE [OF assms]) (metis placed_by_path)

lemma chain_members:
  assumes "names_ok cs" and "s \<in> set (located cs path upper sel)"
  shows "set (s_chain s) = set upper \<union> (if is_instrument (s_rec s) then {s_pl s} else {})
    \<union> {s_pl e | e. e \<in> set (located cs path upper sel) \<and> \<not> is_instrument (s_rec e)
        \<and> prefix (site_path e) (site_path s)}"
  using assms
proof (induction cs path upper sel rule: located.induct)
  case (1 cs path upper sel)
  note ok = 1(2)
  let ?here = "upper @ shared_at path cs"
  let ?level = "set (sites_at path ?here sel cs)" and ?inner = "set (inner cs path ?here sel)"
  have all: "set (located cs path upper sel) = ?level \<union> ?inner" by (simp add: located_unfold)
  have below: "prefix (site_path e) (site_path s)" if "e \<in> ?level" "\<not> is_instrument (s_rec e)" for e
    using that level_path [OF that(1)] located_path [OF 1(3)] by simp
  have split: "{s_pl e | e. e \<in> ?level \<union> ?inner \<and> \<not> is_instrument (s_rec e) \<and> prefix (site_path e) (site_path s)}
      = set (shared_at path cs)
        \<union> {s_pl e | e. e \<in> ?inner \<and> \<not> is_instrument (s_rec e) \<and> prefix (site_path e) (site_path s)}"
    unfolding set_shared_at [of path cs ?here sel] using below by blast
  from 1(3) show ?case
  proof (cases rule: in_locatedE)
    case 1
    have none: "{s_pl e | e. e \<in> ?inner \<and> \<not> is_instrument (s_rec e) \<and> prefix (site_path e) (site_path s)} = {}"
      using level_not_below [OF ok 1] by blast
    have "s_chain s = (if is_instrument (s_rec s) then ?here @ [s_pl s] else ?here)"
      using 1 by (auto elim: sites_atE)
    then show ?thesis unfolding all split none by simp
  next
    case 2
    then obtain c n cs' k where c: "c \<in> set cs" "(n, cs', k) \<in> set (children c)"
      and s: "s \<in> set (located cs' (path @ [n]) ?here (sel @ behind path n k))"
      and pre: "prefix (path @ [n]) (site_path s)" by (rule inner_path)
    let ?sub = "set (located cs' (path @ [n]) ?here (sel @ behind path n k))"
    have lev: "(n, cs', k) \<in> set (child_levels cs)" using c by (auto simp: child_levels_def)
    have IH: "set (s_chain s) = set ?here \<union> (if is_instrument (s_rec s) then {s_pl s} else {})
      \<union> {s_pl e | e. e \<in> ?sub \<and> \<not> is_instrument (s_rec e) \<and> prefix (site_path e) (site_path s)}"
      using "1.IH" [OF refl lev refl refl child_names_ok [OF ok c] s] .
    have "e \<in> ?inner \<and> prefix (site_path e) (site_path s) \<longleftrightarrow> e \<in> ?sub \<and> prefix (site_path e) (site_path s)" for e
    proof
      assume e: "e \<in> ?inner \<and> prefix (site_path e) (site_path s)"
      from conjunct1 [OF e] obtain m where m: "prefix (path @ [m]) (site_path e)" by (rule inner_path)
      with e have "prefix (path @ [m]) (site_path s)" by (meson prefix_order.trans)
      with pre have "m = n" by (metis prefix_same_segment)
      with m show "e \<in> ?sub \<and> prefix (site_path e) (site_path s)"
        using inner_same [OF ok c, of e path ?here sel] e by simp
    qed (use inner_I [OF c] in blast)
    then have "{s_pl e | e. e \<in> ?inner \<and> \<not> is_instrument (s_rec e) \<and> prefix (site_path e) (site_path s)}
        = {s_pl e | e. e \<in> ?sub \<and> \<not> is_instrument (s_rec e) \<and> prefix (site_path e) (site_path s)}"
      by blast
    then show ?thesis unfolding all split IH by auto
  qed
qed

fun port_names :: "component \<Rightarrow> string list" where
  "port_names (Selector k ports trs tgs) = map port_name ports"
| "port_names _ = []"

text \<open>Site \<open>e\<close> is a selector, and \<open>s\<close> is reached through its port \<open>q\<close>.\<close>

definition through :: "site \<Rightarrow> string \<Rightarrow> site \<Rightarrow> bool" where
  "through e q s \<longleftrightarrow> q \<in> set (port_names (s_rec e)) \<and> prefix (site_path e @ [q]) (site_path s)"

lemma port_segment: "q \<in> set (port_names c) \<Longrightarrow> q \<in> set (segments c) \<and> \<not> is_instrument c"
  by (cases c) (auto simp: comp_def)

lemma port_child:
  assumes "q \<in> set (port_names c)" and "placed_by path c = Some p"
  obtains cs k where "(q, cs, Some k) \<in> set (children c)" and "p = \<lparr>pl_device = k, pl_path = path\<rparr>"
  using assms by (cases c) auto

lemma behind_level:
  assumes ok: "names_ok cs" and c: "c \<in> set cs" "(n, cs', k) \<in> set (children c)"
    and pre: "prefix (path @ [n]) (site_path s)"
  shows "(x, q) \<in> set (behind path n k)
    \<longleftrightarrow> (\<exists>e. e \<in> set (sites_at path here sel cs) \<and> s_pl e = x \<and> through e q s)"
proof
  assume "(x, q) \<in> set (behind path n k)"
  then obtain key where k: "k = Some key" and x: "x = \<lparr>pl_device = key, pl_path = path\<rparr>" and q: "q = n"
    by (auto simp: behind_def split: option.splits)
  from c(2) k have "placed_by path c = Some x" "n \<in> set (port_names c)"
    using x by (cases c; force)+
  then show "\<exists>e. e \<in> set (sites_at path here sel cs) \<and> s_pl e = x \<and> through e q s"
    using sites_at_I [OF c(1), of path x here sel] pre x q unfolding through_def by fastforce
next
  assume "\<exists>e. e \<in> set (sites_at path here sel cs) \<and> s_pl e = x \<and> through e q s"
  then obtain e where e: "e \<in> set (sites_at path here sel cs)" "s_pl e = x" "through e q s" by blast
  have pn: "q \<in> set (port_names (s_rec e))" using e(3) by (simp add: through_def)
  from e(1) have mem: "s_rec e \<in> set cs" and pl: "placed_by path (s_rec e) = Some x"
    using e(2) by (auto elim: sites_atE)
  have "site_path e = path" using level_path [OF e(1)] port_segment [OF pn] by simp
  with e(3) have "prefix (path @ [q]) (site_path s)" by (simp add: through_def)
  with pre have "q = n" by (metis prefix_same_segment)
  moreover from port_child [OF pn pl] obtain ds key
    where ds: "(q, ds, Some key) \<in> set (children (s_rec e))" and "x = \<lparr>pl_device = key, pl_path = path\<rparr>" .
  ultimately show "(x, q) \<in> set (behind path n k)"
    using same_level [OF ok mem _ c] by (fastforce simp: behind_def)
qed

lemma level_not_through:
  assumes ok: "names_ok cs" and s: "s \<in> set (sites_at path here sel cs)"
    and e: "e \<in> set (located cs path upper sel)" and here: "here = upper @ shared_at path cs"
  shows "\<not> through e q s"
proof
  assume t: "through e q s"
  have pn: "q \<in> set (port_names (s_rec e))" and pre: "prefix (site_path e @ [q]) (site_path s)"
    using t by (simp_all add: through_def)
  from e show False
  proof (cases rule: in_locatedE)
    case 1
    then have "s_rec e \<in> set cs" by (auto elim: sites_atE)
    then have "\<not> prefix (path @ [q]) (site_path s)"
      using instrument_segment [OF ok s] port_segment [OF pn] by blast
    moreover have "site_path e = path" using level_path [OF 1] port_segment [OF pn] by simp
    ultimately show False using pre by simp
  next
    case 2
    then show False using level_not_below [OF ok s 2] pre append_prefixD by blast
  qed
qed

lemma sel_members:
  assumes "names_ok cs" and "s \<in> set (located cs path upper sel)"
  shows "(x, q) \<in> set (s_sel s) \<longleftrightarrow> (x, q) \<in> set sel
    \<or> (\<exists>e. e \<in> set (located cs path upper sel) \<and> s_pl e = x \<and> through e q s)"
  using assms
proof (induction cs path upper sel rule: located.induct)
  case (1 cs path upper sel)
  note ok = 1(2)
  let ?here = "upper @ shared_at path cs"
  let ?level = "set (sites_at path ?here sel cs)" and ?inner = "set (inner cs path ?here sel)"
  have all: "e \<in> set (located cs path upper sel) \<longleftrightarrow> e \<in> ?level \<or> e \<in> ?inner" for e
    by (simp add: located_unfold)
  from 1(3) show ?case
  proof (cases rule: in_locatedE)
    case 1
    then have "s_sel s = sel" by (auto elim: sites_atE)
    moreover have "\<not> through e q s" if "e \<in> set (located cs path upper sel)" for e
      using level_not_through [OF ok 1 that refl] .
    ultimately show ?thesis by blast
  next
    case 2
    then obtain c n cs' k where c: "c \<in> set cs" "(n, cs', k) \<in> set (children c)"
      and s: "s \<in> set (located cs' (path @ [n]) ?here (sel @ behind path n k))"
      and pre: "prefix (path @ [n]) (site_path s)" by (rule inner_path)
    let ?sub = "set (located cs' (path @ [n]) ?here (sel @ behind path n k))"
    have lev: "(n, cs', k) \<in> set (child_levels cs)" using c by (auto simp: child_levels_def)
    have IH: "(x, q) \<in> set (s_sel s) \<longleftrightarrow> (x, q) \<in> set (sel @ behind path n k)
        \<or> (\<exists>e. e \<in> ?sub \<and> s_pl e = x \<and> through e q s)"
      using "1.IH" [OF refl lev refl refl child_names_ok [OF ok c] s] .
    have "e \<in> ?inner \<and> through e q s \<longleftrightarrow> e \<in> ?sub \<and> through e q s" for e
    proof
      assume e: "e \<in> ?inner \<and> through e q s"
      from conjunct1 [OF e] obtain m where m: "prefix (path @ [m]) (site_path e)" by (rule inner_path)
      with e have "prefix (path @ [m]) (site_path s)"
        unfolding through_def by (meson append_prefixD prefix_order.trans)
      with pre have "m = n" by (metis prefix_same_segment)
      with m show "e \<in> ?sub \<and> through e q s"
        using inner_same [OF ok c, of e path ?here sel] e by simp
    qed (use inner_I [OF c] in blast)
    then show ?thesis
      unfolding IH all set_append Un_iff behind_level [OF ok c pre, of x q ?here sel] by blast
  qed
qed

text \<open>At one path a port name belongs to one selector.\<close>

lemma port_selector:
  assumes "names_ok cs" and "e \<in> set (located cs path upper sel)" and "f \<in> set (located cs path upper sel)"
    and "site_path e = site_path f" and "q \<in> set (port_names (s_rec e))" and "q \<in> set (port_names (s_rec f))"
  shows "s_pl e = s_pl f"
  using assms
proof (induction cs path upper sel rule: located.induct)
  case (1 cs path upper sel)
  note ok = 1(2) and eq = 1(5) and pe = 1(6) and pf = 1(7)
  let ?here = "upper @ shared_at path cs"
  have cross: False if "g \<in> set (sites_at path ?here sel cs)" "h \<in> set (inner cs path ?here sel)"
      "site_path g = site_path h" for g h
    using level_not_below [OF ok that(1,2)] that(3) by simp
  consider "e \<in> set (sites_at path ?here sel cs)" "f \<in> set (sites_at path ?here sel cs)"
    | "e \<in> set (inner cs path ?here sel)" "f \<in> set (inner cs path ?here sel)"
    using 1(3,4) eq cross by (metis in_locatedE)
  then show ?case
  proof cases
    case 1
    then have "s_rec e \<in> set cs" "s_rec f \<in> set cs" by (auto elim: sites_atE)
    then have "s_rec e = s_rec f"
      using distinct_concat_same [of segments cs] ok port_segment pe pf by (metis names_ok_unfold)
    moreover have "placed_by path (s_rec e) = Some (s_pl e)" "placed_by path (s_rec f) = Some (s_pl f)"
      using 1 by (auto elim: sites_atE)
    ultimately show ?thesis by simp
  next
    case 2
    from 2(1) obtain c n cs' k where c: "c \<in> set cs" "(n, cs', k) \<in> set (children c)"
      and e: "e \<in> set (located cs' (path @ [n]) ?here (sel @ behind path n k))"
      and pre: "prefix (path @ [n]) (site_path e)" by (rule inner_path)
    have f: "f \<in> set (located cs' (path @ [n]) ?here (sel @ behind path n k))"
      using inner_same [OF ok c 2(2)] pre eq by simp
    have lev: "(n, cs', k) \<in> set (child_levels cs)" using c by (auto simp: child_levels_def)
    show ?thesis
      using "1.IH" [OF refl lev refl refl child_names_ok [OF ok c] e f eq pe pf] .
  qed
qed

subsection \<open>Facts about an accepted topology\<close>

lemma site_depth: "s \<in> set (located cs path upper sel) \<Longrightarrow> sorted (map depth upper)
    \<Longrightarrow> \<forall>p\<in>set upper. depth p \<le> length path \<Longrightarrow> sorted (map depth (s_chain s))"
proof (induction cs path upper sel rule: located.induct)
  case (1 cs path upper sel)
  let ?here = "upper @ shared_at path cs"
  have shared: "depth p = length path" if "p \<in> set (shared_at path cs)" for p
    using that by (auto simp: shared_at_def in_map_filter depth_def placed_by_path)
  then have "map depth (shared_at path cs) = replicate (length (shared_at path cs)) (length path)"
    by (auto intro: nth_equalityI)
  then have here: "sorted (map depth ?here)" "\<forall>p\<in>set ?here. depth p \<le> length path"
    using 1(3,4) shared by (auto simp: sorted_append)
  from 1(2) show ?case
  proof (cases rule: in_locatedE)
    case 1
    have "depth (s_pl s) \<ge> length path" using level_path [OF 1] by (simp add: depth_def)
    moreover have "s_chain s = (if is_instrument (s_rec s) then ?here @ [s_pl s] else ?here)"
      using 1 by (auto elim: sites_atE)
    moreover have "\<forall>p\<in>set ?here. depth p \<le> depth (s_pl s)"
      using here(2) \<open>depth (s_pl s) \<ge> length path\<close> le_trans by blast
    then have "sorted (map depth (?here @ [s_pl s]))"
      using here(1) by (simp only: map_append [of _ ?here] sorted_append [of "map depth ?here"])
        (simp del: map_append)
    ultimately show ?thesis using here(1) by (simp split: if_split)
  next
    case 2
    then obtain c n cs' k where c: "c \<in> set cs" "(n, cs', k) \<in> set (children c)"
      and s: "s \<in> set (located cs' (path @ [n]) ?here (sel @ behind path n k))" by (rule innerE)
    have lev: "(n, cs', k) \<in> set (child_levels cs)" using c by (auto simp: child_levels_def)
    show ?thesis
      using "1.IH" [OF refl lev refl refl s here(1)] here(2) by fastforce
  qed
qed

lemma located_chain_last:
  "s \<in> set (located cs path upper sel) \<Longrightarrow> is_instrument (s_rec s) \<Longrightarrow> last (s_chain s) = s_pl s"
proof (induction cs path upper sel rule: located.induct)
  case (1 cs path upper sel)
  from 1(2) show ?case
  proof (cases rule: in_locatedE)
    case 1
    then have "s_chain s = (upper @ shared_at path cs) @ [s_pl s]"
      using \<open>is_instrument (s_rec s)\<close> by (auto elim: sites_atE)
    then show ?thesis by simp
  next
    case 2
    then obtain c n cs' k where "c \<in> set cs" "(n, cs', k) \<in> set (children c)"
      and s: "s \<in> set (located cs' (path @ [n]) (upper @ shared_at path cs) (sel @ behind path n k))"
      by (rule innerE)
    then have "(n, cs', k) \<in> set (child_levels cs)" by (auto simp: child_levels_def)
    from "1.IH" [OF refl this refl refl s 1(3)] show ?thesis .
  qed
qed

lemma topology_facts:
  assumes "make_topology cs = Inr tp"
  shows "names_ok cs" and "placed_once cs"
    and "record_of tp p = Inr r \<longleftrightarrow> (\<exists>s. s \<in> set (all_sites cs) \<and> s_pl s = p \<and> s_rec s = r)"
    and "chain_of tp i = Inr ch
      \<longleftrightarrow> (\<exists>s. s \<in> set (all_sites cs) \<and> is_instrument (s_rec s) \<and> s_pl s = i \<and> s_chain s = ch)"
    and "selector_states tp i = Inr st
      \<longleftrightarrow> (\<exists>s. s \<in> set (all_sites cs) \<and> is_instrument (s_rec s) \<and> s_pl s = i \<and> s_sel s = st)"
proof -
  note tp = iffD1 [OF make_topology_ok assms]
  let ?ss = "all_sites cs"
  show "names_ok cs" and once: "placed_once cs" using tp by blast+
  have dist: "distinct (map s_pl ?ss)"
    by (rule distinct_map_inner [where f = pl_device, OF once [unfolded placed_once_def]])
  have inst: "distinct (map s_pl (inst_sites ?ss))" by (rule distinct_map_filter [OF dist])
  have look: "lookup d k = Inr v \<longleftrightarrow> (k, v) \<in> set d" if "distinct (map fst d)" for d :: "('k, 'v) dict" and k v
    using map_of_eq_Some_iff [OF that, of k v]
    by (cases "map_of d k") (auto simp: lookup_def)
  have "mset (entered cs []) = mset (map site_record ?ss)" by (rule mset_entered)
  then have recs: "set (entered cs []) = site_record ` set ?ss" "distinct (map fst (entered cs []))"
    using dist by (metis set_mset_mset set_map,
        metis (no_types, lifting) comp_apply fst_conv map_map mset_eq_imp_distinct_iff mset_map map_cong)
  show "record_of tp p = Inr r \<longleftrightarrow> (\<exists>s. s \<in> set ?ss \<and> s_pl s = p \<and> s_rec s = r)"
    using tp recs by (auto simp: record_of_def look)
  show "chain_of tp i = Inr ch \<longleftrightarrow> (\<exists>s. s \<in> set ?ss \<and> is_instrument (s_rec s) \<and> s_pl s = i \<and> s_chain s = ch)"
    using tp inst by (auto simp: chain_of_def look comp_def)
  show "selector_states tp i = Inr st
      \<longleftrightarrow> (\<exists>s. s \<in> set ?ss \<and> is_instrument (s_rec s) \<and> s_pl s = i \<and> s_sel s = st)"
    using tp inst by (auto simp: selector_states_def look comp_def)
qed

definition listed :: "('k, 'v list) dict \<Rightarrow> 'k \<Rightarrow> 'v list" where
  "listed d k = (case map_of d k of Some vs \<Rightarrow> vs | None \<Rightarrow> [])"

lemma listed_append: "listed (dict_append p i d) k = (if k = p then listed d k @ [i] else listed d k)"
  by (simp add: listed_def dict_append_def)

lemma listed_fold:
  "v \<in> set (listed (fold (\<lambda>p. dict_append p i) ps d) k) \<longleftrightarrow> v \<in> set (listed d k) \<or> (v = i \<and> k \<in> set ps)"
  by (induction ps arbitrary: d) (auto simp: listed_append)

lemma collect_readers_in:
  "v \<in> set (listed (collect_readers chs) k) \<longleftrightarrow> (\<exists>ch. (v, ch) \<in> set chs \<and> k \<in> set ch)"
proof -
  have "v \<in> set (listed (fold (\<lambda>(i, ch). fold (\<lambda>p. dict_append p i) ch) chs d) k)
    \<longleftrightarrow> v \<in> set (listed d k) \<or> (\<exists>ch. (v, ch) \<in> set chs \<and> k \<in> set ch)" for d
  proof (induction chs arbitrary: d)
    case (Cons c chs)
    then show ?case by (cases c) (auto simp: listed_fold)
  qed simp
  from this [of "[]"] show ?thesis by (simp add: collect_readers_def listed_def)
qed

lemma readers_chain:
  assumes "make_topology cs = Inr tp"
  shows "i \<in> set (readers_of tp p) \<longleftrightarrow> (\<exists>ch. chain_of tp i = Inr ch \<and> p \<in> set ch)"
proof -
  note tp = iffD1 [OF make_topology_ok assms]
  have "i \<in> set (readers_of tp p) \<longleftrightarrow> (\<exists>ch. (i, ch) \<in> set (tp_chains tp) \<and> p \<in> set ch)"
    using tp collect_readers_in [of i "tp_chains tp" p] by (simp add: readers_of_def listed_def)
  also have "\<dots> \<longleftrightarrow> (\<exists>ch. chain_of tp i = Inr ch \<and> p \<in> set ch)"
    unfolding topology_facts(4) [OF assms] using tp by auto
  finally show ?thesis .
qed

lemma of_pairs_lookup:
  assumes "\<And>k v w. (k, v) \<in> set kvs \<Longrightarrow> (k, w) \<in> set kvs \<Longrightarrow> v = w"
  shows "map_of (of_pairs kvs) k = Some v \<longleftrightarrow> (k, v) \<in> set kvs"
proof -
  have snoc: "map_of (dict_sets (kvs @ [(k', v')]) d) k = ((map_of (dict_sets kvs d))(k' \<mapsto> v')) k"
    for kvs k' v' and d :: "('a, 'b) dict"
    by simp
  show ?thesis
    using assms unfolding of_pairs_def
  proof (induction kvs rule: rev_induct)
    case (snoc kv kvs)
    obtain k' v' where kv: "kv = (k', v')" by fastforce
    have "map_of (dict_sets kvs []) k = Some v \<longleftrightarrow> (k, v) \<in> set kvs"
      by (rule snoc.IH) (metis snoc.prems in_set_conv_decomp append_Cons append.assoc set_append UnI1)
    moreover have "(k', w) \<in> set kvs \<Longrightarrow> w = v'" for w
      by (rule snoc.prems [of k']) (simp_all add: kv)
    ultimately show ?case by (auto simp: kv)
  qed simp
qed

lemma first_differing_None:
  "first_differing ports l = None \<longleftrightarrow> (\<forall>(s, p)\<in>set l. \<forall>q. map_of ports s = Some q \<longrightarrow> q = p)"
  by (induction l) (auto split: option.splits if_splits)

lemma first_differing_Some:
  "first_differing ports l = Some s \<Longrightarrow> \<exists>p q. (s, p) \<in> set l \<and> map_of ports s = Some q \<and> q \<noteq> p"
  by (induction l) (auto split: option.splits if_splits, blast+)

text \<open>Instruments \<open>a\<close> and \<open>b\<close> need different ports of the selector at \<open>s\<close>.\<close>

definition conflict_at :: "topology \<Rightarrow> placement \<Rightarrow> placement \<Rightarrow> placement \<Rightarrow> bool" where
  "conflict_at tp a b s \<longleftrightarrow> (\<exists>r p q. record_of tp s = Inr r \<and> p \<in> set (port_names r) \<and> q \<in> set (port_names r)
     \<and> p \<noteq> q \<and> prefix (pl_path s @ [p]) (pl_path a) \<and> prefix (pl_path s @ [q]) (pl_path b))"

lemma conflict_at_sym: "conflict_at tp a b s \<longleftrightarrow> conflict_at tp b a s"
  unfolding conflict_at_def by metis

lemma fork_unique:
  assumes "prefix (P @ [p]) a" "prefix (P @ [q]) b" "p \<noteq> q"
    and "prefix (R @ [u]) a" "prefix (R @ [v]) b" "u \<noteq> v"
  shows "P = R \<and> p = u"
proof -
  have long: False if lt: "strict_prefix X Y" and "prefix (X @ [x]) a" "prefix (X @ [y]) b" "x \<noteq> y"
    and "prefix (Y @ [z]) a" "prefix (Y @ [w]) b" for X Y x y z w
  proof -
    from lt obtain k ks where "Y = X @ k # ks" by (auto elim: strict_prefixE')
    then have "prefix (X @ [k]) a" "prefix (X @ [k]) b"
      using that(5,6) by (auto simp: prefix_def)
    then show False using that prefix_same_segment by metis
  qed
  have "prefix P a" "prefix R a" using assms(1,4) by (blast dest: append_prefixD)+
  then have "prefix P R \<or> prefix R P" by (rule prefix_same_cases)
  then have "P = R"
    using long [OF _ assms(1-3) assms(4,5)] long [OF _ assms(4-6) assms(1,2)]
    unfolding strict_prefix_def by blast
  then show ?thesis using assms(1,4) prefix_same_segment by metis
qed

lemma conflict_unique:
  assumes "make_topology cs = Inr tp" and "conflict_at tp a b s" and "conflict_at tp a b t"
  shows "s = t"
proof -
  from assms(2) obtain e p q where e: "e \<in> set (all_sites cs)" "s_pl e = s" "p \<in> set (port_names (s_rec e))"
    "p \<noteq> q" "prefix (pl_path s @ [p]) (pl_path a)" "prefix (pl_path s @ [q]) (pl_path b)"
    unfolding conflict_at_def topology_facts(3) [OF assms(1)] by metis
  from assms(3) obtain f u v where f: "f \<in> set (all_sites cs)" "s_pl f = t" "u \<in> set (port_names (s_rec f))"
    "u \<noteq> v" "prefix (pl_path t @ [u]) (pl_path a)" "prefix (pl_path t @ [v]) (pl_path b)"
    unfolding conflict_at_def topology_facts(3) [OF assms(1)] by metis
  have "pl_path s = pl_path t \<and> p = u" by (rule fork_unique [OF e(5,6,4) f(5,6,4)])
  then show ?thesis
    using port_selector [OF topology_facts(1) [OF assms(1)] e(1) f(1)] e f by metis
qed

lemma selector_state_in:
  assumes "make_topology cs = Inr tp" and "selector_states tp a = Inr st"
  shows "(s, p) \<in> set st \<longleftrightarrow>
    (\<exists>r. record_of tp s = Inr r \<and> p \<in> set (port_names r) \<and> prefix (pl_path s @ [p]) (pl_path a))"
proof -
  from assms obtain e where e: "e \<in> set (all_sites cs)" "s_pl e = a" "s_sel e = st"
    by (auto simp: topology_facts(5) [OF assms(1)])
  show ?thesis
    using sel_members [OF topology_facts(1) [OF assms(1)] e(1), of s p] e(2,3)
    unfolding topology_facts(3) [OF assms(1)] through_def by auto
qed

lemma mutually_exclusive_iff:
  assumes tp: "make_topology cs = Inr tp"
    and a: "selector_states tp a = Inr as" and b: "selector_states tp b = Inr bs"
  shows "mutually_exclusive tp a b = Inr (Some s) \<longleftrightarrow> conflict_at tp a b s"
    and "\<exists>x. mutually_exclusive tp a b = Inr x"
proof -
  have me: "mutually_exclusive tp a b = Inr (first_differing (of_pairs bs) as)"
    by (simp add: mutually_exclusive_def a b)
  then show "\<exists>x. mutually_exclusive tp a b = Inr x" by blast
  have look: "map_of (of_pairs bs) k = Some v \<longleftrightarrow> (k, v) \<in> set bs" for k v
    by (rule of_pairs_lookup) (metis prefix_same_segment selector_state_in [OF tp b])
  have conflict: "conflict_at tp a b k \<longleftrightarrow> (\<exists>p q. (k, p) \<in> set as \<and> (k, q) \<in> set bs \<and> q \<noteq> p)" for k
    unfolding selector_state_in [OF tp a] selector_state_in [OF tp b] conflict_at_def
    by (metis sum.inject(2))
  show "mutually_exclusive tp a b = Inr (Some s) \<longleftrightarrow> conflict_at tp a b s"
  proof
    assume "mutually_exclusive tp a b = Inr (Some s)"
    then have "first_differing (of_pairs bs) as = Some s" using me by simp
    from first_differing_Some [OF this] show "conflict_at tp a b s"
      unfolding look conflict by blast
  next
    assume c: "conflict_at tp a b s"
    then have "first_differing (of_pairs bs) as \<noteq> None"
      unfolding first_differing_None conflict look by blast
    then obtain t where t: "first_differing (of_pairs bs) as = Some t" by blast
    from first_differing_Some [OF this] have "conflict_at tp a b t"
      unfolding look conflict by blast
    with c have "t = s" by (rule conflict_unique [OF tp, symmetric])
    with t me show "mutually_exclusive tp a b = Inr (Some s)" by simp
  qed
qed

subsection \<open>Properties\<close>

text \<open>A bench behind a wheel with two cameras, and a guider beside it.\<close>

definition demo_structure :: "component list" where
  "demo_structure =
    (let dev = (\<lambda>k i. Device \<lparr>dev_key = k, dev_traits = [], dev_tags = [], dev_instrument = i\<rparr>) in
     [dev ''mount'' False, dev ''guider'' True,
      Unit ''bench'' [Selector ''wheel''
        [Port ''a'' [dev ''cam1'' True, dev ''focuser'' False], Port ''b'' [dev ''cam2'' True]] [] []]])"

text \<open>C19. \<open>Topology(structure)\<close> accepts exactly the structures whose device keys are all
  different and whose siblings contribute different path segments, at every level; what it
  then holds is the stateless listing of the structure: one record per device, a chain and the
  required ports per instrument, in traversal order.\<close>

theorem topology_is_listing:
  "((\<exists>tp. make_topology cs = Inr tp) \<longleftrightarrow> names_ok cs \<and> placed_once cs)
   \<and> (make_topology cs = Inr tp \<longrightarrow>
        tp_records tp = entered cs []
      \<and> mset (tp_records tp) = mset (map site_record (all_sites cs))
      \<and> tp_chains tp = map (\<lambda>s. (s_pl s, s_chain s)) (inst_sites (all_sites cs))
      \<and> tp_ports tp = map (\<lambda>s. (s_pl s, s_sel s)) (inst_sites (all_sites cs)))"
proof
  have "make_topology cs = Inr \<lparr>tp_structure = cs, tp_records = entered cs [],
      tp_chains = map (\<lambda>s. (s_pl s, s_chain s)) (inst_sites (all_sites cs)),
      tp_ports = map (\<lambda>s. (s_pl s, s_sel s)) (inst_sites (all_sites cs)),
      tp_readers = collect_readers (map (\<lambda>s. (s_pl s, s_chain s)) (inst_sites (all_sites cs))),
      tp_private = map (\<lambda>(i, chain). (i, {p \<in> set chain.
        owned (collect_readers (map (\<lambda>s. (s_pl s, s_chain s)) (inst_sites (all_sites cs)))) p i}))
        (map (\<lambda>s. (s_pl s, s_chain s)) (inst_sites (all_sites cs)))\<rparr>"
    if "names_ok cs \<and> placed_once cs"
    by (rule iffD2 [OF make_topology_ok]) (simp add: that)
  then show "(\<exists>tp. make_topology cs = Inr tp) \<longleftrightarrow> names_ok cs \<and> placed_once cs"
    unfolding make_topology_ok by blast
  show "make_topology cs = Inr tp \<longrightarrow> tp_records tp = entered cs []
      \<and> mset (tp_records tp) = mset (map site_record (all_sites cs))
      \<and> tp_chains tp = map (\<lambda>s. (s_pl s, s_chain s)) (inst_sites (all_sites cs))
      \<and> tp_ports tp = map (\<lambda>s. (s_pl s, s_sel s)) (inst_sites (all_sites cs))"
    unfolding make_topology_ok using mset_entered [of cs "[]" "[]" "[]"] by simp
qed

text \<open>C14. The chain of an instrument holds exactly the instrument and the devices and selectors
  at the levels that contain it, from root to leaf, ending with the instrument; the readers of
  a placement are the instruments whose chains hold it.\<close>

theorem chain_is_containment:
  assumes "make_topology cs = Inr tp" and "chain_of tp i = Inr ch"
  shows "set ch = insert i {p. \<exists>r. record_of tp p = Inr r \<and> \<not> is_instrument r \<and> prefix (pl_path p) (pl_path i)}
    \<and> last ch = i \<and> sorted (map depth ch)
    \<and> (p \<in> set ch \<longleftrightarrow> i \<in> set (readers_of tp p))"
proof -
  from assms obtain s where s: "s \<in> set (all_sites cs)" "is_instrument (s_rec s)" "s_pl s = i" "s_chain s = ch"
    by (auto simp: topology_facts(4) [OF assms(1)])
  have "set ch = insert i {p. \<exists>r. record_of tp p = Inr r \<and> \<not> is_instrument r \<and> prefix (pl_path p) (pl_path i)}"
    using chain_members [OF topology_facts(1) [OF assms(1)] s(1)] s(2-4)
    unfolding topology_facts(3) [OF assms(1)] by auto
  moreover have "last ch = i" using located_chain_last [OF s(1,2)] s(3,4) by simp
  moreover have "sorted (map depth ch)" using site_depth [OF s(1)] s(4) by simp
  moreover have "p \<in> set ch \<longleftrightarrow> i \<in> set (readers_of tp p)"
    unfolding readers_chain [OF assms(1)] using assms(2) by auto
  ultimately show ?thesis by blast
qed

text \<open>C18. Mutual exclusion is symmetric and exact: for two instruments the answer is the one
  selector that both pass through different ports of, from whichever side it is asked, and
  there is none exactly when no selector separates them.\<close>

theorem exclusion_symmetric:
  assumes "make_topology cs = Inr tp" and "selector_states tp a = Inr as" and "selector_states tp b = Inr bs"
  shows "mutually_exclusive tp a b = mutually_exclusive tp b a
    \<and> (mutually_exclusive tp a b = Inr (Some s) \<longleftrightarrow> conflict_at tp a b s)
    \<and> (mutually_exclusive tp a b = Inr None \<longleftrightarrow> (\<forall>s. \<not> conflict_at tp a b s))"
proof -
  note ab = mutually_exclusive_iff [OF assms] and ba = mutually_exclusive_iff [OF assms(1,3,2)]
  obtain x where x: "mutually_exclusive tp a b = Inr x" using ab(2) by blast
  obtain y where y: "mutually_exclusive tp b a = Inr y" using ba(2) by blast
  have "x = Some s \<longleftrightarrow> conflict_at tp a b s" "y = Some s \<longleftrightarrow> conflict_at tp a b s" for s
    using ab(1) [of s] ba(1) [of s] x y by (simp_all add: conflict_at_sym [of tp b])
  note same = this
  have "x = y" by (rule option.expand) (use same in \<open>metis not_None_eq, metis option.collapse option.inject\<close>)
  moreover have "x = None \<longleftrightarrow> (\<forall>s. \<not> conflict_at tp a b s)" using same(1) by (metis not_None_eq)
  ultimately have "x = y" and "x = None \<longleftrightarrow> (\<forall>s. \<not> conflict_at tp a b s)" by blast+
  with x y ab(1) [of s] show ?thesis by auto
qed

lemma map_of_map_value: "map_of (map (\<lambda>(k, v). (k, f k v)) d) k = map_option (f k) (map_of d k)"
  by (induction d) auto

lemma private_of_chain:
  assumes "tp_private tp = map (\<lambda>(i, chain). (i, {p \<in> set chain. owned (tp_readers tp) p i})) (tp_chains tp)"
    and "private_of tp i = Inr ps"
  shows "\<exists>ch. (i, ch) \<in> set (tp_chains tp) \<and> ps = {p \<in> set ch. owned (tp_readers tp) p i}"
proof -
  have "(i, ps) \<in> set (tp_private tp)"
    using assms(2) by (auto simp: private_of_def lookup_def split: option.splits dest: map_of_SomeD)
  then show ?thesis unfolding assms(1) by auto
qed

text \<open>A private placement is on its instrument's chain, at its own level or directly beside
  it, and on no other instrument's.\<close>

theorem private_is_private:
  assumes "make_topology cs = Inr tp" and "private_of tp i = Inr ps" and "p \<in> ps"
  shows "(\<exists>ch. chain_of tp i = Inr ch \<and> p \<in> set ch)
    \<and> pl_path p \<in> {butlast (pl_path i), pl_path i}
    \<and> (\<forall>j ch. chain_of tp j = Inr ch \<and> p \<in> set ch \<longrightarrow> j = i)"
proof -
  note tp = iffD1 [OF make_topology_ok assms(1)]
  from assms(2) obtain ch where "(i, ch) \<in> set (tp_chains tp)" and ps: "ps = {p \<in> set ch. owned (tp_readers tp) p i}"
    using private_of_chain [of tp i ps] tp by blast
  then have "chain_of tp i = Inr ch"
    unfolding topology_facts(4) [OF assms(1)] using tp by auto
  moreover have "readers_of tp p = [i]" and "pl_path p \<in> {butlast (pl_path i), pl_path i}"
    using assms(3) ps by (simp_all add: owned_def readers_of_def)
  moreover have "j = i" if "chain_of tp j = Inr ch'" "p \<in> set ch'" for j ch'
    using readers_chain [OF assms(1), of j p] that \<open>readers_of tp p = [i]\<close> by auto
  ultimately show ?thesis using assms(3) ps by blast
qed

abbreviation demo_cam1 :: placement where
  "demo_cam1 \<equiv> \<lparr>pl_device = ''cam1'', pl_path = [''bench'', ''a'', ''cam1'']\<rparr>"

abbreviation demo_cam2 :: placement where
  "demo_cam2 \<equiv> \<lparr>pl_device = ''cam2'', pl_path = [''bench'', ''b'', ''cam2'']\<rparr>"

definition demo_topology :: topology where
  "demo_topology = projr (make_topology demo_structure)"

definition demo_tables :: tables where
  "demo_tables = projr (visit demo_structure [] [] [] empty_tables)"

lemma demo_visit: "visit demo_structure [] [] [] empty_tables = Inr demo_tables"
proof -
  have "\<not> isl (visit demo_structure [] [] [] empty_tables)" by code_simp
  then show ?thesis by (simp add: demo_tables_def)
qed

lemma demo_topology: "make_topology demo_structure = Inr demo_topology"
  by (simp add: demo_topology_def make_topology_def demo_visit Let_def)

lemma demo_topology_tables:
  "tp_records demo_topology = t_records demo_tables"
  "tp_chains demo_topology = t_chains demo_tables"
  "tp_ports demo_topology = t_ports demo_tables"
  "tp_readers demo_topology = collect_readers (t_chains demo_tables)"
  "tp_private demo_topology = map (\<lambda>(i, chain).
      (i, {p \<in> set chain. owned (collect_readers (t_chains demo_tables)) p i})) (t_chains demo_tables)"
  by (simp_all add: demo_topology_def make_topology_def demo_visit Let_def)

abbreviation demo_place :: "string \<Rightarrow> string list \<Rightarrow> placement" where
  "demo_place k path \<equiv> \<lparr>pl_device = k, pl_path = path\<rparr>"

lemma demo_chain:
  "chain_of demo_topology demo_cam1 = Inr
    [\<lparr>pl_device = ''mount'', pl_path = []\<rparr>, \<lparr>pl_device = ''wheel'', pl_path = [''bench'']\<rparr>,
     \<lparr>pl_device = ''focuser'', pl_path = [''bench'', ''a'']\<rparr>, demo_cam1]"
  unfolding chain_of_def demo_topology_tables by code_simp

lemma demo_states:
  "selector_states demo_topology demo_cam1 = Inr [(demo_place ''wheel'' [''bench''], ''a'')]"
  "selector_states demo_topology demo_cam2 = Inr [(demo_place ''wheel'' [''bench''], ''b'')]"
  unfolding selector_states_def demo_topology_tables by code_simp+

lemma demo_table_chains:
  "t_chains demo_tables =
    [(demo_place ''guider'' [''guider''], [demo_place ''mount'' [], demo_place ''guider'' [''guider'']]),
     (demo_cam1, [demo_place ''mount'' [], demo_place ''wheel'' [''bench''],
        demo_place ''focuser'' [''bench'', ''a''], demo_cam1]),
     (demo_cam2, [demo_place ''mount'' [], demo_place ''wheel'' [''bench''], demo_cam2])]"
  by code_simp

lemma dict_append_rec:
  "dict_append k v [] = [(k, [v])]"
  "dict_append k v ((k', vs) # d) = (if k' = k then (k, vs @ [v]) # d else (k', vs) # dict_append k v d)"
  by (auto simp: dict_append_def)

theorem topology_is_listing_witness:
  "tp_records demo_topology = entered demo_structure [] \<and> names_ok demo_structure"
  using topology_is_listing [of demo_structure demo_topology] demo_topology by blast

theorem chain_is_containment_witness:
  "demo_cam1 \<in> set (readers_of demo_topology (demo_place ''wheel'' [''bench'']))"
  using chain_is_containment [OF demo_topology demo_chain, of "demo_place ''wheel'' [''bench'']"] by simp

theorem exclusion_symmetric_witness:
  "mutually_exclusive demo_topology demo_cam1 demo_cam2 = mutually_exclusive demo_topology demo_cam2 demo_cam1
   \<and> mutually_exclusive demo_topology demo_cam1 demo_cam2 = Inr (Some (demo_place ''wheel'' [''bench'']))"
proof -
  have "mutually_exclusive demo_topology demo_cam1 demo_cam2 = Inr (Some (demo_place ''wheel'' [''bench'']))"
    by (simp add: mutually_exclusive_def demo_states of_pairs_def)
  with exclusion_symmetric [OF demo_topology demo_states] show ?thesis by simp
qed

theorem private_is_private_witness:
  "\<exists>ps. private_of demo_topology demo_cam1 = Inr ps \<and> demo_place ''focuser'' [''bench'', ''a''] \<in> ps
    \<and> (\<forall>ch. chain_of demo_topology demo_cam2 = Inr ch \<longrightarrow> demo_place ''focuser'' [''bench'', ''a''] \<notin> set ch)"
proof -
  let ?rs = "collect_readers (t_chains demo_tables)" and ?f = "demo_place ''focuser'' [''bench'', ''a'']"
  obtain ch where ch: "map_of (t_chains demo_tables) demo_cam1 = Some ch" "?f \<in> set ch"
    using demo_chain unfolding chain_of_def demo_topology_tables lookup_def
    by (auto split: option.splits)
  then have p: "private_of demo_topology demo_cam1 = Inr {p \<in> set ch. owned ?rs p demo_cam1}"
    unfolding private_of_def lookup_def demo_topology_tables by (simp add: map_of_map_value)
  have "owned ?rs ?f demo_cam1"
    by (simp add: owned_def demo_table_chains collect_readers_def dict_append_rec)
  with ch(2) have mem: "?f \<in> {p \<in> set ch. owned ?rs p demo_cam1}" by simp
  have other: "demo_cam2 \<noteq> demo_cam1" by simp
  have "\<forall>j ch. chain_of demo_topology j = Inr ch \<and> ?f \<in> set ch \<longrightarrow> j = demo_cam1"
    using private_is_private [OF demo_topology p mem] by (elim conjE)
  with other have "\<forall>ch. chain_of demo_topology demo_cam2 = Inr ch \<longrightarrow> ?f \<notin> set ch" by metis
  with p mem show ?thesis by blast
qed

end
