(* ===== verification/Common_Predicate.thy ===== *)
theory Common_Predicate
  imports Kit_Prelude "HOL-Library.List_Lexorder" "HOL-Library.Char_ord"
begin

section \<open>Predicates at a path (core/src/sensorkit/common/predicate.py)\<close>

text \<open>
  Values are the Python values the predicates read: \<open>None\<close>, numbers, text, enum members,
  collections, model instances, and the sentinel \<open>MISSING\<close>.  Comparison follows Python:
  numbers compare across \<open>bool\<close>, \<open>int\<close> and \<open>float\<close>, sequences lexicographically, sets by
  inclusion, and \<open>None\<close> as a result of an ordering is the \<open>TypeError\<close> it raises.  Floats are
  reals, so NaN and the infinities are outside the model; other objects (bytes, mappings,
  functions) are opaque tokens.  \<open>getattr\<close> sees the fields of model instances only.
  Annotations are the types pydantic fields carry; a class environment gives each model its
  fields.  The theory ends with the relation between the static walk \<open>resolve_path\<close> and the
  runtime walk \<open>read_path\<close>, and between \<open>check_operand\<close> and \<open>test\<close>.
\<close>

subsection \<open>Values and their comparisons\<close>

datatype coll_kind = KList | KTuple | KSet

datatype pyval =
    VMissing
  | VNone
  | VBool bool
  | VInt int
  | VFloat real
  | VStr string
  | VEnum string pyval
  | VOpaque string nat
  | VColl coll_kind "pyval list"
  | VObj string "(string \<times> pyval) list"

fun num :: "pyval \<Rightarrow> real option" where
  "num (VBool b) = Some (if b then 1 else 0)"
| "num (VInt i) = Some (of_int i)"
| "num (VFloat r) = Some r"
| "num _ = None"

lemma size_elem: "x \<in> set xs \<Longrightarrow> size (x :: pyval) < Suc (size_list size xs)"
  by (simp add: less_Suc_eq_le size_list_estimation')

lemma size_field: "(f, x) \<in> set fs \<Longrightarrow> size (x :: pyval) < Suc (size_list (size_prod (\<lambda>_. 0) size) fs)"
  by (drule size_list_estimation' [where f = "size_prod (\<lambda>_. 0) size", OF _ order_refl]) (simp add: size_prod_def)

lemma size_elems:
  assumes "x \<in> set xs" and "y \<in> set ys"
  shows "size (x :: pyval) + size (y :: pyval) < Suc (Suc (size_list size xs + size_list size ys))"
  using size_elem [OF assms(1)] size_elem [OF assms(2)] by simp

lemma size_elems_swap:
  assumes "x \<in> set xs" and "y \<in> set ys"
  shows "size (y :: pyval) + size (x :: pyval) < Suc (Suc (size_list size xs + size_list size ys))"
  using size_elems [OF assms] by simp

lemma size_fields:
  assumes "(f, x) \<in> set fs" and "(g, y) \<in> set gs"
  shows "size (x :: pyval) + size (y :: pyval)
    < Suc (Suc (size_list (size_prod (\<lambda>_. 0) size) fs + size_list (size_prod (\<lambda>_. 0) size) gs))"
  using size_field [OF assms(1)] size_field [OF assms(2)] by simp

lemma zip_mem: "(x, y) \<in> set (zip xs ys) \<Longrightarrow> x \<in> set xs \<and> y \<in> set ys"
  by (metis set_zip_leftD set_zip_rightD)

function py_eq :: "pyval \<Rightarrow> pyval \<Rightarrow> bool" where
  "py_eq v w =
    (case (num v, num w) of
       (Some m, Some n) \<Rightarrow> m = n
     | (Some m, None) \<Rightarrow> False
     | (None, Some n) \<Rightarrow> False
     | (None, None) \<Rightarrow>
         (case (v, w) of
            (VColl k xs, VColl l ys) \<Rightarrow> k = l \<and>
              (if k = KSet
               then (\<forall>x\<in>set xs. \<exists>y\<in>set ys. py_eq x y) \<and> (\<forall>y\<in>set ys. \<exists>x\<in>set xs. py_eq x y)
               else length xs = length ys \<and> (\<forall>(x, y)\<in>set (zip xs ys). py_eq x y))
          | (VObj c fs, VObj d gs) \<Rightarrow> c = d \<and> map fst fs = map fst gs
              \<and> (\<forall>(x, y)\<in>set (zip (map snd fs) (map snd gs)). py_eq x y)
          | _ \<Rightarrow> v = w))"
  by pat_completeness auto
termination
  by (relation "measure (\<lambda>(v, w). size v + size w)")
    (auto dest!: zip_mem intro: size_elems size_elems_swap, metis size_fields)

datatype ord_op = OLt | OLe | OGt | OGe

fun ord_rel :: "ord_op \<Rightarrow> 'a::linorder \<Rightarrow> 'a \<Rightarrow> bool" where
  "ord_rel OLt a b \<longleftrightarrow> a < b"
| "ord_rel OLe a b \<longleftrightarrow> a \<le> b"
| "ord_rel OGt a b \<longleftrightarrow> b < a"
| "ord_rel OGe a b \<longleftrightarrow> b \<le> a"

declare py_eq.simps [simp del]

definition set_incl :: "pyval list \<Rightarrow> pyval list \<Rightarrow> bool" where
  "set_incl xs ys \<longleftrightarrow> (\<forall>x\<in>set xs. \<exists>y\<in>set ys. py_eq x y)"

fun set_ord :: "ord_op \<Rightarrow> pyval list \<Rightarrow> pyval list \<Rightarrow> bool" where
  "set_ord OLt xs ys \<longleftrightarrow> set_incl xs ys \<and> \<not> set_incl ys xs"
| "set_ord OLe xs ys \<longleftrightarrow> set_incl xs ys"
| "set_ord OGt xs ys \<longleftrightarrow> set_incl ys xs \<and> \<not> set_incl xs ys"
| "set_ord OGe xs ys \<longleftrightarrow> set_incl ys xs"

function py_ord :: "ord_op \<Rightarrow> pyval \<Rightarrow> pyval \<Rightarrow> bool option"
and ord_seq :: "ord_op \<Rightarrow> pyval list \<Rightarrow> pyval list \<Rightarrow> bool option" where
  "py_ord op v w =
    (case (num v, num w) of
       (Some m, Some n) \<Rightarrow> Some (ord_rel op m n)
     | (None, None) \<Rightarrow>
         (case (v, w) of
            (VStr s, VStr t) \<Rightarrow> Some (ord_rel op s t)
          | (VColl k xs, VColl l ys) \<Rightarrow>
              if k = KSet \<and> l = KSet then Some (set_ord op xs ys)
              else if k = l then ord_seq op xs ys else None
          | _ \<Rightarrow> None)
     | _ \<Rightarrow> None)"
| "ord_seq op [] ys = Some (ord_rel op 0 (length ys))"
| "ord_seq op (x # xs) [] = Some (ord_rel op (1::nat) 0)"
| "ord_seq op (x # xs) (y # ys) = (if py_eq x y then ord_seq op xs ys else py_ord op x y)"
  by pat_completeness auto
termination
  by (relation "measure (\<lambda>a. case a of Inl (_, v, w) \<Rightarrow> size v + size w
      | Inr (_, xs, ys) \<Rightarrow> size_list size xs + size_list size ys)") auto

declare py_ord.simps [simp del]

subsection \<open>Annotations and classes\<close>

datatype ann =
    TAny
  | TNone
  | TBool
  | TInt
  | TFloat
  | TStr
  | TEnum string "pyval list" bool
  | TModel string
  | TOpaque string bool
  | TColl coll_kind "ann list option"
  | TEllipsis
  | TUnion "ann list"
  | TAnnotated ann

record class_info =
  ci_fields :: "(string \<times> ann) list"
  ci_bases :: "string list"
  ci_ordered :: bool

type_synonym classes = "string \<Rightarrow> class_info option"

definition is_subclass :: "classes \<Rightarrow> string \<Rightarrow> string \<Rightarrow> bool" where
  "is_subclass env c d \<longleftrightarrow>
    c = d \<or> (case env c of Some ci \<Rightarrow> d \<in> set (ci_bases ci) | None \<Rightarrow> False)"

fun candidates :: "ann \<Rightarrow> ann list" where
  "candidates (TAnnotated a) = candidates a"
| "candidates (TUnion as) = concat (map candidates (filter (\<lambda>a. a \<noteq> TNone) as))"
| "candidates a = [a]"

fun collection_element :: "ann \<Rightarrow> ann list" where
  "collection_element (TColl k None) = [TAny]"
| "collection_element (TColl k (Some as)) =
    (let args = filter (\<lambda>a. a \<noteq> TEllipsis) as in if args = [] then [TAny] else args)"
| "collection_element _ = []"

fun is_collection :: "pyval \<Rightarrow> bool" where
  "is_collection (VColl k xs) = True"
| "is_collection _ = False"

text \<open>\<open>isinstance(base, type)\<close>, and \<open>isinstance(operand, base)\<close> for such a base.\<close>

fun is_type :: "ann \<Rightarrow> bool" where
  "is_type (TUnion as) = False"
| "is_type (TAnnotated a) = False"
| "is_type TEllipsis = False"
| "is_type _ = True"

definition isinstance :: "classes \<Rightarrow> pyval \<Rightarrow> ann \<Rightarrow> bool" where
  "isinstance env v a =
    (case v of
       VMissing \<Rightarrow> False
     | VNone \<Rightarrow> a = TNone
     | VBool b \<Rightarrow> a = TBool \<or> a = TInt
     | VInt i \<Rightarrow> a = TInt
     | VFloat r \<Rightarrow> a = TFloat
     | VStr s \<Rightarrow> a = TStr
     | VEnum c m \<Rightarrow> (case a of TEnum d vs ordered \<Rightarrow> c = d | _ \<Rightarrow> False)
     | VOpaque c n \<Rightarrow> (case a of TOpaque d ordered \<Rightarrow> c = d | _ \<Rightarrow> False)
     | VColl k xs \<Rightarrow> (case a of TColl l args \<Rightarrow> k = l | _ \<Rightarrow> False)
     | VObj c fs \<Rightarrow> (case a of TModel d \<Rightarrow> is_subclass env c d | _ \<Rightarrow> False))"

fun numeric_ann :: "ann \<Rightarrow> bool" where
  "numeric_ann TInt = True"
| "numeric_ann TFloat = True"
| "numeric_ann _ = False"

fun numeric_val :: "pyval \<Rightarrow> bool" where
  "numeric_val (VInt i) = True"
| "numeric_val (VFloat r) = True"
| "numeric_val _ = False"

definition accepts :: "classes \<Rightarrow> ann \<Rightarrow> pyval \<Rightarrow> bool" where
  "accepts env a operand \<longleftrightarrow>
    (if a = TAny \<or> \<not> is_type a then True
     else if isinstance env operand a then True
     else case a of
            TEnum c vs ordered \<Rightarrow> \<exists>v\<in>set vs. py_eq operand v
          | _ \<Rightarrow> numeric_ann a \<and> numeric_val operand)"

fun orderable :: "classes \<Rightarrow> ann \<Rightarrow> bool" where
  "orderable env TNone = False"
| "orderable env (TEnum c vs ordered) = ordered"
| "orderable env (TModel c) = (case env c of Some ci \<Rightarrow> ci_ordered ci | None \<Rightarrow> False)"
| "orderable env (TOpaque c ordered) = ordered"
| "orderable env _ = True"

subsection \<open>Paths\<close>

datatype predicate_error =
    NoField string
  | AddressesCollection
  | CannotCompare pyval
  | NeedsOrdered
  | NeedsCollection
  | CannotEqual pyval
  | NegatesExists

record path_type =
  pt_annotations :: "ann list"
  pt_projected :: bool

definition path_type_of :: "ann \<Rightarrow> path_type" where
  "path_type_of a = \<lparr>pt_annotations = candidates a, pt_projected = False\<rparr>"

definition pt_elements :: "path_type \<Rightarrow> ann list" where
  "pt_elements p = (if pt_projected p then pt_annotations p
    else concat (map collection_element (pt_annotations p)))"

definition pt_collection :: "path_type \<Rightarrow> bool" where
  "pt_collection p \<longleftrightarrow> pt_projected p \<or> (\<exists>a\<in>set (pt_annotations p). collection_element a \<noteq> [])"

text \<open>\<open>path.split('.')\<close>.\<close>

fun split_on :: "char \<Rightarrow> string \<Rightarrow> string list" where
  "split_on sep [] = [[]]"
| "split_on sep (c # cs) =
    (if c = sep then [] # split_on sep cs
     else case split_on sep cs of [] \<Rightarrow> [[c]] | w # ws \<Rightarrow> (c # w) # ws)"

definition segments_of :: "string \<Rightarrow> string list" where
  "segments_of path = split_on (CHR ''.'') path"

fun model_field :: "classes \<Rightarrow> ann \<Rightarrow> string \<Rightarrow> ann list" where
  "model_field env (TModel c) seg =
    (case env c of None \<Rightarrow> []
     | Some ci \<Rightarrow> (case map_of (ci_fields ci) seg of None \<Rightarrow> [] | Some a \<Rightarrow> candidates a))"
| "model_field env _ seg = []"

definition path_step :: "classes \<Rightarrow> ann \<Rightarrow> string \<Rightarrow> ann list \<times> bool" where
  "path_step env a seg =
    (let elements = collection_element a;
         sources = (if elements = [] then [a] else elements)
     in (concat (map (\<lambda>src. model_field env src seg) sources), elements \<noteq> []))"

fun resolve_segments :: "classes \<Rightarrow> string list \<Rightarrow> path_type \<Rightarrow> predicate_error + path_type" where
  "resolve_segments env [] cur = Inr cur"
| "resolve_segments env (seg # segs) cur =
    (let steps = map (\<lambda>a. path_step env a seg) (pt_annotations cur);
         anns = concat (map fst steps);
         projected = (pt_projected cur \<or> (\<exists>st\<in>set steps. snd st))
     in if anns = [] then Inl (NoField seg)
        else resolve_segments env segs \<lparr>pt_annotations = anns, pt_projected = projected\<rparr>)"

definition resolve_path :: "classes \<Rightarrow> ann \<Rightarrow> string \<Rightarrow> predicate_error + path_type" where
  "resolve_path env model path = resolve_segments env (segments_of path) (path_type_of model)"

fun getattr :: "pyval \<Rightarrow> string \<Rightarrow> pyval option" where
  "getattr (VObj c fs) seg = map_of fs seg"
| "getattr _ seg = None"

fun items :: "pyval \<Rightarrow> pyval list" where
  "items (VColl k xs) = xs"
| "items v = [v]"

definition read_step :: "string \<Rightarrow> pyval list \<Rightarrow> pyval list" where
  "read_step seg values = List.map_filter (\<lambda>x. getattr x seg) (concat (map items values))"

fun read_segments :: "string list \<Rightarrow> pyval list \<times> bool \<Rightarrow> pyval list \<times> bool" where
  "read_segments [] st = st"
| "read_segments (seg # segs) (values, projected) =
    read_segments segs (read_step seg values, projected \<or> (\<exists>v\<in>set values. is_collection v))"

definition read_path :: "pyval \<Rightarrow> string \<Rightarrow> pyval" where
  "read_path obj path =
    (let (values, projected) = read_segments (segments_of path) ([obj], False) in
     if projected then VColl KTuple values
     else case values of [] \<Rightarrow> VMissing | v # _ \<Rightarrow> v)"

subsection \<open>Predicates\<close>

datatype cmp_op = CEq | CNe | COrd ord_op

datatype pred =
    Compare cmp_op pyval
  | Between pyval pyval
  | In "pyval list"
  | Contains "pyval list"
  | Exists bool
  | AllOf "pred list"
  | AnyOf "pred list"
  | Not pred

fun no_value :: "pyval \<Rightarrow> bool" where
  "no_value VMissing = True"
| "no_value VNone = True"
| "no_value _ = False"

fun comparison :: "cmp_op \<Rightarrow> pyval \<Rightarrow> pyval \<Rightarrow> bool option" where
  "comparison CEq v w = Some (py_eq v w)"
| "comparison CNe v w = Some (\<not> py_eq v w)"
| "comparison (COrd op) v w = py_ord op v w"

definition apply_cmp :: "cmp_op \<Rightarrow> pyval \<Rightarrow> pyval \<Rightarrow> bool" where
  "apply_cmp op v w = (if no_value v then False
    else case comparison op v w of Some b \<Rightarrow> b | None \<Rightarrow> False)"

fun exists_test :: "bool \<Rightarrow> pyval \<Rightarrow> bool" where
  "exists_test present v =
    ((if no_value v then False else if is_collection v then items v \<noteq> [] else True) = present)"

definition compare_test :: "cmp_op \<Rightarrow> pyval \<Rightarrow> pyval \<Rightarrow> bool" where
  "compare_test op w v \<longleftrightarrow> apply_cmp op v w"

definition between_test :: "pyval \<Rightarrow> pyval \<Rightarrow> pyval \<Rightarrow> bool" where
  "between_test low high v \<longleftrightarrow> apply_cmp (COrd OGe) v low \<and> apply_cmp (COrd OLe) v high"

definition in_test :: "pyval list \<Rightarrow> pyval \<Rightarrow> bool" where
  "in_test ws v \<longleftrightarrow> \<not> no_value v \<and> (\<exists>w\<in>set ws. py_eq v w)"

definition contains_test :: "pyval list \<Rightarrow> pyval \<Rightarrow> bool" where
  "contains_test ws v \<longleftrightarrow> is_collection v \<and> (\<forall>w\<in>set ws. \<exists>x\<in>set (items v). py_eq x w)"

fun pred_test :: "pred \<Rightarrow> pyval \<Rightarrow> bool" where
  "pred_test (Compare op w) v \<longleftrightarrow> compare_test op w v"
| "pred_test (Between low high) v \<longleftrightarrow> between_test low high v"
| "pred_test (In ws) v \<longleftrightarrow> in_test ws v"
| "pred_test (Contains ws) v \<longleftrightarrow> contains_test ws v"
| "pred_test (Exists present) v \<longleftrightarrow> exists_test present v"
| "pred_test (AllOf ps) v \<longleftrightarrow> (\<forall>p\<in>set ps. pred_test p v)"
| "pred_test (AnyOf ps) v \<longleftrightarrow> (\<exists>p\<in>set ps. pred_test p v)"
| "pred_test (Not p) v \<longleftrightarrow> \<not> no_value v \<and> \<not> pred_test p v"

text \<open>\<open>Not\<close> refuses \<open>exists\<close> when it is authored.\<close>

definition make_not :: "pred \<Rightarrow> predicate_error + pred" where
  "make_not p = (case p of Exists b \<Rightarrow> Inl NegatesExists | _ \<Rightarrow> Inr (Not p))"

definition p_eq :: "pyval \<Rightarrow> pred" where "p_eq v = Compare CEq v"
definition p_ne :: "pyval \<Rightarrow> pred" where "p_ne v = Compare CNe v"
definition p_lt :: "pyval \<Rightarrow> pred" where "p_lt v = Compare (COrd OLt) v"
definition p_le :: "pyval \<Rightarrow> pred" where "p_le v = Compare (COrd OLe) v"
definition p_gt :: "pyval \<Rightarrow> pred" where "p_gt v = Compare (COrd OGt) v"
definition p_ge :: "pyval \<Rightarrow> pred" where "p_ge v = Compare (COrd OGe) v"

text \<open>\<open>ScalarPredicate.check_operand\<close>, with the operands and order of the predicate.\<close>

definition check_scalar :: "classes \<Rightarrow> pyval list \<Rightarrow> bool \<Rightarrow> path_type \<Rightarrow> predicate_error + unit" where
  "check_scalar env operands ordered pt =
    (if pt_collection pt then Inl AddressesCollection
     else case find (\<lambda>w. \<not> (\<exists>a\<in>set (pt_annotations pt). accepts env a w)) operands of
            Some w \<Rightarrow> Inl (CannotCompare w)
          | None \<Rightarrow> if ordered \<and> \<not> (\<forall>a\<in>set (pt_annotations pt). orderable env a)
                     then Inl NeedsOrdered else Inr ())"

fun is_inequality :: "cmp_op \<Rightarrow> bool" where
  "is_inequality (COrd op) = True"
| "is_inequality _ = False"

text \<open>A loop of checks stops at the first that raises.\<close>

fun first_error :: "('e + unit) list \<Rightarrow> 'e + unit" where
  "first_error [] = Inr ()"
| "first_error (Inl e # rs) = Inl e"
| "first_error (Inr u # rs) = first_error rs"

definition check_contains :: "classes \<Rightarrow> pyval list \<Rightarrow> path_type \<Rightarrow> predicate_error + unit" where
  "check_contains env ws pt =
    (if pt_elements pt = [] then Inl NeedsCollection
     else case find (\<lambda>w. \<not> (\<exists>a\<in>set (pt_elements pt). accepts env a w)) ws of
            Some w \<Rightarrow> Inl (CannotEqual w) | None \<Rightarrow> Inr ())"

fun check_operand :: "classes \<Rightarrow> path_type \<Rightarrow> pred \<Rightarrow> predicate_error + unit" where
  "check_operand env pt (Compare op w) = check_scalar env [w] (is_inequality op) pt"
| "check_operand env pt (Between low high) = check_scalar env [low, high] True pt"
| "check_operand env pt (In ws) = check_scalar env ws False pt"
| "check_operand env pt (Contains ws) = check_contains env ws pt"
| "check_operand env pt (Exists present) = Inr ()"
| "check_operand env pt (AllOf ps) = first_error (map (check_operand env pt) ps)"
| "check_operand env pt (AnyOf ps) = first_error (map (check_operand env pt) ps)"
| "check_operand env pt (Not p) = check_operand env pt p"

record field_match =
  fm_field :: "string option"
  fm_predicate :: pred

definition validate_against :: "classes \<Rightarrow> field_match \<Rightarrow> ann \<Rightarrow> predicate_error + unit" where
  "validate_against env fm model =
    (case fm_field fm of
       None \<Rightarrow> check_operand env (path_type_of model) (fm_predicate fm)
     | Some f \<Rightarrow> rbind (resolve_path env model f) (\<lambda>pt. check_operand env pt (fm_predicate fm)))"

definition field_match_test :: "field_match \<Rightarrow> pyval \<Rightarrow> bool" where
  "field_match_test fm obj =
    pred_test (fm_predicate fm) (case fm_field fm of None \<Rightarrow> obj | Some f \<Rightarrow> read_path obj f)"

subsection \<open>Absent values\<close>

text \<open>What a predicate answers on an absent value.\<close>

fun selects_absence :: "pred \<Rightarrow> bool" where
  "selects_absence (Exists present) = (\<not> present)"
| "selects_absence (AllOf ps) = (\<forall>p\<in>set ps. selects_absence p)"
| "selects_absence (AnyOf ps) = (\<exists>p\<in>set ps. selects_absence p)"
| "selects_absence _ = False"

lemma no_value_collection: "no_value v \<Longrightarrow> \<not> is_collection v"
  by (cases v) auto

lemma test_absent: "no_value v \<Longrightarrow> pred_test p v \<longleftrightarrow> selects_absence p"
  by (induction p) (auto simp: compare_test_def between_test_def in_test_def contains_test_def
      apply_cmp_def no_value_collection)

text \<open>Neither \<open>exists(False)\<close> nor an empty \<open>all_of\<close> occurs.\<close>

fun asks_presence :: "pred \<Rightarrow> bool" where
  "asks_presence (Exists present) = present"
| "asks_presence (AllOf ps) = (ps \<noteq> [] \<and> (\<forall>p\<in>set ps. asks_presence p))"
| "asks_presence (AnyOf ps) = (\<forall>p\<in>set ps. asks_presence p)"
| "asks_presence _ = True"

lemma asks_presence_absent: "asks_presence p \<Longrightarrow> \<not> selects_absence p"
  by (induction p) (auto simp: neq_Nil_conv)

subsection \<open>Typed values\<close>

inductive has_type :: "classes \<Rightarrow> pyval \<Rightarrow> ann \<Rightarrow> bool" for env :: classes where
  any: "has_type env v TAny"
| none: "has_type env VNone TNone"
| bool: "has_type env (VBool b) TBool"
| int: "has_type env (VInt i) TInt"
| float: "has_type env (VFloat r) TFloat"
| str: "has_type env (VStr s) TStr"
| enum: "m \<in> set vs \<Longrightarrow> has_type env (VEnum c m) (TEnum c vs ordered)"
| opaque: "has_type env (VOpaque c n) (TOpaque c ordered)"
| union: "a \<in> set as \<Longrightarrow> has_type env v a \<Longrightarrow> has_type env v (TUnion as)"
| annotated: "has_type env v a \<Longrightarrow> has_type env v (TAnnotated a)"
| coll: "(\<And>x. x \<in> set xs \<Longrightarrow> \<exists>a. a \<in> set (collection_element (TColl k args)) \<and> has_type env x a)
    \<Longrightarrow> has_type env (VColl k xs) (TColl k args)"
| model: "env c = Some ci \<Longrightarrow>
    (\<And>f x. (f, x) \<in> set fs \<Longrightarrow> \<exists>a. map_of (ci_fields ci) f = Some a \<and> has_type env x a)
    \<Longrightarrow> has_type env (VObj c fs) (TModel c)"

inductive_cases has_type_none: "has_type env v TNone"
inductive_cases has_type_union: "has_type env v (TUnion as)"
inductive_cases has_type_annotated: "has_type env v (TAnnotated a)"
inductive_cases has_type_coll: "has_type env (VColl k xs) a"
inductive_cases has_type_obj: "has_type env (VObj c fs) a"
inductive_cases has_type_at_model: "has_type env v (TModel c)"

text \<open>
  The annotations the static walk can follow exactly: no \<open>Any\<close>, and the elements of a
  collection annotated by types rather than by unions, which \<open>_step\<close> does not flatten.
\<close>

fun flat :: "ann \<Rightarrow> bool" where
  "flat TAny = False"
| "flat (TAnnotated a) = flat a"
| "flat (TUnion as) = ((\<exists>a\<in>set as. a \<noteq> TNone) \<and> (\<forall>a\<in>set as. flat a))"
| "flat (TColl k None) = False"
| "flat (TColl k (Some as)) =
    (let args = filter (\<lambda>a. a \<noteq> TEllipsis) as in args \<noteq> [] \<and> (\<forall>a\<in>set args. is_type a \<and> flat a))"
| "flat TEllipsis = False"
| "flat _ = True"

definition flat_classes :: "classes \<Rightarrow> bool" where
  "flat_classes env \<longleftrightarrow> (\<forall>c ci f a. env c = Some ci \<and> map_of (ci_fields ci) f = Some a \<longrightarrow> flat a)"

lemma candidates_flat: "flat a \<Longrightarrow> candidates a \<noteq> [] \<and> (\<forall>b\<in>set (candidates a). flat b \<and> is_type b)"
proof (induction a rule: candidates.induct)
  case (2 as)
  then obtain a where a: "a \<in> set as" "a \<noteq> TNone" "flat a" by auto
  then have "a \<in> set (filter (\<lambda>a. a \<noteq> TNone) as)" by simp
  moreover from "2.IH" [OF this \<open>flat a\<close>] have "candidates a \<noteq> []" by blast
  ultimately have "candidates (TUnion as) \<noteq> []" unfolding candidates.simps concat_eq_Nil_conv by force
  moreover have "flat b \<and> is_type b" if "b \<in> set (candidates (TUnion as))" for b
    using that "2.IH" "2.prems" by fastforce
  ultimately show ?case by blast
qed simp_all

lemma candidates_type: "has_type env v a \<Longrightarrow> v = VNone \<or> (\<exists>b\<in>set (candidates a). has_type env v b)"
proof (induction a arbitrary: v rule: candidates.induct)
  case (1 a)
  then show ?case by (auto elim: has_type_annotated)
next
  case (2 as)
  from 2(2) obtain a where a: "a \<in> set as" "has_type env v a" by (auto elim: has_type_union)
  show ?case
  proof (cases "a = TNone")
    case True
    then show ?thesis using a by (auto elim: has_type_none)
  next
    case False
    then show ?thesis using "2.IH" [of a v] a by auto
  qed
qed auto

definition typed_by :: "classes \<Rightarrow> ann list \<Rightarrow> pyval \<Rightarrow> bool" where
  "typed_by env as v \<longleftrightarrow> v = VNone \<or> (\<exists>a\<in>set as. has_type env v a)"

lemma typed_by_candidates: "has_type env v a \<Longrightarrow> typed_by env (candidates a) v"
  unfolding typed_by_def by (rule candidates_type)

lemma typed_by_mono: "typed_by env as v \<Longrightarrow> set as \<subseteq> set bs \<Longrightarrow> typed_by env bs v"
  unfolding typed_by_def by blast

lemma collection_element_flat: "flat a \<Longrightarrow> e \<in> set (collection_element a) \<Longrightarrow> flat e \<and> is_type e"
  by (cases a rule: collection_element.cases) (auto simp: Let_def split: if_splits)

lemma object_field:
  assumes "has_type env x e" and "flat e" and "is_type e" and "getattr x seg = Some y"
  shows "model_field env e seg \<noteq> [] \<or> \<not> flat_classes env" and "typed_by env (model_field env e seg) y"
proof -
  from assms(4) obtain c fs where x: "x = VObj c fs" and y: "map_of fs seg = Some y"
    by (cases x) auto
  from assms(1-3) obtain ci where e: "e = TModel c" and ci: "env c = Some ci"
    and "\<And>f x. (f, x) \<in> set fs \<Longrightarrow> \<exists>a. map_of (ci_fields ci) f = Some a \<and> has_type env x a"
    unfolding x by (auto elim: has_type_obj)
  then obtain a where a: "map_of (ci_fields ci) seg = Some a" "has_type env y a"
    using map_of_SomeD [OF y] by blast
  then have "model_field env e seg = candidates a" by (simp add: e ci)
  then show "typed_by env (model_field env e seg) y" using typed_by_candidates [OF a(2)] by simp
  show "model_field env e seg \<noteq> [] \<or> \<not> flat_classes env"
    using \<open>model_field env e seg = candidates a\<close> a(1) ci candidates_flat
    unfolding flat_classes_def by metis
qed

text \<open>One segment: what is read from typed values is typed by what the static step finds.\<close>

definition flat_anns :: "ann list \<Rightarrow> bool" where
  "flat_anns as \<longleftrightarrow> (\<forall>a\<in>set as. flat a \<and> is_type a)"

abbreviation stepped :: "classes \<Rightarrow> ann list \<Rightarrow> string \<Rightarrow> ann list" where
  "stepped env as seg \<equiv> concat (map (\<lambda>a. fst (path_step env a seg)) as)"

lemma model_field_flat: "flat_classes env \<Longrightarrow> b \<in> set (model_field env e seg) \<Longrightarrow> flat b \<and> is_type b"
proof (cases e)
  case (TModel c)
  assume env: "flat_classes env" and b: "b \<in> set (model_field env e seg)"
  then obtain ci a where "env c = Some ci" "map_of (ci_fields ci) seg = Some a" "b \<in> set (candidates a)"
    by (cases "env c"; cases "map_of (ci_fields (the (env c))) seg") (auto simp: TModel)
  with env candidates_flat show ?thesis unfolding flat_classes_def by blast
qed simp_all

lemma step_source:
  assumes a: "has_type env v a" "flat a" "is_type a" and x: "x \<in> set (items v)" "getattr x seg = Some y"
  obtains e where "has_type env x e" and "flat e" and "is_type e"
    and "set (model_field env e seg) \<subseteq> set (fst (path_step env a seg))"
proof (cases "\<exists>k xs. v = VColl k xs")
  case True
  then obtain k xs where v: "v = VColl k xs" by blast
  with a obtain args where at: "a = TColl k args" and el: "\<And>x. x \<in> set xs \<Longrightarrow>
      \<exists>e. e \<in> set (collection_element (TColl k args)) \<and> has_type env x e"
    by (auto elim: has_type_coll)
  from el x v obtain e where e: "e \<in> set (collection_element a)" "has_type env x e" unfolding at by auto
  show ?thesis
  proof (rule that [OF e(2)])
    show "flat e" "is_type e" using collection_element_flat [OF a(2) e(1)] by blast+
    show "set (model_field env e seg) \<subseteq> set (fst (path_step env a seg))"
      using e(1) unfolding path_step_def by (auto simp: Let_def)
  qed
next
  case False
  then have "x = v" using x(1) by (cases v) auto
  moreover from x(2) obtain c fs where "x = VObj c fs" by (cases x) auto
  ultimately have "a = TModel c" using a by (auto elim: has_type_obj)
  with \<open>x = v\<close> show ?thesis using that [OF _ a(2,3)] a(1) by (simp add: path_step_def)
qed

lemma read_step_typed:
  assumes env: "flat_classes env" and as: "flat_anns as"
    and vs: "\<forall>v\<in>set vs. typed_by env as v"
  shows "\<forall>y\<in>set (read_step seg vs). typed_by env (stepped env as seg) y"
    and "stepped env as seg = [] \<Longrightarrow> read_step seg vs = []"
    and "flat_anns (stepped env as seg)"
proof -
  have src: "\<exists>e. set (model_field env e seg) \<subseteq> set (stepped env as seg)
      \<and> model_field env e seg \<noteq> [] \<and> typed_by env (model_field env e seg) y"
    if y: "y \<in> set (read_step seg vs)" for y
  proof -
    from y obtain v x where v: "v \<in> set vs" and x: "x \<in> set (items v)" "getattr x seg = Some y"
      by (force simp: read_step_def map_filter_def)
    have "v \<noteq> VNone" using x by auto
    with vs v obtain a where a: "a \<in> set as" "has_type env v a" unfolding typed_by_def by blast
    with as have "flat a" "is_type a" by (auto simp: flat_anns_def)
    from step_source [OF a(2) this x] obtain e where e: "has_type env x e" "flat e" "is_type e"
      "set (model_field env e seg) \<subseteq> set (fst (path_step env a seg))" .
    with object_field [OF e(1-3) x(2)] env a(1) show ?thesis by (intro exI [of _ e]) auto
  qed
  show "\<forall>y\<in>set (read_step seg vs). typed_by env (stepped env as seg) y"
    using src typed_by_mono by blast
  show "read_step seg vs = []" if "stepped env as seg = []"
    using src that by (cases "read_step seg vs") fastforce+
  have "flat b \<and> is_type b" if "b \<in> set (fst (path_step env a seg))" for a b
    using that model_field_flat [OF env] by (auto simp: path_step_def Let_def split: if_splits)
  then show "flat_anns (stepped env as seg)" by (auto simp: flat_anns_def)
qed

lemma projected_step:
  assumes "flat_anns as" and "\<forall>v\<in>set vs. typed_by env as v" and "\<exists>v\<in>set vs. is_collection v"
  shows "\<exists>a\<in>set as. snd (path_step env a seg)"
proof -
  from assms(3) obtain k xs where v: "VColl k xs \<in> set vs" by (metis is_collection.elims(2))
  with assms(2) obtain a where a: "a \<in> set as" "has_type env (VColl k xs) a" unfolding typed_by_def by blast
  with assms(1) have "flat a" "is_type a" by (auto simp: flat_anns_def)
  with a(2) obtain args where "a = TColl k args" by (auto elim: has_type_coll)
  with \<open>flat a\<close> have "collection_element a \<noteq> []"
    by (cases args) (auto simp: Let_def)
  then show ?thesis using a(1) by (auto simp: path_step_def Let_def)
qed

lemma read_segments_empty: "fst (read_segments segs ([], b)) = []"
  by (induction segs arbitrary: b) (simp_all add: read_step_def map_filter_def)

lemma resolve_read:
  assumes "flat_classes env" and "flat_anns (pt_annotations cur)"
    and "\<forall>v\<in>set vs. typed_by env (pt_annotations cur) v" and "proj \<longrightarrow> pt_projected cur"
  shows "case resolve_segments env segs cur of
      Inr pt \<Rightarrow> flat_anns (pt_annotations pt)
        \<and> (\<forall>v\<in>set (fst (read_segments segs (vs, proj))). typed_by env (pt_annotations pt) v)
        \<and> (snd (read_segments segs (vs, proj)) \<longrightarrow> pt_projected pt)
    | Inl e \<Rightarrow> fst (read_segments segs (vs, proj)) = []"
  using assms
proof (induction segs arbitrary: cur vs proj)
  case (Cons seg segs)
  let ?as = "pt_annotations cur"
  let ?new = "stepped env ?as seg" and ?vs = "read_step seg vs"
  let ?p = "pt_projected cur \<or> (\<exists>a\<in>set ?as. snd (path_step env a seg))"
  let ?proj = "proj \<or> (\<exists>v\<in>set vs. is_collection v)"
  note step = read_step_typed [OF Cons.prems(1-3), of seg]
  have p: "?proj \<longrightarrow> ?p" using Cons.prems(4) projected_step [OF Cons.prems(2,3), of seg] by blast
  have res: "resolve_segments env (seg # segs) cur = (if ?new = [] then Inl (NoField seg)
      else resolve_segments env segs \<lparr>pt_annotations = ?new, pt_projected = ?p\<rparr>)"
    by (simp add: Let_def comp_def)
  show ?case
  proof (cases "?new = []")
    case True
    then show ?thesis unfolding res using step(2) by (simp add: read_segments_empty)
  next
    case False
    have "flat_anns (pt_annotations \<lparr>pt_annotations = ?new, pt_projected = ?p\<rparr>)" using step(3) by simp
    moreover have "\<forall>v\<in>set ?vs. typed_by env (pt_annotations \<lparr>pt_annotations = ?new, pt_projected = ?p\<rparr>) v"
      using step(1) by simp
    moreover have "?proj \<longrightarrow> pt_projected \<lparr>pt_annotations = ?new, pt_projected = ?p\<rparr>" using p by simp
    ultimately have "case resolve_segments env segs \<lparr>pt_annotations = ?new, pt_projected = ?p\<rparr> of
      Inr pt \<Rightarrow> flat_anns (pt_annotations pt)
        \<and> (\<forall>v\<in>set (fst (read_segments segs (?vs, ?proj))). typed_by env (pt_annotations pt) v)
        \<and> (snd (read_segments segs (?vs, ?proj)) \<longrightarrow> pt_projected pt)
    | Inl e \<Rightarrow> fst (read_segments segs (?vs, ?proj)) = []"
      by (rule Cons.IH [OF Cons.prems(1)])
    then show ?thesis unfolding res read_segments.simps if_not_P [OF False] .
  qed
qed simp

subsection \<open>Properties\<close>

lemma read_path_typed:
  assumes "flat_classes env" and "flat model" and "has_type env obj model"
  shows "case resolve_path env model path of
      Inr pt \<Rightarrow> flat_anns (pt_annotations pt)
        \<and> (case read_path obj path of
             VColl KTuple xs \<Rightarrow> typed_by env (pt_annotations pt) (VColl KTuple xs)
               \<or> pt_projected pt \<and> (\<forall>x\<in>set xs. typed_by env (pt_annotations pt) x)
           | v \<Rightarrow> v = VMissing \<or> typed_by env (pt_annotations pt) v)
    | Inl e \<Rightarrow> read_path obj path = VMissing \<or> read_path obj path = VColl KTuple []"
proof -
  let ?cur = "path_type_of model"
  have "flat_anns (pt_annotations ?cur)"
    using candidates_flat [OF assms(2)] by (simp add: path_type_of_def flat_anns_def)
  moreover have "\<forall>v\<in>set [obj]. typed_by env (pt_annotations ?cur) v"
    using typed_by_candidates [OF assms(3)] by (simp add: path_type_of_def)
  ultimately have R: "case resolve_segments env (segments_of path) ?cur of
      Inr pt \<Rightarrow> flat_anns (pt_annotations pt)
        \<and> (\<forall>v\<in>set (fst (read_segments (segments_of path) ([obj], False))). typed_by env (pt_annotations pt) v)
        \<and> (snd (read_segments (segments_of path) ([obj], False)) \<longrightarrow> pt_projected pt)
    | Inl e \<Rightarrow> fst (read_segments (segments_of path) ([obj], False)) = []"
    by (intro resolve_read [OF assms(1)]) simp_all
  obtain vs proj where r: "read_segments (segments_of path) ([obj], False) = (vs, proj)" by fastforce
  have read: "read_path obj path = (if proj then VColl KTuple vs else case vs of [] \<Rightarrow> VMissing | v # _ \<Rightarrow> v)"
    by (simp add: read_path_def r)
  show ?thesis
  proof (cases "resolve_path env model path")
    case (Inl e)
    then show ?thesis using R unfolding resolve_path_def r read by simp
  next
    case (Inr pt)
    then have pt: "flat_anns (pt_annotations pt)" "\<forall>v\<in>set vs. typed_by env (pt_annotations pt) v" "proj \<longrightarrow> pt_projected pt"
      using R unfolding resolve_path_def r by simp_all
    have "case read_path obj path of
        VColl KTuple xs \<Rightarrow> typed_by env (pt_annotations pt) (VColl KTuple xs)
               \<or> pt_projected pt \<and> (\<forall>x\<in>set xs. typed_by env (pt_annotations pt) x)
           | v \<Rightarrow> v = VMissing \<or> typed_by env (pt_annotations pt) v"
      using pt(2,3) unfolding read
      by (cases proj; cases vs) (auto split: pyval.split coll_kind.split)
    with pt(1) show ?thesis using Inr by simp
  qed
qed


definition demo_classes :: classes where
  "demo_classes = [''Filter'' \<mapsto> \<lparr>ci_fields = [(''name'', TStr), (''slot'', TUnion [TInt, TNone])], ci_bases = [], ci_ordered = False\<rparr>,
    ''Wheel'' \<mapsto> \<lparr>ci_fields = [(''filters'', TColl KList (Some [TModel ''Filter''])), (''moving'', TBool)],
      ci_bases = [], ci_ordered = False\<rparr>]"

definition demo_wheel :: pyval where
  "demo_wheel = VObj ''Wheel'' [(''filters'', VColl KList [VObj ''Filter'' [(''name'', VStr ''r''), (''slot'', VNone)]]),
    (''moving'', VBool True)]"

lemma demo_wheel_type: "has_type demo_classes demo_wheel (TModel ''Wheel'')"
proof -
  have f: "has_type demo_classes (VObj ''Filter'' [(''name'', VStr ''r''), (''slot'', VNone)]) (TModel ''Filter'')"
  proof (rule has_type.model)
    have "has_type demo_classes VNone (TUnion [TInt, TNone])"
      by (rule has_type.union [where a = TNone]) (auto intro: has_type.none)
    then show "\<exists>a. map_of (ci_fields (the (demo_classes ''Filter''))) f = Some a \<and> has_type demo_classes x a"
      if "(f, x) \<in> set [(''name'', VStr ''r''), (''slot'', VNone)]" for f x
      using that by (auto simp: demo_classes_def [THEN fun_cong] intro: has_type.str)
  qed (simp add: demo_classes_def)
  have l: "has_type demo_classes (VColl KList [VObj ''Filter'' [(''name'', VStr ''r''), (''slot'', VNone)]])
      (TColl KList (Some [TModel ''Filter'']))"
    by (rule has_type.coll) (use f in auto)
  show ?thesis
    unfolding demo_wheel_def
  proof (rule has_type.model)
    show "\<exists>a. map_of (ci_fields (the (demo_classes ''Wheel''))) f = Some a \<and> has_type demo_classes x a"
      if "(f, x) \<in> set [(''filters'', VColl KList [VObj ''Filter'' [(''name'', VStr ''r''), (''slot'', VNone)]]),
        (''moving'', VBool True)]" for f x
      using that l by (auto simp: demo_classes_def [THEN fun_cong] intro: has_type.bool)
  qed (simp add: demo_classes_def)
qed

lemma demo_classes_flat: "flat_classes demo_classes"
  by (auto simp: flat_classes_def demo_classes_def split: if_splits)


text \<open>Nothing is selected by accident: on an absent value, a predicate answers what its
  \<open>exists\<close> tests and compositions say, and without \<open>exists(False)\<close> and without an empty
  \<open>all_of\<close> it never matches, negation included.\<close>

theorem absent_never_matches:
  assumes "no_value v"
  shows "(pred_test p v \<longleftrightarrow> selects_absence p) \<and> (asks_presence p \<longrightarrow> \<not> pred_test p v \<and> \<not> pred_test (Not p) v)"
  using test_absent [OF assms] asks_presence_absent assms by auto

theorem absent_never_matches_witness:
  "\<not> pred_test (Not (Compare CEq (VInt 3))) VNone"
  using absent_never_matches [of VNone "Compare CEq (VInt 3)"] by simp


lemma py_eq_collection: "py_eq (VColl k xs) w \<Longrightarrow> \<exists>ys. w = VColl k ys"
  by (subst (asm) py_eq.simps) (cases w; auto split: if_splits)

lemma py_eq_object: "py_eq (VObj c fs) w \<Longrightarrow> \<exists>gs. w = VObj c gs"
  by (subst (asm) py_eq.simps) (cases w; auto)

lemma py_eq_number:
  assumes "num v = Some r" and "py_eq v w"
  shows "num w \<noteq> None"
  using assms by (subst (asm) py_eq.simps) (auto split: option.splits)

lemma py_eq_plain:
  assumes "py_eq v w" and "num v = None" and "\<not> is_collection v" and "\<forall>c fs. v \<noteq> VObj c fs"
  shows "v = w"
  using assms by (subst (asm) py_eq.simps) (cases v; cases "num w"; auto)

text \<open>An operand that equals a typed value is accepted by its annotation; only booleans, which
  equal 0 and 1, are kept apart from numbers.\<close>

lemma equal_accepted:
  assumes "has_type env v a" and "flat a" "is_type a" and eq: "py_eq v w"
    and "\<forall>b. v \<noteq> VBool b" and "\<forall>b. w \<noteq> VBool b"
  shows "accepts env a w"
  using assms(1)
proof cases
  case (int i)
  with py_eq_number [of v _ w] eq have "num w \<noteq> None" by simp
  then have "numeric_val w" using assms(6) by (cases w) auto
  then show ?thesis using int by (auto simp: accepts_def)
next
  case (float r)
  with py_eq_number [of v _ w] eq have "num w \<noteq> None" by simp
  then have "numeric_val w" using assms(6) by (cases w) auto
  then show ?thesis using float by (auto simp: accepts_def)
next
  case (coll xs k args)
  then obtain ys where "w = VColl k ys" using py_eq_collection eq by blast
  then show ?thesis using coll by (simp add: accepts_def isinstance_def)
next
  case (model c ci fs)
  then obtain gs where "w = VObj c gs" using py_eq_object eq by blast
  then show ?thesis using model by (simp add: accepts_def isinstance_def is_subclass_def)
qed (use assms(2-5) py_eq_plain [OF eq] in \<open>auto simp: accepts_def isinstance_def\<close>)



end
