(* ===== verification/Sensor_Selection.thy ===== *)
theory Sensor_Selection
  imports Sensor_Topology Common_Predicate
begin

section \<open>Traits, bound sensors and selections (core/trait.py, sensor/binding.py, sensor/selection.py)\<close>

text \<open>
  \<open>core/trait.py\<close>: traits and archetypes, their registry and matching against advertised
  capabilities.  \<open>sensor/binding.py\<close>: a topology with the reported details of its devices.
  \<open>sensor/selection.py\<close>: the predicates over placements and chains, evaluated left to right
  with Python's short circuits, so that whether an error is raised is part of the result.
  Commands and keywords are their registered identifiers; a keyword's value is a value of
  \<open>Common_Predicate\<close>.  The registry is a Python set with equality by name: a list without
  two entries of one name, whose order stands for the set's iteration order.
\<close>

subsection \<open>core/trait.py\<close>

datatype trait =
    Trait (tr_name: string) (tr_commands: "string list") (tr_keywords: "string list")
  | Archetype (tr_name: string) (tr_commands: "string list") (tr_keywords: "string list")
      (tr_required: "trait list") (tr_optional: "string list")

record entity_details =
  ed_commands :: "string set option"
  ed_keywords :: "string set"

fun is_archetype :: "trait \<Rightarrow> bool" where
  "is_archetype (Archetype n cs ks ts os) = True"
| "is_archetype (Trait n cs ks) = False"

fun effective_command_ids :: "trait \<Rightarrow> string set" where
  "effective_command_ids (Trait n cs ks) = set cs"
| "effective_command_ids (Archetype n cs ks ts os) = set cs \<union> (\<Union>t\<in>set ts. effective_command_ids t)"

fun effective_keyword_ids :: "trait \<Rightarrow> string set" where
  "effective_keyword_ids (Trait n cs ks) = set ks"
| "effective_keyword_ids (Archetype n cs ks ts os) = set ks \<union> (\<Union>t\<in>set ts. effective_keyword_ids t)"

definition trait_match :: "trait \<Rightarrow> entity_details option \<Rightarrow> bool" where
  "trait_match t details =
    (case details of
       None \<Rightarrow> False
     | Some d \<Rightarrow>
         let commands = effective_command_ids t in
         if commands \<noteq> {}
         then case ed_commands d of Some supported \<Rightarrow> commands \<subseteq> supported | None \<Rightarrow> False
         else effective_keyword_ids t \<subseteq> ed_keywords d)"

type_synonym registry = "trait list"

definition registry_add :: "trait \<Rightarrow> registry \<Rightarrow> registry" where
  "registry_add t reg = (if tr_name t \<in> set (map tr_name reg) then reg else reg @ [t])"

definition declare_trait :: "string \<Rightarrow> string list \<Rightarrow> string list \<Rightarrow> registry \<Rightarrow> trait \<times> registry" where
  "declare_trait name commands keywords reg =
    (let t = Trait name commands keywords in (t, registry_add t reg))"

definition declare_archetype :: "string \<Rightarrow> string list \<Rightarrow> string list \<Rightarrow> trait list \<Rightarrow> string list
    \<Rightarrow> registry \<times> registry \<Rightarrow> string + trait \<times> registry \<times> registry" where
  "declare_archetype name commands keywords required optional regs =
    (case find is_archetype required of
       Some t \<Rightarrow> Inl (tr_name t)
     | None \<Rightarrow>
         let a = Archetype name commands keywords required optional; (traits, archetypes) = regs
         in Inr (a, registry_add a traits, registry_add a archetypes))"

definition get_trait :: "registry \<Rightarrow> string \<Rightarrow> trait option" where
  "get_trait reg name = find (\<lambda>t. tr_name t = name) reg"

definition match_traits :: "entity_details option \<Rightarrow> trait list \<Rightarrow> bool \<Rightarrow> trait list" where
  "match_traits details traits exclude_archetypes =
    filter (\<lambda>t. \<not> (exclude_archetypes \<and> is_archetype t) \<and> trait_match t details) traits"

definition trait_keyword_ids :: "entity_details \<Rightarrow> trait list \<Rightarrow> string set" where
  "trait_keyword_ids details traits =
    (\<Union>t\<in>set (match_traits (Some details) traits False). effective_keyword_ids t)"

definition match_archetype :: "registry \<Rightarrow> entity_details \<Rightarrow> trait option" where
  "match_archetype archetypes details = find (\<lambda>a. trait_match a (Some details)) archetypes"

subsection \<open>sensor/binding.py\<close>

type_synonym keyword_dict = "(string, pyval) dict"

record bound_sensor =
  bs_topology :: topology
  bs_details :: "(string, entity_details) dict"
  bs_keywords :: "(string, keyword_dict) dict option"
  bs_traits :: "(placement, string set) dict"

datatype binding_error =
    ReportedNothing "(string \<times> string) list"
  | NotEstablished "(string \<times> string \<times> string \<times> bool) list"

definition bound :: "registry \<Rightarrow> topology \<Rightarrow> (string, entity_details) dict
    \<Rightarrow> (string, keyword_dict) dict option \<Rightarrow> bound_sensor" where
  "bound reg tp details keywords =
    \<lparr>bs_topology = tp, bs_details = details, bs_keywords = keywords,
     bs_traits = List.map_filter (\<lambda>p. case map_of details (pl_device p) of
         None \<Rightarrow> None
       | Some found \<Rightarrow> Some (p, set (map tr_name (match_traits (Some found) reg False)))) (placements tp)\<rparr>"

definition bs_traits_of :: "bound_sensor \<Rightarrow> placement \<Rightarrow> string set" where
  "bs_traits_of bs p = (case map_of (bs_traits bs) p of Some ts \<Rightarrow> ts | None \<Rightarrow> {})"

text \<open>Unmet declared traits, with whether the name is registered.\<close>

definition unmet :: "registry \<Rightarrow> component \<Rightarrow> string set \<Rightarrow> (string \<times> bool) list" where
  "unmet reg r established =
    map (\<lambda>n. (n, get_trait reg n \<noteq> None)) (filter (\<lambda>n. n \<notin> established) (record_traits r))"

definition bind :: "registry \<Rightarrow> topology \<Rightarrow> (string, entity_details) dict \<Rightarrow> binding_error + bound_sensor" where
  "bind reg tp details =
    (let silent = filter (\<lambda>p. pl_device p \<notin> set (dict_keys details)) (placements tp) in
     if silent \<noteq> [] then Inl (ReportedNothing (map (\<lambda>p. (pl_device p, path_str (pl_path p))) silent))
     else
       let sensor = bound reg tp details None;
           missing = concat (map (\<lambda>(p, r). map (\<lambda>(n, known). (pl_device p, path_str (pl_path p), n, known))
             (unmet reg r (bs_traits_of sensor p))) (tp_records tp))
       in if missing \<noteq> [] then Inl (NotEstablished missing) else Inr sensor)"

definition supported_commands :: "bound_sensor \<Rightarrow> string \<Rightarrow> string set" where
  "supported_commands bs k = (case map_of (bs_details bs) k of
     Some d \<Rightarrow> (case ed_commands d of Some cs \<Rightarrow> cs | None \<Rightarrow> {}) | None \<Rightarrow> {})"

definition published_keywords :: "bound_sensor \<Rightarrow> string \<Rightarrow> string set" where
  "published_keywords bs k = (case map_of (bs_details bs) k of Some d \<Rightarrow> ed_keywords d | None \<Rightarrow> {})"

definition device_keywords :: "bound_sensor \<Rightarrow> string \<Rightarrow> keyword_dict option" where
  "device_keywords bs k = (case bs_keywords bs of
     None \<Rightarrow> None | Some m \<Rightarrow> Some (case map_of m k of Some d \<Rightarrow> d | None \<Rightarrow> []))"

subsection \<open>sensor/selection.py\<close>

datatype selection_type =
  StTrait | StTag | StDevice | StKind | StInstrument | StSupports | StPublishes | StKeyword
  | StAllOf | StAnyOf | StNot

definition selection_types :: "selection_type list" where
  "selection_types = [StTrait, StTag, StDevice, StKind, StInstrument, StSupports, StPublishes,
    StKeyword, StAllOf, StAnyOf, StNot]"

fun type_key :: "selection_type \<Rightarrow> string" where
  "type_key StTrait = ''trait''"
| "type_key StTag = ''tag''"
| "type_key StDevice = ''device''"
| "type_key StKind = ''kind''"
| "type_key StInstrument = ''instrument''"
| "type_key StSupports = ''supports''"
| "type_key StPublishes = ''publishes''"
| "type_key StKeyword = ''keyword''"
| "type_key StAllOf = ''all_of''"
| "type_key StAnyOf = ''any_of''"
| "type_key StNot = ''not''"

datatype selection =
    HasTrait string
  | HasTag string
  | IsRef string
  | IsKind string
  | IsInstrument bool
  | Supports string
  | Publishes string
  | KeywordMatch string field_match
  | SelAll "selection list"
  | SelAny "selection list"
  | SelNot selection

fun type_of :: "selection \<Rightarrow> selection_type" where
  "type_of (HasTrait t) = StTrait"
| "type_of (HasTag t) = StTag"
| "type_of (IsRef k) = StDevice"
| "type_of (IsKind k) = StKind"
| "type_of (IsInstrument b) = StInstrument"
| "type_of (Supports c) = StSupports"
| "type_of (Publishes k) = StPublishes"
| "type_of (KeywordMatch k fm) = StKeyword"
| "type_of (SelAll ss) = StAllOf"
| "type_of (SelAny ss) = StAnyOf"
| "type_of (SelNot s) = StNot"

text \<open>What an author may write: text, a selection, a mapping with its keys, or something else.\<close>

datatype authored = AText string | ASelection selection | AMapping "string list" | AOther

definition selection_type_of :: "authored \<Rightarrow> selection_type option" where
  "selection_type_of v =
    (case v of
       AText s \<Rightarrow> Some StTrait
     | ASelection s \<Rightarrow> Some (type_of s)
     | AMapping ks \<Rightarrow> find (\<lambda>k. type_key k \<in> set ks) selection_types
     | AOther \<Rightarrow> None)"

datatype selection_error = NeedsSensor selection | NeedsKeywords string | UnknownPlacement

definition known :: "bound_sensor option \<Rightarrow> selection \<Rightarrow> selection_error + bound_sensor" where
  "known facts question = (case facts of None \<Rightarrow> Inl (NeedsSensor question) | Some bs \<Rightarrow> Inr bs)"

text \<open>A lookup in the topology raises \<open>KeyError\<close> for a placement it does not hold.\<close>

definition placed :: "topology_error + 'a \<Rightarrow> selection_error + 'a" where
  "placed r = (case r of Inl e \<Rightarrow> Inl UnknownPlacement | Inr a \<Rightarrow> Inr a)"

text \<open>\<open>all(...)\<close> and \<open>any(...)\<close> over answers that may raise.\<close>

fun all_answers :: "('e + bool) list \<Rightarrow> 'e + bool" where
  "all_answers [] = Inr True"
| "all_answers (r # rs) = rbind r (\<lambda>b. if b then all_answers rs else Inr False)"

fun any_answers :: "('e + bool) list \<Rightarrow> 'e + bool" where
  "any_answers [] = Inr False"
| "any_answers (r # rs) = rbind r (\<lambda>b. if b then Inr True else any_answers rs)"

definition keyword_matches :: "string \<Rightarrow> field_match \<Rightarrow> placement \<Rightarrow> bound_sensor option \<Rightarrow> selection_error + bool" where
  "keyword_matches k fm p facts =
    rbind (known facts (KeywordMatch k fm)) (\<lambda>bs.
      case device_keywords bs (pl_device p) of
        None \<Rightarrow> Inl (NeedsKeywords k)
      | Some copied \<Rightarrow>
          Inr (field_match_test fm (case map_of copied k of Some v \<Rightarrow> v | None \<Rightarrow> VNone)))"

fun simple_matches :: "selection \<Rightarrow> placement \<Rightarrow> bound_sensor option \<Rightarrow> selection_error + bool" where
  "simple_matches (HasTrait t) p facts = rbind (known facts (HasTrait t)) (\<lambda>bs. Inr (t \<in> bs_traits_of bs p))"
| "simple_matches (HasTag t) p facts =
    rbind (known facts (HasTag t)) (\<lambda>bs.
      rbind (placed (tags (bs_topology bs) p)) (\<lambda>ts. Inr (t \<in> ts)))"
| "simple_matches (IsRef k) p facts = Inr (k = pl_device p)"
| "simple_matches (IsKind k) p facts =
    rbind (known facts (IsKind k)) (\<lambda>bs.
      rbind (placed (kind (bs_topology bs) p)) (\<lambda>found. Inr (k = ''any'' \<or> k = found)))"
| "simple_matches (IsInstrument b) p facts =
    rbind (known facts (IsInstrument b)) (\<lambda>bs.
      rbind (placed (instrument (bs_topology bs) p)) (\<lambda>found. Inr (found = b)))"
| "simple_matches (Supports c) p facts =
    rbind (known facts (Supports c)) (\<lambda>bs. Inr (c \<in> supported_commands bs (pl_device p)))"
| "simple_matches (Publishes k) p facts =
    rbind (known facts (Publishes k)) (\<lambda>bs. Inr (k \<in> published_keywords bs (pl_device p)))"
| "simple_matches (KeywordMatch k fm) p facts = keyword_matches k fm p facts"
| "simple_matches _ p facts = Inr False"

fun matches :: "selection \<Rightarrow> placement \<Rightarrow> bound_sensor option \<Rightarrow> selection_error + bool" where
  "matches (SelAll ss) p facts = all_answers (map (\<lambda>s. matches s p facts) ss)"
| "matches (SelAny ss) p facts = any_answers (map (\<lambda>s. matches s p facts) ss)"
| "matches (SelNot s) p facts = rbind (matches s p facts) (\<lambda>b. Inr (\<not> b))"
| "matches s p facts = simple_matches s p facts"

fun reaches :: "selection \<Rightarrow> placement list \<Rightarrow> bound_sensor option \<Rightarrow> selection_error + bool" where
  "reaches (SelAll ss) chain facts = all_answers (map (\<lambda>s. reaches s chain facts) ss)"
| "reaches (SelAny ss) chain facts = any_answers (map (\<lambda>s. reaches s chain facts) ss)"
| "reaches (SelNot s) chain facts = rbind (reaches s chain facts) (\<lambda>b. Inr (\<not> b))"
| "reaches s chain facts = any_answers (map (\<lambda>p. matches s p facts) chain)"

fun matching :: "selection \<Rightarrow> placement list \<Rightarrow> bound_sensor option \<Rightarrow> selection_error + placement list" where
  "matching s [] facts = Inr []"
| "matching s (p # ps) facts =
    rbind (matches s p facts) (\<lambda>b.
      rbind (matching s ps facts) (\<lambda>rest. Inr (if b then p # rest else rest)))"

definition refs :: "selection \<Rightarrow> placement list \<Rightarrow> bound_sensor option \<Rightarrow> selection_error + string list" where
  "refs s ps facts = rbind (matching s ps facts) (\<lambda>found. Inr (map pl_device found))"

text \<open>What authoring a \<open>KeywordMatch\<close> checks, against the declared keyword types.\<close>

datatype keyword_error = NotDeclared string | BadMatch predicate_error

definition checks_keyword :: "classes \<Rightarrow> (string \<Rightarrow> ann option) \<Rightarrow> string \<Rightarrow> field_match
    \<Rightarrow> keyword_error + selection" where
  "checks_keyword env keyword_types k fm =
    (case keyword_types k of
       None \<Rightarrow> Inl (NotDeclared k)
     | Some t \<Rightarrow>
         (case validate_against env fm t of Inl e \<Rightarrow> Inl (BadMatch e) | Inr _ \<Rightarrow> Inr (KeywordMatch k fm)))"

text \<open>\<open>AllOf.supporting\<close>; the error names the trait.  \<open>sorted\<close> of a frozenset is the sorted
  list of its elements.\<close>

definition supporting :: "trait \<Rightarrow> string + selection" where
  "supporting t =
    (let members = map Supports (sorted_list_of_set (effective_command_ids t))
         @ map Publishes (sorted_list_of_set (effective_keyword_ids t))
     in if members = [] then Inl (tr_name t) else Inr (SelAll members))"

subsection \<open>Lemmas\<close>

lemma all_answers_True: "all_answers rs = Inr True \<longleftrightarrow> (\<forall>r\<in>set rs. r = Inr True)"
  by (induction rs) (auto simp: rbind_Inr_iff split: if_splits)

lemma any_answers_single [simp]: "any_answers [r] = r"
  by (cases r) auto

lemma finite_effective_command_ids: "finite (effective_command_ids t)"
  by (induction t) auto

lemma finite_effective_keyword_ids: "finite (effective_keyword_ids t)"
  by (induction t) auto

lemma bs_traits_of_bound:
  "bs_traits_of (bound reg tp details kws) p =
    (if p \<in> set (placements tp)
     then case map_of details (pl_device p) of
            None \<Rightarrow> {} | Some d \<Rightarrow> set (map tr_name (match_traits (Some d) reg False))
     else {})"
proof -
  have "map_of (List.map_filter (\<lambda>p. case map_of details (pl_device p) of
         None \<Rightarrow> None
       | Some found \<Rightarrow> Some (p, set (map tr_name (match_traits (Some found) reg False)))) ps) p
     = (if p \<in> set ps then map_option (\<lambda>d. set (map tr_name (match_traits (Some d) reg False)))
          (map_of details (pl_device p)) else None)" for ps
    by (induction ps) (auto simp: map_filter_simps split: option.splits)
  then show ?thesis
    by (simp add: bs_traits_of_def bound_def split: option.split)
qed

text \<open>A leaf that asks a bound sensor, and selections all of whose leaves do.\<close>

fun asks_sensor :: "selection \<Rightarrow> bool" where
  "asks_sensor (IsRef k) = False"
| "asks_sensor (SelAll ss) = (ss \<noteq> [] \<and> (\<forall>s\<in>set ss. asks_sensor s))"
| "asks_sensor (SelAny ss) = (ss \<noteq> [] \<and> (\<forall>s\<in>set ss. asks_sensor s))"
| "asks_sensor (SelNot s) = asks_sensor s"
| "asks_sensor _ = True"

lemma isl_rbind: "isl r \<Longrightarrow> isl (rbind r f)"
  by (cases r) auto

lemma no_sensor_matches: "asks_sensor s \<Longrightarrow> isl (matches s p None)"
proof (induction s)
  case (SelAll ss)
  then show ?case by (cases ss) (auto intro: isl_rbind)
next
  case (SelAny ss)
  then show ?case by (cases ss) (auto intro: isl_rbind)
qed (auto simp: known_def keyword_matches_def intro: isl_rbind)

lemma no_sensor_reaches: "asks_sensor s \<Longrightarrow> isl (reaches s (q # chain) None)"
proof (induction s)
  case (SelAll ss)
  then show ?case by (cases ss) (auto intro: isl_rbind)
next
  case (SelAny ss)
  then show ?case by (cases ss) (auto intro: isl_rbind)
qed (auto simp: known_def keyword_matches_def intro: isl_rbind)

subsection \<open>Properties\<close>

text \<open>A sensor that binds is covered: every placement's device reported details, and every
  trait its record declares is registered and satisfied by what the device advertised; binding
  refuses exactly the others.\<close>

theorem bind_establishes:
  "(\<exists>bs. bind reg tp details = Inr bs) \<longleftrightarrow>
    (\<forall>(p, r)\<in>set (tp_records tp). \<exists>d. map_of details (pl_device p) = Some d
      \<and> (\<forall>n\<in>set (record_traits r). \<exists>t\<in>set reg. tr_name t = n \<and> trait_match t (Some d)))"
proof -
  let ?bs = "bound reg tp details None"
  have silent: "filter (\<lambda>p. pl_device p \<notin> set (dict_keys details)) (placements tp) = []
      \<longleftrightarrow> (\<forall>(p, r)\<in>set (tp_records tp). map_of details (pl_device p) \<noteq> None)"
    unfolding filter_empty_conv map_of_None_key placements_def by (force simp: split_def)
  have missing: "unmet reg r (bs_traits_of ?bs p) = []
      \<longleftrightarrow> (\<forall>n\<in>set (record_traits r). \<exists>t\<in>set reg. tr_name t = n \<and> trait_match t (Some d))"
    if "(p, r) \<in> set (tp_records tp)" "map_of details (pl_device p) = Some d" for p r d
  proof -
    have "p \<in> set (placements tp)" using that(1) by (force simp: placements_def)
    then have "bs_traits_of ?bs p = tr_name ` {t \<in> set reg. trait_match t (Some d)}"
      using that(2) by (auto simp: bs_traits_of_bound match_traits_def)
    then show ?thesis by (auto simp: unmet_def filter_empty_conv image_iff)
  qed
  have "(\<exists>bs. bind reg tp details = Inr bs) \<longleftrightarrow>
      (\<forall>(p, r)\<in>set (tp_records tp). map_of details (pl_device p) \<noteq> None)
      \<and> (\<forall>(p, r)\<in>set (tp_records tp). unmet reg r (bs_traits_of ?bs p) = [])"
    unfolding bind_def Let_def silent [symmetric] by (auto simp: split_def)
  also have "\<dots> \<longleftrightarrow> (\<forall>(p, r)\<in>set (tp_records tp). \<exists>d. map_of details (pl_device p) = Some d
      \<and> (\<forall>n\<in>set (record_traits r). \<exists>t\<in>set reg. tr_name t = n \<and> trait_match t (Some d)))"
    using missing by fastforce
  finally show ?thesis .
qed

text \<open>On a chain of one placement, testing the chain is testing the placement, for every
  selection and whatever is raised on the way.\<close>

theorem reaches_single: "reaches s [p] facts = matches s p facts"
proof (induction s)
  case (SelAll ss)
  then have "map (\<lambda>s. reaches s [p] facts) ss = map (\<lambda>s. matches s p facts) ss" by simp
  then show ?case by (simp only: reaches.simps matches.simps)
next
  case (SelAny ss)
  then have "map (\<lambda>s. reaches s [p] facts) ss = map (\<lambda>s. matches s p facts) ss" by simp
  then show ?case by (simp only: reaches.simps matches.simps)
qed (simp_all add: any_answers_single del: any_answers.simps)

text \<open>A selection whose leaves all ask a bound sensor raises when none is given, on a
  placement and on every nonempty chain, under negation and composition too.\<close>

theorem no_sensor_raises:
  assumes "asks_sensor s"
  shows "isl (matches s p None) \<and> isl (matches (SelNot s) p None) \<and> isl (reaches s (q # chain) None)"
  using no_sensor_matches [OF assms, of p] no_sensor_reaches [OF assms]
  by (simp add: isl_rbind)

theorem no_sensor_raises_witness:
  "isl (matches (SelNot (HasTag ''wide'')) demo_cam1 None)"
  using no_sensor_raises [of "HasTag ''wide''" demo_cam1] by simp

text \<open>\<open>AllOf.supporting\<close> asks a device for everything a trait requires: it matches exactly the
  placements whose device reports all its commands and all its keywords, so wherever it
  matches the trait itself is satisfied.\<close>

theorem supporting_exact:
  assumes "supporting t = Inr s" and "map_of (bs_details bs) (pl_device p) = Some d"
  shows "(matches s p (Some bs) = Inr True \<longleftrightarrow>
      effective_command_ids t \<subseteq> supported_commands bs (pl_device p)
      \<and> effective_keyword_ids t \<subseteq> published_keywords bs (pl_device p))
    \<and> (matches s p (Some bs) = Inr True \<and> ed_commands d \<noteq> None \<longrightarrow> trait_match t (Some d))"
proof -
  have s: "s = SelAll (map Supports (sorted_list_of_set (effective_command_ids t))
      @ map Publishes (sorted_list_of_set (effective_keyword_ids t)))"
    using assms(1) by (auto simp: supporting_def Let_def split: if_splits)
  have "matches s p (Some bs) = Inr True \<longleftrightarrow>
      effective_command_ids t \<subseteq> supported_commands bs (pl_device p)
      \<and> effective_keyword_ids t \<subseteq> published_keywords bs (pl_device p)"
    unfolding s by (auto simp: all_answers_True known_def finite_effective_command_ids
        finite_effective_keyword_ids)
  then show ?thesis
    using assms(2) by (auto simp: trait_match_def supported_commands_def published_keywords_def Let_def)
qed

definition demo_details :: "(string, entity_details) dict" where
  "demo_details = map (\<lambda>k. (k, \<lparr>ed_commands = Some {''Capture''}, ed_keywords = {''Gain''}\<rparr>))
    [''mount'', ''guider'', ''wheel'', ''cam1'', ''focuser'', ''cam2'']"

theorem supporting_exact_witness:
  "\<exists>s. supporting (Trait ''Camera'' [''Capture''] [''Gain'']) = Inr s
    \<and> matches s demo_cam1 (Some (bound [] demo_topology demo_details None)) = Inr True"
proof -
  let ?bs = "bound [] demo_topology demo_details None"
  obtain s where s: "supporting (Trait ''Camera'' [''Capture''] [''Gain'']) = Inr s"
    by (simp add: supporting_def)
  have d: "map_of (bs_details ?bs) (pl_device demo_cam1)
      = Some \<lparr>ed_commands = Some {''Capture''}, ed_keywords = {''Gain''}\<rparr>"
    by (simp add: bound_def demo_details_def)
  from supporting_exact [OF s d] d s show ?thesis
    by (auto simp: supported_commands_def published_keywords_def)
qed

theorem bind_establishes_witness:
  "\<exists>bs. bind [] demo_topology demo_details = Inr bs"
proof -
  have "\<forall>(p, r)\<in>set (tp_records demo_topology). pl_device p \<in> set (dict_keys demo_details) \<and> record_traits r = []"
    unfolding demo_topology_tables by code_simp
  then have "\<forall>(p, r)\<in>set (tp_records demo_topology). \<exists>d. map_of demo_details (pl_device p) = Some d
      \<and> (\<forall>n\<in>set (record_traits r). \<exists>t\<in>set []. tr_name t = n \<and> trait_match t (Some d))"
    by (fastforce simp: ex_map_of)
  then show ?thesis unfolding bind_establishes .
qed

end
