(* ===== verification/Data_Context.thy ===== *)
theory Data_Context
  imports Common_Predicate
begin

section \<open>Keyword dictionaries and contexts (common/keyword.py, data/context.py)\<close>

text \<open>
  \<open>KeywordDict\<close> with its operations, \<open>Context\<close> with the expansion of composite keywords on
  every write, \<open>merge_contexts\<close>, and \<open>Context.resolve\<close> with the source it builds for a raw
  template.  A stored object carries its identity, the key its type is declared under (none for
  a type that is not a keyword), its value, and its composed keywords when it is a composite;
  the objects below one are unfolded to a tree, so a composite that composes itself is outside
  the model.  Python's \<open>eval\<close> is the parameter of \<open>resolve\<close>.  Registration of keyword types, the
  JSON of keywords and the subscriptions that fill contexts are not modelled.
\<close>

subsection \<open>KeywordDict\<close>

datatype kwobj = KwObj (ob_id: nat) (ob_key: "string option") (ob_value: pyval) (ob_parts: "kwobj list option")

type_synonym kwdict = "(string, kwobj) dict"

datatype kw_error =
    UndeclaredType
  | MissingKeyword
  | InvalidArgument
  | MissingName
  | NoneValue
  | WrongType pyval
  | EvalFailed string

text \<open>What names an entry: its key, or a type with the key it is declared under, if any.\<close>

datatype key_arg = ByName string | ByType "string option"

definition set_keyword :: "kwobj \<Rightarrow> kwdict \<Rightarrow> kw_error + kwdict" where
  "set_keyword x d = (case ob_key x of None \<Rightarrow> Inl UndeclaredType | Some k \<Rightarrow> Inr (dict_set k x d))"

definition set_value :: "string \<Rightarrow> kwobj \<Rightarrow> kwdict \<Rightarrow> kwdict" where
  "set_value k x d = dict_set k x d"

definition dict_update :: "kwdict \<Rightarrow> kwdict \<Rightarrow> kwdict" where
  "dict_update d other = fold (\<lambda>(k, x). dict_set k x) other d"

fun kw_get :: "kwdict \<Rightarrow> key_arg \<Rightarrow> kwobj option \<Rightarrow> kwobj option" where
  "kw_get d (ByName k) dflt = (case map_of d k of Some x \<Rightarrow> Some x | None \<Rightarrow> dflt)"
| "kw_get d (ByType None) dflt = dflt"
| "kw_get d (ByType (Some k)) dflt = (case map_of d k of Some x \<Rightarrow> Some x | None \<Rightarrow> dflt)"

fun getitem :: "kwdict \<Rightarrow> key_arg \<Rightarrow> kw_error + kwobj" where
  "getitem d (ByName k) = (case map_of d k of Some x \<Rightarrow> Inr x | None \<Rightarrow> Inl MissingKeyword)"
| "getitem d (ByType None) = Inl MissingKeyword"
| "getitem d (ByType (Some k)) = (case map_of d k of Some x \<Rightarrow> Inr x | None \<Rightarrow> Inl MissingKeyword)"

definition pop_key :: "kwdict \<Rightarrow> string \<Rightarrow> kwobj option option \<Rightarrow> kw_error + kwobj option \<times> kwdict" where
  "pop_key d k dflt =
    (case map_of d k of
       Some x \<Rightarrow> Inr (Some x, AList.delete k d)
     | None \<Rightarrow> (case dflt of None \<Rightarrow> Inl MissingKeyword | Some v \<Rightarrow> Inr (v, d)))"

fun kw_pop :: "kwdict \<Rightarrow> key_arg \<Rightarrow> kwobj option option \<Rightarrow> kw_error + kwobj option \<times> kwdict" where
  "kw_pop d (ByType None) dflt =
    (case dflt of None \<Rightarrow> Inl MissingKeyword | Some v \<Rightarrow> Inr (v, d))"
| "kw_pop d (ByType (Some k)) dflt = pop_key d k dflt"
| "kw_pop d (ByName k) dflt = pop_key d k dflt"

fun delitem :: "kwdict \<Rightarrow> key_arg \<Rightarrow> kw_error + kwdict" where
  "delitem d (ByType None) = Inl MissingKeyword"
| "delitem d (ByType (Some k)) = rbind (pop_key d k None) (\<lambda>(_, d). Inr d)"
| "delitem d (ByName k) = rbind (pop_key d k None) (\<lambda>(_, d). Inr d)"

subsection \<open>Context\<close>

text \<open>\<open>_expand\<close>: each composed keyword once per traversal, the innermost stored first.\<close>

fun expand_parts :: "kwobj list \<Rightarrow> nat set \<Rightarrow> kwdict \<Rightarrow> kw_error + nat set \<times> kwdict" where
  "expand_parts [] visited d = Inr (visited, d)"
| "expand_parts (KwObj i k v parts # xs) visited d =
    (if i \<in> visited then expand_parts xs visited d
     else rbind (case parts of
         None \<Rightarrow> Inr (insert i visited, d)
       | Some ps \<Rightarrow> expand_parts ps (insert i visited) d) (\<lambda>(visited, d).
       rbind (set_keyword (KwObj i k v parts) d) (\<lambda>d. expand_parts xs visited d)))"

definition expand :: "kwobj \<Rightarrow> kwdict \<Rightarrow> kw_error + kwdict" where
  "expand x d =
    (case ob_parts x of
       None \<Rightarrow> Inr d
     | Some ps \<Rightarrow> rbind (expand_parts ps {ob_id x} d) (\<lambda>(_, d). Inr d))"

definition expand_values :: "kwobj list \<Rightarrow> kwdict \<Rightarrow> kw_error + kwdict" where
  "expand_values xs d = rfold expand xs d"

definition context_set_keyword :: "kwobj \<Rightarrow> kwdict \<Rightarrow> kw_error + kwdict" where
  "context_set_keyword x d = rbind (expand x d) (set_keyword x)"

text \<open>A source of keywords: an expanded \<open>Context\<close>, or a bare dictionary.\<close>

datatype kwsource = AContext kwdict | AKeywordDict kwdict

fun entries :: "kwsource \<Rightarrow> kwdict" where
  "entries (AContext d) = d"
| "entries (AKeywordDict d) = d"

fun context_update :: "kwsource \<Rightarrow> kwdict \<Rightarrow> kw_error + kwdict" where
  "context_update (AContext other) d = Inr (dict_update d other)"
| "context_update (AKeywordDict other) d = expand_values (map snd other) (dict_update d other)"

datatype context_arg = NoArgument | KeywordArgument kwobj | SourceArgument kwsource | ItemsArgument kwdict | OtherArgument

text \<open>\<open>Context.__init__\<close>: an argument that is not a \<open>Context\<close> is expanded after it is stored, keywords
  given besides it through \<open>set\<close>.\<close>

definition new_context :: "context_arg \<Rightarrow> kwobj list \<Rightarrow> kw_error + kwdict" where
  "new_context arg objs =
    rbind (case arg of
        NoArgument \<Rightarrow> Inr []
      | KeywordArgument x \<Rightarrow> context_set_keyword x []
      | SourceArgument src \<Rightarrow> context_update src []
      | ItemsArgument kvs \<Rightarrow> Inr (fold (\<lambda>(k, x). set_value k x) kvs [])
      | OtherArgument \<Rightarrow> Inl InvalidArgument) (\<lambda>d.
    rbind (rfold context_set_keyword objs d) (\<lambda>d.
      case arg of
        SourceArgument (AContext _) \<Rightarrow> Inr d
      | _ \<Rightarrow> expand_values (map snd d) d))"

definition merge_contexts :: "kwsource option list \<Rightarrow> kw_error + kwdict" where
  "merge_contexts contexts =
    rbind (new_context NoArgument []) (\<lambda>merged.
      rfold (\<lambda>c d. case c of None \<Rightarrow> Inr d | Some src \<Rightarrow> context_update src d) contexts merged)"

subsection \<open>Context.resolve\<close>

abbreviation backslash :: char where "backslash \<equiv> CHR 0x5C"
abbreviation quote :: char where "quote \<equiv> CHR 0x22"
abbreviation apostrophe :: char where "apostrophe \<equiv> CHR 0x27"

definition peels :: "char \<Rightarrow> bool" where
  "peels c \<longleftrightarrow> c = backslash \<or> c = quote"

definition tail_of :: "string \<Rightarrow> string" where
  "tail_of s = rev (takeWhile peels (rev s))"

definition body_of :: "string \<Rightarrow> string" where
  "body_of s = rev (dropWhile peels (rev s))"

text \<open>\<open>repr\<close> of a string of backslashes and double quotes.\<close>

definition tail_repr :: "string \<Rightarrow> string" where
  "tail_repr s = [apostrophe] @ concat (map (\<lambda>c. if c = backslash then [backslash, backslash] else [c]) s) @ [apostrophe]"

definition raw_fstring_source :: "string \<Rightarrow> string" where
  "raw_fstring_source s =
    ''rf'' @ [quote, quote, quote] @ body_of s @ [quote, quote, quote]
      @ (if tail_of s = [] then [] else '' + '' @ tail_repr (tail_of s))"

datatype eval_result = Evaluated pyval | NameMissing | Erred string

definition context_eval :: "(string \<Rightarrow> kwdict \<Rightarrow> eval_result) \<Rightarrow> kwdict \<Rightarrow> string \<Rightarrow> pyval option \<Rightarrow> kw_error + pyval" where
  "context_eval ev d expr dflt =
    (case ev expr d of
       Evaluated v \<Rightarrow> Inr v
     | NameMissing \<Rightarrow> (case dflt of None \<Rightarrow> Inl MissingName | Some v \<Rightarrow> Inr v)
     | Erred e \<Rightarrow> Inl (EvalFailed e))"

definition fstring_openers :: "string list" where
  "fstring_openers = [[CHR ''f'', quote], [CHR ''f'', apostrophe], [CHR ''F'', quote], [CHR ''F'', apostrophe]]"

definition context_resolve :: "(string \<Rightarrow> kwdict \<Rightarrow> eval_result) \<Rightarrow> kwdict \<Rightarrow> string option \<Rightarrow> (pyval \<Rightarrow> bool) option
    \<Rightarrow> pyval option \<Rightarrow> kw_error + pyval" where
  "context_resolve ev d value as_type dflt =
    rbind (case value of
        None \<Rightarrow> (case dflt of None \<Rightarrow> Inl NoneValue | Some v \<Rightarrow> Inr v)
      | Some s \<Rightarrow>
          if take 1 s = ''='' then context_eval ev d (drop 1 s) dflt
          else if take 2 s \<in> set fstring_openers then context_eval ev d s dflt
          else if CHR ''{'' \<in> set s then context_eval ev d (raw_fstring_source s) dflt
          else Inr (VStr s)) (\<lambda>v.
      case as_type of
        Some is_instance \<Rightarrow> if is_instance v then Inr v else Inl (WrongType v)
      | None \<Rightarrow> Inr v)"

subsection \<open>Merging\<close>

text \<open>The keys that the composites below an object store.\<close>

fun part_keys :: "kwobj \<Rightarrow> string set" where
  "part_keys (KwObj i k v None) = {}"
| "part_keys (KwObj i k v (Some ps)) = (\<Union>p\<in>set ps. set_option (ob_key p) \<union> part_keys p)"

lemma dict_update_lookup:
  "distinct (dict_keys other) \<Longrightarrow>
    map_of (dict_update d other) k = (case map_of other k of Some x \<Rightarrow> Some x | None \<Rightarrow> map_of d k)"
proof (induction other arbitrary: d)
  case Nil
  then show ?case by (simp add: dict_update_def)
next
  case (Cons p other)
  obtain k' x where p: "p = (k', x)" by fastforce
  have "map_of (dict_update d (p # other)) k = map_of (dict_update (dict_set k' x d) other) k"
    by (simp add: dict_update_def p)
  also have "\<dots> = (case map_of other k of Some y \<Rightarrow> Some y | None \<Rightarrow> map_of (dict_set k' x d) k)"
    using Cons by simp
  finally have eq: "map_of (dict_update d (p # other)) k =
      (case map_of other k of Some y \<Rightarrow> Some y | None \<Rightarrow> map_of (dict_set k' x d) k)" .
  show ?case
  proof (cases "k = k'")
    case True
    then have "map_of other k = None" using Cons.prems p by (simp add: map_of_None_key)
    then show ?thesis using eq True p by simp
  next
    case False
    then show ?thesis using eq p by (cases "map_of other k") simp_all
  qed
qed

lemma set_keyword_lookup:
  "set_keyword x d = Inr d' \<Longrightarrow> \<exists>k. ob_key x = Some k \<and> map_of d' = (map_of d)(k \<mapsto> x)"
  by (auto simp: set_keyword_def split: option.splits)

lemma expand_parts_lookup:
  "expand_parts xs visited d = Inr (visited', d') \<Longrightarrow>
    k \<notin> (\<Union>p\<in>set xs. set_option (ob_key p) \<union> part_keys p) \<Longrightarrow> map_of d' k = map_of d k"
proof (induction xs visited d arbitrary: visited' d' rule: expand_parts.induct)
  case (1 visited d)
  then show ?case by simp
next
  case (2 i key v parts xs visited d)
  show ?case
  proof (cases "i \<in> visited")
    case True
    then show ?thesis using 2 by simp
  next
    case False
    then obtain vis1 d1 d2 where s: "(case parts of None \<Rightarrow> Inr (insert i visited, d)
          | Some ps \<Rightarrow> expand_parts ps (insert i visited) d) = Inr (vis1, d1)"
        "set_keyword (KwObj i key v parts) d1 = Inr d2" "expand_parts xs vis1 d2 = Inr (visited', d')"
      using 2(4) by (auto simp: rbind_Inr_iff)
    have out: "k \<notin> set_option key" "k \<notin> part_keys (KwObj i key v parts)"
        "k \<notin> (\<Union>p\<in>set xs. set_option (ob_key p) \<union> part_keys p)"
      using 2(5) by simp_all
    have d1: "map_of d1 k = map_of d k"
    proof (cases parts)
      case None
      then show ?thesis using s(1) by simp
    next
      case (Some ps)
      then show ?thesis using 2(2) [OF False Some] s(1) out(2) by simp
    qed
    obtain k' where "key = Some k'" "map_of d2 = (map_of d1)(k' \<mapsto> KwObj i key v parts)"
      using set_keyword_lookup [OF s(2)] by auto
    then have "map_of d2 k = map_of d1 k" using out(1) by auto
    then show ?thesis using 2(3) [OF False s(3) out(3)] d1 by simp
  qed
qed

lemma expand_lookup:
  assumes "expand x d = Inr d'" and "k \<notin> part_keys x"
  shows "map_of d' k = map_of d k"
proof (cases x)
  case (KwObj i key v parts)
  show ?thesis
  proof (cases parts)
    case None
    then show ?thesis using assms KwObj by (simp add: expand_def)
  next
    case (Some ps)
    then obtain vis where "expand_parts ps {i} d = Inr (vis, d')"
      using assms(1) KwObj by (auto simp: expand_def rbind_Inr_iff)
    then show ?thesis using expand_parts_lookup assms(2) KwObj Some by simp
  qed
qed

lemma expand_values_lookup:
  "expand_values xs d = Inr d' \<Longrightarrow> k \<notin> (\<Union>x\<in>set xs. part_keys x) \<Longrightarrow> map_of d' k = map_of d k"
proof (induction xs arbitrary: d)
  case Nil
  then show ?case by (simp add: expand_values_def)
next
  case (Cons x xs)
  then obtain d1 where "expand x d = Inr d1" "expand_values xs d1 = Inr d'"
    by (auto simp: expand_values_def rbind_Inr_iff)
  then show ?case using Cons expand_lookup by simp
qed

text \<open>Which source a merged key comes from: the last one that has it.\<close>

definition last_with :: "string \<Rightarrow> kwsource option list \<Rightarrow> kwobj option" where
  "last_with k contexts =
    fold (\<lambda>c found. case c of
        None \<Rightarrow> found
      | Some src \<Rightarrow> (case map_of (entries src) k of Some x \<Rightarrow> Some x | None \<Rightarrow> found)) contexts None"

text \<open>A bare dictionary stores the key only as an entry of its own, not through a composite.\<close>

fun plain_at :: "string \<Rightarrow> kwsource \<Rightarrow> bool" where
  "plain_at k (AContext d) \<longleftrightarrow> distinct (dict_keys d)"
| "plain_at k (AKeywordDict d) \<longleftrightarrow> distinct (dict_keys d) \<and> (\<forall>x\<in>set (map snd d). k \<notin> part_keys x)"

lemma context_update_lookup:
  assumes "context_update src d = Inr d'" and "plain_at k src"
  shows "map_of d' k = (case map_of (entries src) k of Some x \<Rightarrow> Some x | None \<Rightarrow> map_of d k)"
proof (cases src)
  case (AContext other)
  then show ?thesis using assms dict_update_lookup by auto
next
  case (AKeywordDict other)
  then have "map_of d' k = map_of (dict_update d other) k"
    using assms by (intro expand_values_lookup [of "map snd other"]) auto
  then show ?thesis using AKeywordDict assms(2) dict_update_lookup by simp
qed

lemma merge_fold_lookup:
  "rfold (\<lambda>c d. case c of None \<Rightarrow> Inr d | Some src \<Rightarrow> context_update src d) contexts d = Inr d'
    \<Longrightarrow> \<forall>src. Some src \<in> set contexts \<longrightarrow> plain_at k src
    \<Longrightarrow> map_of d' k = fold (\<lambda>c found. case c of
        None \<Rightarrow> found
      | Some src \<Rightarrow> (case map_of (entries src) k of Some x \<Rightarrow> Some x | None \<Rightarrow> found)) contexts (map_of d k)"
proof (induction contexts arbitrary: d)
  case Nil
  then show ?case by simp
next
  case (Cons c contexts)
  then obtain d1 where d1: "(case c of None \<Rightarrow> Inr d | Some src \<Rightarrow> context_update src d) = Inr d1"
      "rfold (\<lambda>c d. case c of None \<Rightarrow> Inr d | Some src \<Rightarrow> context_update src d) contexts d1 = Inr d'"
    by (auto simp: rbind_Inr_iff)
  have "map_of d1 k = (case c of None \<Rightarrow> map_of d k
      | Some src \<Rightarrow> (case map_of (entries src) k of Some x \<Rightarrow> Some x | None \<Rightarrow> map_of d k))"
    using d1(1) Cons.prems(2) context_update_lookup by (cases c) auto
  moreover have "\<forall>src. Some src \<in> set contexts \<longrightarrow> plain_at k src" using Cons.prems(2) by simp
  ultimately show ?case using Cons.IH [OF d1(2)] by simp
qed

lemma new_context_empty: "new_context NoArgument [] = Inr []"
  by (simp add: new_context_def expand_values_def)

lemma merge_lookup:
  assumes "merge_contexts contexts = Inr d" and "\<forall>src. Some src \<in> set contexts \<longrightarrow> plain_at k src"
  shows "map_of d k = last_with k contexts"
  using assms merge_fold_lookup [of contexts "[]" d k]
  by (simp add: merge_contexts_def new_context_empty last_with_def)

text \<open>Only a composed object of an undeclared type makes a merge fail.\<close>

fun declared_parts :: "kwobj \<Rightarrow> bool" where
  "declared_parts (KwObj i k v None) \<longleftrightarrow> True"
| "declared_parts (KwObj i k v (Some ps)) \<longleftrightarrow> (\<forall>p\<in>set ps. ob_key p \<noteq> None \<and> declared_parts p)"

lemma expand_parts_total:
  "\<forall>p\<in>set xs. ob_key p \<noteq> None \<and> declared_parts p \<Longrightarrow> \<not> isl (expand_parts xs visited d)"
proof (induction xs visited d rule: expand_parts.induct)
  case (1 visited d)
  then show ?case by simp
next
  case (2 i key v parts xs visited d)
  show ?case
  proof (cases "i \<in> visited")
    case True
    then show ?thesis using 2 by simp
  next
    case False
    have inner: "\<exists>q. (case parts of None \<Rightarrow> Inr (insert i visited, d)
          | Some ps \<Rightarrow> expand_parts ps (insert i visited) d) = Inr q"
    proof (cases parts)
      case None
      then show ?thesis by simp
    next
      case (Some ps)
      then have "\<not> isl (expand_parts ps (insert i visited) d)"
        using 2(2) [OF False Some] 2(4) by simp
      then show ?thesis using Some by (cases "expand_parts ps (insert i visited) d") simp_all
    qed
    then obtain vis1 d1 where s: "(case parts of None \<Rightarrow> Inr (insert i visited, d)
          | Some ps \<Rightarrow> expand_parts ps (insert i visited) d) = Inr (vis1, d1)" by fastforce
    obtain k where "key = Some k" using 2(4) by auto
    then have k: "set_keyword (KwObj i key v parts) d1 = Inr (dict_set k (KwObj i key v parts) d1)"
      by (simp add: set_keyword_def)
    have "\<not> isl (expand_parts xs vis1 (dict_set k (KwObj i key v parts) d1))"
      using 2(3) [OF False] 2(4) by simp
    then show ?thesis using False s k by simp
  qed
qed

lemma expand_total: "declared_parts x \<Longrightarrow> \<exists>d'. expand x d = Inr d'"
proof (cases x)
  case (KwObj i k v parts)
  assume dp: "declared_parts x"
  show ?thesis
  proof (cases parts)
    case None
    then show ?thesis using KwObj by (simp add: expand_def)
  next
    case (Some ps)
    then have "\<not> isl (expand_parts ps {i} d)" using dp KwObj by (intro expand_parts_total) simp
    then show ?thesis using KwObj Some by (cases "expand_parts ps {i} d") (auto simp: expand_def)
  qed
qed

lemma context_update_total:
  assumes "\<forall>x\<in>set (map snd (entries src)). declared_parts x"
  shows "\<exists>d'. context_update src d = Inr d'"
proof (cases src)
  case (AContext other)
  then show ?thesis by simp
next
  case (AKeywordDict other)
  have "\<forall>x\<in>set xs. declared_parts x \<Longrightarrow> \<exists>d'. expand_values xs d = Inr d'" for xs d
  proof (induction xs arbitrary: d)
    case Nil
    then show ?case by (simp add: expand_values_def)
  next
    case (Cons x xs)
    have "declared_parts x" using Cons.prems by simp
    then obtain d1 where "expand x d = Inr d1" using expand_total by blast
    then show ?case using Cons by (simp add: expand_values_def)
  qed
  then show ?thesis using assms AKeywordDict by simp
qed

lemma merge_total:
  assumes "\<forall>src. Some src \<in> set contexts \<longrightarrow> (\<forall>x\<in>set (map snd (entries src)). declared_parts x)"
  shows "\<exists>d. merge_contexts contexts = Inr d"
proof -
  have "\<forall>src. Some src \<in> set cs \<longrightarrow> (\<forall>x\<in>set (map snd (entries src)). declared_parts x)
      \<Longrightarrow> \<exists>d'. rfold (\<lambda>c d. case c of None \<Rightarrow> Inr d | Some src \<Rightarrow> context_update src d) cs d = Inr d'" for cs d
  proof (induction cs arbitrary: d)
    case Nil
    then show ?case by simp
  next
    case (Cons c cs)
    obtain d1 where "(case c of None \<Rightarrow> Inr d | Some src \<Rightarrow> context_update src d) = Inr d1"
    proof (cases c)
      case None
      then show ?thesis using that by simp
    next
      case (Some src)
      then have "\<forall>x\<in>set (map snd (entries src)). declared_parts x" using Cons.prems by simp
      then obtain d1 where "context_update src d = Inr d1" using context_update_total by blast
      then show ?thesis using that Some by simp
    qed
    then show ?case using Cons by simp
  qed
  then show ?thesis using assms by (simp add: merge_contexts_def new_context_empty)
qed

subsection \<open>Raw templates\<close>

lemma body_tail: "body_of s @ tail_of s = s"
  by (metis body_of_def tail_of_def rev_append rev_rev_ident takeWhile_dropWhile_id)

lemma tail_peels: "\<forall>c\<in>set (tail_of s). peels c"
  by (auto simp: tail_of_def dest: set_takeWhileD)

lemma body_end: "body_of s \<noteq> [] \<Longrightarrow> \<not> peels (last (body_of s))"
  using hd_dropWhile [of peels "rev s"] by (simp add: body_of_def last_rev)

text \<open>How Python reads a literal in single quotes: an escaped backslash is one, any other
  escape is outside this reading, and the apostrophe closes it.\<close>

fun literal_rest :: "string \<Rightarrow> string option" where
  "literal_rest [] = None"
| "literal_rest (c # cs) =
    (if c = apostrophe then if cs = [] then Some [] else None
     else if c = backslash then
       (case cs of
          [] \<Rightarrow> None
        | e # es \<Rightarrow> if e = backslash then map_option (\<lambda>r. backslash # r) (literal_rest es) else None)
     else map_option (\<lambda>r. c # r) (literal_rest cs))"

definition literal_value :: "string \<Rightarrow> string option" where
  "literal_value s = (case s of [] \<Rightarrow> None | c # cs \<Rightarrow> if c = apostrophe then literal_rest cs else None)"

lemma literal_rest_peeled:
  "\<forall>c\<in>set s. peels c \<Longrightarrow>
    literal_rest (concat (map (\<lambda>c. if c = backslash then [backslash, backslash] else [c]) s) @ [apostrophe]) = Some s"
  by (induction s) (auto simp: peels_def)

lemma tail_repr_value: "\<forall>c\<in>set s. peels c \<Longrightarrow> literal_value (tail_repr s) = Some s"
  using literal_rest_peeled by (simp add: tail_repr_def literal_value_def)

subsection \<open>Properties\<close>

text \<open>C. Merging contexts fails only over a composed keyword of an undeclared type, and every
  key that no composite of a bare dictionary stores has in the merged context the value of the last
  given context that holds it.\<close>

theorem merge_precedence:
  assumes "\<forall>src. Some src \<in> set contexts \<longrightarrow> (\<forall>x\<in>set (map snd (entries src)). declared_parts x)"
  shows "\<exists>d. merge_contexts contexts = Inr d \<and>
    (\<forall>k. (\<forall>src. Some src \<in> set contexts \<longrightarrow> plain_at k src) \<longrightarrow> map_of d k = last_with k contexts)"
  using merge_total [OF assms] merge_lookup by blast


subsection \<open>Witnesses\<close>

definition demo_contexts :: "kwsource option list" where
  "demo_contexts =
    [Some (AContext [(''gain'', KwObj 0 (Some ''gain'') (VInt 1) None)]), None,
     Some (AKeywordDict [(''gain'', KwObj 1 (Some ''gain'') (VInt 7) None)])]"

theorem merge_precedence_witness:
  "\<exists>d. merge_contexts demo_contexts = Inr d \<and> map_of d ''gain'' = Some (KwObj 1 (Some ''gain'') (VInt 7) None)"
proof -
  have "\<forall>src. Some src \<in> set demo_contexts \<longrightarrow> (\<forall>x\<in>set (map snd (entries src)). declared_parts x)"
    by (auto simp: demo_contexts_def)
  moreover have "\<forall>src. Some src \<in> set demo_contexts \<longrightarrow> plain_at ''gain'' src"
    by (auto simp: demo_contexts_def)
  ultimately show ?thesis
    using merge_precedence [of demo_contexts] by (auto simp: last_with_def demo_contexts_def)
qed


end
