(* ===== verification/Sensor_Workflow.thy ===== *)
theory Sensor_Workflow
  imports Dag_Graph Sensor_Selection Data_Context
begin

section \<open>Workflow compilation (core/src/sensorkit/sensor/workflow.py)\<close>

text \<open>
  Planned steps, deadline and operator rules, and \<open>lower\<close>, which turns named steps into
  dependency graphs of \<open>Dag_Graph\<close>: steps are indexed and checked, unsupported ones omitted,
  dependencies resolved through the omitted ones, and the rest becomes nodes and edges.
  Operations compare by identity in Python: an operation carries the number of its allocation,
  which \<open>compile_steps\<close> threads.  A command is its registered identifier with the arguments
  that differ from their defaults, each with its \<open>repr\<close>.  Timeouts keep the float values that
  are not numbers.
\<close>

subsection \<open>Records\<close>

text \<open>A path part is text or an integer.\<close>

record origin =
  or_source :: string
  or_path :: "(string + int) list"
  or_reason :: string

definition int_str :: "int \<Rightarrow> string" where
  "int_str i = (if i < 0 then ''-'' @ nat_str (nat (- i)) else nat_str (nat i))"

definition origin_str :: "origin \<Rightarrow> string" where
  "origin_str o1 = join ''/'' (or_source o1 # map (\<lambda>p. case p of Inl s \<Rightarrow> s | Inr i \<Rightarrow> int_str i) (or_path o1))"

record acquisition =
  aq_request :: string
  aq_index :: int
  aq_frame_number :: int
  aq_keywords :: kwdict

record command =
  cmd_tag :: string
  cmd_args :: "(string \<times> string) list"

datatype dep_kind = Success | Completion

record dependency =
  dp_on :: string
  dp_kind :: dep_kind

definition completion :: "string list \<Rightarrow> dependency list" where
  "completion names = map (\<lambda>n. \<lparr>dp_on = n, dp_kind = Completion\<rparr>) names"

datatype seconds = Finite real | Infinite | NotANumber

datatype if_unsupported = Refuse | Omit

record planned_step =
  ps_name :: string
  ps_origin :: origin
  ps_group :: string
  ps_target :: "placement option"
  ps_command :: "command option"
  ps_deps :: "dependency list"
  ps_optional :: bool
  ps_fail_fast :: bool
  ps_unsupported :: if_unsupported
  ps_timeout :: "seconds option"
  ps_acquisition :: "acquisition option"
  ps_delay_s :: real

definition format_command :: "command \<Rightarrow> string" where
  "format_command c =
    (let args = join '', '' (map (\<lambda>(k, v). k @ ''='' @ v) (cmd_args c))
     in if args \<noteq> [] then cmd_tag c @ ''('' @ args @ '')'' else cmd_tag c)"

definition step_label :: "planned_step \<Rightarrow> string" where
  "step_label s =
    (case (ps_command s, ps_target s) of
       (Some c, Some p) \<Rightarrow> ljust 18 (format_command c) @ '' '' @ pl_device p @ '' @ '' @ path_str (pl_path p)
     | _ \<Rightarrow> if or_reason (ps_origin s) \<noteq> [] then or_reason (ps_origin s) else ps_name s)"

record operation =
  op_ref :: nat
  op_target :: placement
  op_command :: command
  op_origin :: origin
  op_timeout :: "seconds option"
  op_acquisition :: "acquisition option"

definition op_id :: "operation \<Rightarrow> string" where
  "op_id x = origin_str (op_origin x) @ ''@'' @ pl_device (op_target x)"

datatype workflow_error =
    DuplicateStep string
  | Unpaired string bool
  | Dangling "string list"
  | UnsupportedCommand string string string
  | OmittedCycle string
  | NoCommand string
  | AmbiguousDeadline string string "string list"
  | SelectionFailed selection_error
  | GraphRefused dag_error
  | MissingKey string
  | UnknownTriggers string "string list"
  | SharedIds "string list"
  | BadDeadline string string
  | BadTotalDeadline string
  | ForeignTriggers string "string list"
  | BadRule string

text \<open>\<open>Operation.planned\<close>; allocation numbers stand for object identity.\<close>

definition operation_planned :: "planned_step \<Rightarrow> seconds option \<Rightarrow> nat \<Rightarrow> workflow_error + operation \<times> nat" where
  "operation_planned s timeout next =
    (case (ps_command s, ps_target s) of
       (Some c, Some p) \<Rightarrow>
         Inr (\<lparr>op_ref = next, op_target = p, op_command = c, op_origin = ps_origin s,
               op_timeout = timeout, op_acquisition = ps_acquisition s\<rparr>, Suc next)
     | _ \<Rightarrow> Inl (NoCommand (ps_name s)))"

record omission =
  om_origin :: origin
  om_target :: placement
  om_command :: string

subsection \<open>Deadlines\<close>

datatype deadline_target = OnDevice string | OnTrait string | OnAny

record deadline_rule =
  dr_target :: deadline_target
  dr_command :: "string option"
  dr_seconds :: seconds

text \<open>An authored rule names its target by one of three keys.\<close>

definition namespaces :: "string list" where
  "namespaces = [''device'', ''trait'', ''any'']"

definition namespaced :: "(string, string) dict \<Rightarrow> workflow_error + deadline_target" where
  "namespaced v =
    (case filter (\<lambda>k. k \<in> set (dict_keys v)) namespaces of
       [k] \<Rightarrow> Inr (if k = ''any'' then OnAny
                    else if k = ''device'' then OnDevice (the (map_of v k)) else OnTrait (the (map_of v k)))
     | _ \<Rightarrow> Inl (BadRule ''a deadline rule names exactly one of device, trait, any''))"

fun named_target :: "deadline_target \<Rightarrow> string" where
  "named_target (OnDevice k) = ''device '' @ [CHR 0x27] @ k @ [CHR 0x27]"
| "named_target (OnTrait k) = ''trait '' @ [CHR 0x27] @ k @ [CHR 0x27]"
| "named_target OnAny = ''any''"

datatype rung = RDevice | RTrait | RAny

fun addressing :: "deadline_rule list \<Rightarrow> rung \<Rightarrow> placement \<Rightarrow> string set \<Rightarrow> deadline_rule list" where
  "addressing rules RDevice p traits = filter (\<lambda>r. dr_target r = OnDevice (pl_device p)) rules"
| "addressing rules RTrait p traits =
    filter (\<lambda>r. case dr_target r of OnTrait t \<Rightarrow> t \<in> traits | _ \<Rightarrow> False) rules"
| "addressing rules RAny p traits = filter (\<lambda>r. dr_target r = OnAny) rules"

definition the_rule :: "deadline_rule list \<Rightarrow> string \<Rightarrow> placement \<Rightarrow> workflow_error + deadline_rule" where
  "the_rule matched command p =
    (case matched of
       [r] \<Rightarrow> Inr r
     | _ \<Rightarrow> Inl (AmbiguousDeadline command (pl_device p) (sort (map (named_target \<circ> dr_target) matched))))"

fun first_rung :: "(deadline_rule list \<times> rung) list \<Rightarrow> string \<Rightarrow> placement \<Rightarrow> string set
    \<Rightarrow> workflow_error + seconds option" where
  "first_rung [] command p traits = Inr None"
| "first_rung ((rules, rung) # rest) command p traits =
    (let matched = addressing rules rung p traits in
     if matched \<noteq> [] then rbind (the_rule matched command p) (\<lambda>r. Inr (Some (dr_seconds r)))
     else first_rung rest command p traits)"

definition resolve_deadline :: "string \<Rightarrow> placement \<Rightarrow> deadline_rule list \<Rightarrow> seconds option \<Rightarrow> bound_sensor
    \<Rightarrow> workflow_error + seconds option" where
  "resolve_deadline command p stated explicit facts =
    (case explicit of
       Some s \<Rightarrow> Inr (Some s)
     | None \<Rightarrow>
         let named = filter (\<lambda>r. dr_command r = Some command) stated;
             every = filter (\<lambda>r. dr_command r = None) stated
         in first_rung (List.product [named, every] [RDevice, RTrait, RAny]) command p (bs_traits_of facts p))"

subsection \<open>Operator rules\<close>

record operator_rule =
  ru_reason :: string
  ru_select :: "selection option"
  ru_commands :: "string list"
  ru_outcome :: "override_outcome option"
  ru_fail_fast :: "bool option"
  ru_optional :: "bool option"

text \<open>\<open>OperatorRule.__post_init__\<close>.\<close>

definition check_rule :: "operator_rule \<Rightarrow> workflow_error + operator_rule" where
  "check_rule r =
    rbind (rguard (\<not> (ru_select r = None \<and> ru_commands r = [])) (BadRule ''addresses nothing'')) (\<lambda>_.
    rbind (rguard (\<not> (ru_outcome r = None \<and> ru_fail_fast r = None \<and> ru_optional r = None))
      (BadRule ''changes nothing'')) (\<lambda>_.
    rbind (rguard (ru_outcome r = None \<or> (ru_fail_fast r = None \<and> ru_optional r = None))
      (BadRule ''outcome and policy'')) (\<lambda>_. Inr r)))"

definition selected_by :: "selection option \<Rightarrow> placement \<Rightarrow> bound_sensor \<Rightarrow> workflow_error + bool" where
  "selected_by sel p facts =
    (case sel of
       None \<Rightarrow> Inr True
     | Some s \<Rightarrow> (case matches s p (Some facts) of Inl e \<Rightarrow> Inl (SelectionFailed e) | Inr b \<Rightarrow> Inr b))"

definition rule_matches :: "operator_rule \<Rightarrow> planned_step \<Rightarrow> bound_sensor \<Rightarrow> workflow_error + bool" where
  "rule_matches r s facts =
    (case (ps_command s, ps_target s) of
       (Some c, Some p) \<Rightarrow>
         rbind (selected_by (ru_select r) p facts) (\<lambda>b.
           if \<not> b then Inr False
           else Inr (ru_commands r = [] \<or> cmd_tag c \<in> set (ru_commands r)))
     | _ \<Rightarrow> Inr False)"

fun first_matching :: "operator_rule list \<Rightarrow> planned_step \<Rightarrow> bound_sensor
    \<Rightarrow> workflow_error + operator_rule option" where
  "first_matching [] s facts = Inr None"
| "first_matching (r # rs) s facts =
    rbind (rule_matches r s facts) (\<lambda>b. if b then Inr (Some r) else first_matching rs s facts)"

definition effects :: "planned_step \<Rightarrow> operator_rule list \<Rightarrow> bound_sensor
    \<Rightarrow> workflow_error + on_failure \<times> bool \<times> node_override option" where
  "effects s rules facts =
    (let policy = (\<lambda>ff. if ff then Stop else Skip) in
     rbind (first_matching rules s facts) (\<lambda>rule.
       case rule of
         None \<Rightarrow> Inr (policy (ps_fail_fast s), ps_optional s, None)
       | Some r \<Rightarrow> Inr
           (policy (case ru_fail_fast r of None \<Rightarrow> ps_fail_fast s | Some ff \<Rightarrow> ff),
            case ru_optional r of None \<Rightarrow> ps_optional s | Some b \<Rightarrow> b,
            map_option (\<lambda>o1. \<lparr>ov_outcome = o1, ov_reason = ru_reason r\<rparr>) (ru_outcome r))))"

subsection \<open>Checking, omission and dependency resolution\<close>

fun check_loop :: "planned_step list \<Rightarrow> (string, planned_step) dict \<Rightarrow> workflow_error + (string, planned_step) dict" where
  "check_loop [] by_name = Inr by_name"
| "check_loop (s # ss) by_name =
    (if ps_name s \<in> set (dict_keys by_name) then Inl (DuplicateStep (ps_name s))
     else if (ps_command s = None) \<noteq> (ps_target s = None) then Inl (Unpaired (ps_name s) (ps_target s = None))
     else check_loop ss (dict_set (ps_name s) s by_name))"

definition dangling_names :: "planned_step list \<Rightarrow> string list \<Rightarrow> string list" where
  "dangling_names steps names =
    sort (dedup (filter (\<lambda>n. n \<notin> set names) (concat (map (\<lambda>s. map dp_on (ps_deps s)) steps))))"

definition checked :: "planned_step list \<Rightarrow> workflow_error + (string, planned_step) dict" where
  "checked steps =
    rbind (check_loop steps []) (\<lambda>by_name.
      let dangling = dangling_names steps (dict_keys by_name)
      in if dangling \<noteq> [] then Inl (Dangling dangling) else Inr by_name)"

fun fates :: "planned_step list \<Rightarrow> bound_sensor \<Rightarrow> workflow_error + string list \<times> omission list" where
  "fates [] facts = Inr ([], [])"
| "fates (s # ss) facts =
    (case (ps_command s, ps_target s) of
       (Some c, Some p) \<Rightarrow>
         if cmd_tag c \<in> supported_commands facts (pl_device p) then fates ss facts
         else if ps_unsupported s = Refuse
         then Inl (UnsupportedCommand (ps_name s) (pl_device p) (cmd_tag c))
         else rbind (fates ss facts) (\<lambda>(names, oms).
           Inr (ps_name s # names,
                \<lparr>om_origin = ps_origin s, om_target = p, om_command = cmd_tag c\<rparr> # oms))
     | _ \<Rightarrow> fates ss facts)"

text \<open>The loop of \<open>_merged\<close> over the dict \<open>kinds\<close>.\<close>

definition merge_dep :: "dependency \<Rightarrow> (string, dep_kind) dict \<Rightarrow> (string, dep_kind) dict" where
  "merge_dep d kinds =
    (if map_of kinds (dp_on d) \<noteq> Some Success then dict_set (dp_on d) (dp_kind d) kinds else kinds)"

definition merged :: "dependency list \<Rightarrow> dependency list" where
  "merged deps = map (\<lambda>(n, k). \<lparr>dp_on = n, dp_kind = k\<rparr>) (fold merge_dep deps [])"

definition both_kinds :: "dep_kind \<Rightarrow> dep_kind \<Rightarrow> dep_kind" where
  "both_kinds k l = (if k = Success \<and> l = Success then Success else Completion)"

definition inherit :: "dep_kind \<Rightarrow> dependency list \<Rightarrow> dependency list" where
  "inherit k ds = map (\<lambda>d. \<lparr>dp_on = dp_on d, dp_kind = both_kinds k (dp_kind d)\<rparr>) ds"

type_synonym resolutions = "(string, dependency list) dict"

text \<open>\<open>_resolve\<close> and the loop inside it; \<open>resolved\<close> is the memo it fills.\<close>

function resolve :: "(string, planned_step) dict \<Rightarrow> string list \<Rightarrow> string \<Rightarrow> resolutions \<Rightarrow> string set
      \<Rightarrow> workflow_error + dependency list \<times> resolutions"
and gather :: "(string, planned_step) dict \<Rightarrow> string list \<Rightarrow> dependency list \<Rightarrow> dependency list
      \<Rightarrow> resolutions \<Rightarrow> string set \<Rightarrow> workflow_error + dependency list \<times> resolutions" where
  "resolve by_name omitted name resolved seen =
    (case map_of resolved name of
       Some ds \<Rightarrow> Inr (ds, resolved)
     | None \<Rightarrow>
         if name \<in> seen then Inl (OmittedCycle name)
         else case map_of by_name name of
                None \<Rightarrow> Inl (MissingKey name)
              | Some s \<Rightarrow>
                  rbind (gather by_name omitted (ps_deps s) [] resolved (insert name seen)) (\<lambda>(here, resolved').
                    Inr (merged here, dict_set name (merged here) resolved')))"
| "gather by_name omitted [] here resolved seen = Inr (here, resolved)"
| "gather by_name omitted (d # ds) here resolved seen =
    (if dp_on d \<in> set omitted
     then rbind (resolve by_name omitted (dp_on d) resolved seen) (\<lambda>(inherited, resolved').
            gather by_name omitted ds (here @ inherit (dp_kind d) inherited) resolved' seen)
     else gather by_name omitted ds (here @ [d]) resolved seen)"
  by pat_completeness auto
termination
proof (relation "measures [\<lambda>a. case a of
      Inl (by_name, _, _, _, seen) \<Rightarrow> card (set (dict_keys by_name) - seen)
    | Inr (by_name, _, _, _, _, seen) \<Rightarrow> card (set (dict_keys by_name) - seen),
    \<lambda>a. case a of Inl _ \<Rightarrow> 0 | Inr (_, _, ds, _, _, _) \<Rightarrow> Suc (length ds)]", goal_cases)
  case (2 by_name omitted name resolved seen s)
  have "name \<in> set (dict_keys by_name) - seen" using 2 by (auto dest: map_of_Some_key)
  then have "card (set (dict_keys by_name) - insert name seen) < card (set (dict_keys by_name) - seen)"
    by (metis Diff_insert List.finite_set card_Diff1_less finite_Diff)
  then show ?case by simp
qed auto

declare resolve.simps [simp del]

fun resolve_all :: "(string, planned_step) dict \<Rightarrow> string list \<Rightarrow> string list \<Rightarrow> resolutions
    \<Rightarrow> workflow_error + resolutions" where
  "resolve_all by_name omitted [] resolved = Inr resolved"
| "resolve_all by_name omitted (n # ns) resolved =
    rbind (resolve by_name omitted n resolved {}) (\<lambda>(_, resolved'). resolve_all by_name omitted ns resolved')"

subsection \<open>Compilation\<close>

text \<open>One turn of the loop over the steps: the payload, the policy, the node.\<close>

record compiling =
  cp_builder :: "operation option builder"
  cp_nodes :: "(string, nat) dict"
  cp_operations :: "(string, operation) dict"
  cp_next :: nat

definition payload_of :: "planned_step \<Rightarrow> deadline_rule list \<Rightarrow> bound_sensor \<Rightarrow> nat
    \<Rightarrow> workflow_error + operation option \<times> nat" where
  "payload_of s deadlines facts next =
    (case (ps_command s, ps_target s) of
       (Some c, Some p) \<Rightarrow>
         rbind (resolve_deadline (cmd_tag c) p deadlines (ps_timeout s) facts) (\<lambda>t.
         rbind (operation_planned s t next) (\<lambda>(x, next'). Inr (Some x, next')))
     | _ \<Rightarrow> Inr (None, next))"

definition enter_node :: "planned_step \<Rightarrow> operation option \<Rightarrow> on_failure \<times> bool \<times> node_override option \<Rightarrow> nat
    \<Rightarrow> compiling \<Rightarrow> compiling" where
  "enter_node s payload effect nxt cp =
    (let (on_failure, optional, override) = effect;
         (i, b) = builder_add (step_label s) (ps_group s) payload {} {} on_failure optional
           (ps_delay_s s) override (cp_builder cp)
     in \<lparr>cp_builder = b, cp_nodes = dict_set (ps_name s) i (cp_nodes cp),
         cp_operations = (case payload of Some x \<Rightarrow> dict_set (ps_name s) x (cp_operations cp)
                           | None \<Rightarrow> cp_operations cp),
         cp_next = nxt\<rparr>)"

definition add_step :: "bound_sensor \<Rightarrow> deadline_rule list \<Rightarrow> operator_rule list \<Rightarrow> string list
    \<Rightarrow> planned_step \<Rightarrow> compiling \<Rightarrow> workflow_error + compiling" where
  "add_step facts deadlines rules omitted s cp =
    (if ps_name s \<in> set omitted then Inr cp
     else
       rbind (payload_of s deadlines facts (cp_next cp)) (\<lambda>(payload, nxt).
       rbind (effects s rules facts) (\<lambda>effect. Inr (enter_node s payload effect nxt cp))))"

definition id_of :: "(string, nat) dict \<Rightarrow> string \<Rightarrow> workflow_error + nat" where
  "id_of nodes n = (case map_of nodes n of None \<Rightarrow> Inl (MissingKey n) | Some i \<Rightarrow> Inr i)"

definition graph_result :: "dag_error + 'a \<Rightarrow> workflow_error + 'a" where
  "graph_result r = (case r of Inl e \<Rightarrow> Inl (GraphRefused e) | Inr a \<Rightarrow> Inr a)"

definition add_edges :: "resolutions \<Rightarrow> (string, nat) dict \<Rightarrow> string \<times> nat
    \<Rightarrow> operation option builder \<Rightarrow> workflow_error + operation option builder" where
  "add_edges resolved nodes ni b =
    (let (n, i) = ni in
     case map_of resolved n of
       None \<Rightarrow> Inl (MissingKey n)
     | Some ds \<Rightarrow>
         rbind (rtraverse (\<lambda>d. id_of nodes (dp_on d)) (filter (\<lambda>d. dp_kind d = Success) ds)) (\<lambda>hard.
         rbind (graph_result (builder_require i (set hard) b)) (\<lambda>b'.
         rbind (rtraverse (\<lambda>d. id_of nodes (dp_on d)) (filter (\<lambda>d. dp_kind d = Completion) ds)) (\<lambda>soft.
           graph_result (builder_order i (set soft) b')))))"

definition compile_steps :: "planned_step list \<Rightarrow> bound_sensor \<Rightarrow> deadline_rule list \<Rightarrow> operator_rule list \<Rightarrow> nat
    \<Rightarrow> workflow_error + (operation option graph \<times> (string, operation) dict \<times> omission list) \<times> nat" where
  "compile_steps steps facts deadlines rules next =
    rbind (checked steps) (\<lambda>by_name.
    rbind (fates steps facts) (\<lambda>(omitted, omissions).
    rbind (resolve_all by_name omitted (dict_keys by_name) []) (\<lambda>resolved.
    rbind (rfold (add_step facts deadlines rules omitted) steps
      \<lparr>cp_builder = empty_builder, cp_nodes = [], cp_operations = [], cp_next = next\<rparr>) (\<lambda>cp.
    rbind (rfold (add_edges resolved (cp_nodes cp)) (cp_nodes cp) (cp_builder cp)) (\<lambda>b.
    rbind (graph_result (build b)) (\<lambda>g. Inr ((g, cp_operations cp, omissions), cp_next cp)))))))"

subsection \<open>Cleanup and lower\<close>

datatype cleanup_when = Always | OnFailure | OnCancelled | OnFailureOrCancelled

record cleanup =
  cl_graph :: "operation option graph"
  cl_when :: cleanup_when
  cl_timeout :: seconds
  cl_origin :: origin
  cl_armed_by :: "operation list option"

fun cleanup_selected :: "cleanup_when \<Rightarrow> bool \<Rightarrow> bool \<Rightarrow> bool" where
  "cleanup_selected Always failed aborted = True"
| "cleanup_selected OnFailure failed aborted = failed"
| "cleanup_selected OnCancelled failed aborted = aborted"
| "cleanup_selected OnFailureOrCancelled failed aborted = (failed \<or> aborted)"

text \<open>\<open>attempted\<close> is a set of operations by identity.\<close>

definition cleanup_armed :: "cleanup \<Rightarrow> nat set \<Rightarrow> bool" where
  "cleanup_armed c attempted =
    (case cl_armed_by c of None \<Rightarrow> True | Some xs \<Rightarrow> \<exists>x\<in>set xs. op_ref x \<in> attempted)"

record cleanup_plan =
  cpl_steps :: "planned_step list"
  cpl_origin :: origin
  cpl_when :: cleanup_when
  cpl_timeout :: seconds
  cpl_armed_by :: "string list option"

record workflow =
  ew_name :: string
  ew_graph :: "operation option graph"
  ew_cleanup :: "cleanup list"
  ew_omissions :: "omission list"

definition arming :: "cleanup_plan \<Rightarrow> planned_step list \<Rightarrow> (string, operation) dict
    \<Rightarrow> workflow_error + operation list option" where
  "arming plan steps operations =
    (case cpl_armed_by plan of
       None \<Rightarrow> Inr None
     | Some names \<Rightarrow>
         let unknown = sort (dedup (filter (\<lambda>n. n \<notin> set (map ps_name steps)) names)) in
         if unknown \<noteq> [] then Inl (UnknownTriggers (or_source (cpl_origin plan)) unknown)
         else Inr (Some (List.map_filter (map_of operations) names)))"

definition operations_of :: "operation option graph \<Rightarrow> operation list" where
  "operations_of g = List.map_filter n_payload (g_nodes g)"

fun usable :: "seconds \<Rightarrow> bool" where
  "usable (Finite r) = (0 < r)"
| "usable _ = False"

definition bad_deadline :: "operation \<Rightarrow> bool" where
  "bad_deadline x = (case op_timeout x of Some t \<Rightarrow> \<not> usable t | None \<Rightarrow> False)"

definition deadlines_within :: "operation list \<Rightarrow> string \<Rightarrow> workflow_error + unit" where
  "deadlines_within xs gname =
    (case find bad_deadline xs of
       Some x \<Rightarrow> Inl (BadDeadline (op_id x) gname) | None \<Rightarrow> Inr ())"

definition bounded :: "cleanup \<Rightarrow> workflow_error + unit" where
  "bounded c =
    (if \<not> usable (cl_timeout c) then Inl (BadTotalDeadline (or_source (cl_origin c)))
     else deadlines_within (operations_of (cl_graph c)) (or_source (cl_origin c)))"

definition armed_within :: "cleanup \<Rightarrow> nat set \<Rightarrow> workflow_error + unit" where
  "armed_within c held =
    (let outside = map op_id (filter (\<lambda>x. op_ref x \<notin> held)
           (case cl_armed_by c of None \<Rightarrow> [] | Some xs \<Rightarrow> xs))
     in if outside \<noteq> [] then Inl (ForeignTriggers (or_source (cl_origin c)) outside) else Inr ())"

definition validated :: "workflow \<Rightarrow> workflow_error + unit" where
  "validated w =
    (let xs = operations_of (ew_graph w); dupes = sort (repeated (map op_id xs)) in
     if dupes \<noteq> [] then Inl (SharedIds dupes)
     else rbind (deadlines_within xs ''the run'') (\<lambda>_.
       rfold (\<lambda>c _. rbind (bounded c) (\<lambda>_. armed_within c (set (map op_ref xs)))) (ew_cleanup w) ()))"

fun lower_cleanup :: "cleanup_plan list \<Rightarrow> planned_step list \<Rightarrow> (string, operation) dict \<Rightarrow> bound_sensor
    \<Rightarrow> deadline_rule list \<Rightarrow> operator_rule list \<Rightarrow> nat
    \<Rightarrow> workflow_error + (cleanup list \<times> omission list) \<times> nat" where
  "lower_cleanup [] steps operations facts deadlines rules next = Inr (([], []), next)"
| "lower_cleanup (plan # plans) steps operations facts deadlines rules next =
    rbind (compile_steps (cpl_steps plan) facts deadlines rules next) (\<lambda>((teardown, _, unbuilt), next').
    rbind (arming plan steps operations) (\<lambda>armed.
    rbind (lower_cleanup plans steps operations facts deadlines rules next') (\<lambda>((cs, oms), next'').
      Inr ((\<lparr>cl_graph = teardown, cl_when = cpl_when plan, cl_timeout = cpl_timeout plan,
             cl_origin = cpl_origin plan, cl_armed_by = armed\<rparr> # cs, unbuilt @ oms), next''))))"

definition lower :: "string \<Rightarrow> planned_step list \<Rightarrow> bound_sensor \<Rightarrow> cleanup_plan list \<Rightarrow> deadline_rule list
    \<Rightarrow> operator_rule list \<Rightarrow> nat \<Rightarrow> workflow_error + workflow \<times> nat" where
  "lower name steps facts plans deadlines rules next =
    rbind (compile_steps steps facts deadlines rules next) (\<lambda>((g, operations, omissions), next').
    rbind (lower_cleanup plans steps operations facts deadlines rules next') (\<lambda>((cs, refused), next'').
      let w = \<lparr>ew_name = name, ew_graph = g, ew_cleanup = cs, ew_omissions = omissions @ refused\<rparr>
      in rbind (validated w) (\<lambda>_. Inr (w, next''))))"

subsection \<open>What the checks establish\<close>

abbreviation step_dict :: "planned_step list \<Rightarrow> (string, planned_step) dict" where
  "step_dict steps \<equiv> map (\<lambda>s. (ps_name s, s)) steps"

definition paired :: "planned_step \<Rightarrow> bool" where
  "paired s \<longleftrightarrow> (ps_command s = None) = (ps_target s = None)"

lemma check_loop_ok:
  "check_loop ss d = Inr by_name \<longleftrightarrow> distinct (map ps_name ss) \<and> set (map ps_name ss) \<inter> set (dict_keys d) = {}
    \<and> (\<forall>s\<in>set ss. paired s) \<and> by_name = d @ step_dict ss"
proof (induction ss arbitrary: d)
  case (Cons s ss)
  show ?case
  proof (cases "ps_name s \<in> set (dict_keys d)")
    case False
    then have "dict_set (ps_name s) s d = d @ [(ps_name s, s)]" by (rule dict_set_fresh)
    then show ?thesis using False by (auto simp: Cons.IH paired_def)
  qed simp
qed auto

lemma checked_ok:
  "checked steps = Inr by_name \<longleftrightarrow> distinct (map ps_name steps) \<and> (\<forall>s\<in>set steps. paired s)
    \<and> (\<forall>s\<in>set steps. \<forall>d\<in>set (ps_deps s). dp_on d \<in> ps_name ` set steps) \<and> by_name = step_dict steps"
proof -
  have "dangling_names steps (dict_keys (step_dict steps)) = []
      \<longleftrightarrow> (\<forall>s\<in>set steps. \<forall>d\<in>set (ps_deps s). dp_on d \<in> ps_name ` set steps)"
    unfolding dangling_names_def sort_eq_Nil dedup_eq_Nil filter_empty_conv by (auto simp: comp_def)
  then show ?thesis
    unfolding checked_def rbind_Inr_iff check_loop_ok Let_def by (auto simp del: map_map)
qed

lemma map_of_step_dict:
  "distinct (map ps_name steps) \<Longrightarrow> map_of (step_dict steps) n = Some s \<longleftrightarrow> s \<in> set steps \<and> ps_name s = n"
  by (subst map_of_eq_Some_iff) (auto simp: comp_def)

text \<open>The steps that are omitted.\<close>

definition unsupported_by :: "bound_sensor \<Rightarrow> planned_step \<Rightarrow> bool" where
  "unsupported_by facts s \<longleftrightarrow> (case (ps_command s, ps_target s) of
     (Some c, Some p) \<Rightarrow> cmd_tag c \<notin> supported_commands facts (pl_device p) | _ \<Rightarrow> False)"

lemma fates_ok:
  "fates ss facts = Inr (omitted, oms) \<Longrightarrow> omitted = map ps_name (filter (unsupported_by facts) ss)
    \<and> map om_origin oms = map ps_origin (filter (unsupported_by facts) ss)
    \<and> (\<forall>s\<in>set ss. unsupported_by facts s \<longrightarrow> ps_unsupported s = Omit)"
proof (induction ss arbitrary: omitted oms)
  case (Cons s ss)
  show ?case
  proof (cases "unsupported_by facts s")
    case True
    then obtain c p where s: "ps_command s = Some c" "ps_target s = Some p"
        "cmd_tag c \<notin> supported_commands facts (pl_device p)"
      by (auto simp: unsupported_by_def split: option.splits)
    with Cons.prems have o1: "ps_unsupported s \<noteq> Refuse" by auto
    then have "ps_unsupported s = Omit" by (cases "ps_unsupported s") auto
    moreover obtain ns os where "fates ss facts = Inr (ns, os)" "omitted = ps_name s # ns"
        "map om_origin oms = ps_origin s # map om_origin os"
      using Cons.prems s o1 by (auto simp: rbind_Inr_iff)
    ultimately show ?thesis using Cons.IH True by simp
  next
    case False
    then have "fates ss facts = Inr (omitted, oms)"
      using Cons.prems by (auto simp: unsupported_by_def split: option.splits if_splits)
    then show ?thesis using Cons.IH False by simp
  qed
qed simp

subsection \<open>Dependencies through omitted steps\<close>

text \<open>
  \<open>inherits steps omitted a k b\<close>: from \<open>a\<close> there is a path of dependencies to the retained step
  \<open>b\<close> whose inner steps are all omitted; \<open>k\<close> is success when every link requires it.
\<close>

inductive inherits :: "planned_step list \<Rightarrow> string list \<Rightarrow> string \<Rightarrow> dep_kind \<Rightarrow> string \<Rightarrow> bool"
  for steps :: "planned_step list" and omitted :: "string list" where
  direct: "s \<in> set steps \<Longrightarrow> d \<in> set (ps_deps s) \<Longrightarrow> dp_on d \<notin> set omitted
    \<Longrightarrow> inherits steps omitted (ps_name s) (dp_kind d) (dp_on d)"
| through: "s \<in> set steps \<Longrightarrow> d \<in> set (ps_deps s) \<Longrightarrow> dp_on d \<in> set omitted
    \<Longrightarrow> inherits steps omitted (dp_on d) k b
    \<Longrightarrow> inherits steps omitted (ps_name s) (both_kinds (dp_kind d) k) b"

text \<open>What one dependency contributes.\<close>

definition links :: "planned_step list \<Rightarrow> string list \<Rightarrow> dependency \<Rightarrow> dep_kind \<Rightarrow> string \<Rightarrow> bool" where
  "links steps omitted d k b \<longleftrightarrow>
     (dp_on d \<notin> set omitted \<and> k = dp_kind d \<and> b = dp_on d)
   \<or> (dp_on d \<in> set omitted \<and> (\<exists>k'. inherits steps omitted (dp_on d) k' b \<and> k = both_kinds (dp_kind d) k'))"

lemma inherits_links:
  assumes "distinct (map ps_name steps)" and "s \<in> set steps"
  shows "inherits steps omitted (ps_name s) k b \<longleftrightarrow> (\<exists>d\<in>set (ps_deps s). links steps omitted d k b)"
proof
  assume "inherits steps omitted (ps_name s) k b"
  then show "\<exists>d\<in>set (ps_deps s). links steps omitted d k b"
  proof cases
    case (direct s' d)
    moreover have "s' = s" using assms direct by (metis eq_key_imp_eq_value distinct_map inj_onD)
    ultimately show ?thesis by (auto simp: links_def)
  next
    case (through s' d k')
    moreover have "s' = s" using assms through by (metis distinct_map inj_onD)
    ultimately show ?thesis by (auto simp: links_def)
  qed
next
  assume "\<exists>d\<in>set (ps_deps s). links steps omitted d k b"
  then show "inherits steps omitted (ps_name s) k b"
    using assms(2) by (auto simp: links_def intro: inherits.intros)
qed

text \<open>A list of dependencies that says what a relation says: the same predecessors, and success
  for the same ones.\<close>

abbreviation dep :: "string \<Rightarrow> dep_kind \<Rightarrow> dependency" where
  "dep n k \<equiv> \<lparr>dp_on = n, dp_kind = k\<rparr>"

definition covers :: "dependency list \<Rightarrow> (dep_kind \<Rightarrow> string \<Rightarrow> bool) \<Rightarrow> bool" where
  "covers ds P \<longleftrightarrow> (\<forall>b. (b \<in> set (map dp_on ds) \<longleftrightarrow> (\<exists>k. P k b)) \<and> (dep b Success \<in> set ds \<longleftrightarrow> P Success b))"

lemma covers_Nil: "(\<And>k b. \<not> P k b) \<Longrightarrow> covers [] P"
  by (simp add: covers_def)

lemma covers_append:
  assumes "covers ds P" and "covers es Q" and "\<And>k b. R k b \<longleftrightarrow> P k b \<or> Q k b"
  shows "covers (ds @ es) R"
  using assms unfolding covers_def by (simp add: ex_disj_distrib)

lemma covers_single: "covers [d] (\<lambda>k b. k = dp_kind d \<and> b = dp_on d)"
  by (cases d) (auto simp: covers_def)

lemma dep_in_inherit: "dep b Success \<in> set (inherit k ds) \<longleftrightarrow> k = Success \<and> dep b Success \<in> set ds"
proof -
  have "dep b Success = dep (dp_on d) (both_kinds k (dp_kind d)) \<longleftrightarrow> k = Success \<and> d = dep b Success" for d
    by (cases d) (auto simp: both_kinds_def split: if_splits)
  then have "dep b Success \<in> set (inherit k ds) \<longleftrightarrow> (\<exists>d\<in>set ds. k = Success \<and> d = dep b Success)"
    unfolding inherit_def set_map image_iff by simp
  then show ?thesis by blast
qed

lemma covers_inherit:
  assumes "covers ds P"
  shows "covers (inherit k ds) (\<lambda>l b. \<exists>k'. P k' b \<and> l = both_kinds k k')"
proof -
  have "map dp_on (inherit k ds) = map dp_on ds" by (simp add: inherit_def comp_def)
  moreover have "Success = both_kinds k k' \<longleftrightarrow> k = Success \<and> k' = Success" for k'
    by (auto simp: both_kinds_def)
  ultimately show ?thesis using assms unfolding covers_def dep_in_inherit by auto
qed

lemma merge_fold:
  defines "K \<equiv> \<lambda>ds kinds. fold merge_dep ds kinds"
  shows "fst ` set (K ds kinds) = fst ` set kinds \<union> dp_on ` set ds"
    and "map_of (K ds kinds) b = Some Success \<longleftrightarrow> map_of kinds b = Some Success \<or> dep b Success \<in> set ds"
    and "distinct (map fst kinds) \<Longrightarrow> distinct (map fst (K ds kinds))"
  unfolding K_def
proof (induction ds arbitrary: kinds)
  case (Cons d ds)
  have keys: "fst ` set (merge_dep d kinds) = insert (dp_on d) (fst ` set kinds)" for kinds
    using map_of_Some_key by (force simp: merge_dep_def)
  have look: "map_of (merge_dep d kinds) b = Some Success \<longleftrightarrow> map_of kinds b = Some Success \<or> d = dep b Success"
    for kinds
    by (cases d) (auto simp: merge_dep_def)
  have dist: "distinct (map fst kinds) \<Longrightarrow> distinct (map fst (merge_dep d kinds))" for kinds
    by (simp add: merge_dep_def distinct_update)
  { case 1 show ?case unfolding fold_simps Cons(1) keys by simp
  next case 2 show ?case unfolding fold_simps Cons(2) look by auto
  next case 3 then show ?case using Cons(3) dist by simp }
qed simp_all

lemma merged_distinct: "distinct (map dp_on (merged ds))"
  using merge_fold(3) [of "[]" ds] by (simp add: merged_def comp_def split_def)

lemma covers_merged: "covers ds P \<Longrightarrow> covers (merged ds) P"
proof -
  have "dp_on ` set (merged ds) = dp_on ` set ds"
    using merge_fold(1) [of ds "[]"] by (force simp: merged_def image_image split_def)
  moreover have "dep b Success \<in> set (merged ds) \<longleftrightarrow> dep b Success \<in> set ds" for b
  proof -
    have "dep b Success \<in> set (merged ds) \<longleftrightarrow> (b, Success) \<in> set (fold merge_dep ds [])"
      by (force simp: merged_def)
    also have "\<dots> \<longleftrightarrow> map_of (fold merge_dep ds []) b = Some Success"
      using map_of_eq_Some_iff [OF merge_fold(3) [of "[]" ds], of b Success] by simp
    finally show ?thesis using merge_fold(2) [of ds "[]" b] by simp
  qed
  ultimately show "covers ds P \<Longrightarrow> covers (merged ds) P" by (simp add: covers_def)
qed

text \<open>The memo holds what the relation says, for every name in it.\<close>

definition resolved_ok :: "planned_step list \<Rightarrow> string list \<Rightarrow> string \<Rightarrow> dependency list \<Rightarrow> bool" where
  "resolved_ok steps omitted n ds \<longleftrightarrow> covers ds (inherits steps omitted n) \<and> distinct (map dp_on ds)"

definition memo_ok :: "planned_step list \<Rightarrow> string list \<Rightarrow> resolutions \<Rightarrow> bool" where
  "memo_ok steps omitted resolved \<longleftrightarrow> (\<forall>n ds. map_of resolved n = Some ds \<longrightarrow> resolved_ok steps omitted n ds)"

lemma memo_ok_set:
  "memo_ok steps omitted resolved \<Longrightarrow> resolved_ok steps omitted n ds \<Longrightarrow> memo_ok steps omitted (dict_set n ds resolved)"
  by (simp add: memo_ok_def)

lemma covers_links_omitted:
  assumes "dp_on d \<in> set omitted" and "covers ds (inherits steps omitted (dp_on d))"
  shows "covers (inherit (dp_kind d) ds) (links steps omitted d)"
proof -
  have "links steps omitted d = (\<lambda>l b. \<exists>k'. inherits steps omitted (dp_on d) k' b \<and> l = both_kinds (dp_kind d) k')"
    using assms(1) by (auto simp: links_def fun_eq_iff)
  then show ?thesis using covers_inherit [OF assms(2)] by simp
qed

lemma covers_links_kept:
  assumes "dp_on d \<notin> set omitted"
  shows "covers [d] (links steps omitted d)"
proof -
  have "links steps omitted d = (\<lambda>k b. k = dp_kind d \<and> b = dp_on d)"
    using assms by (auto simp: links_def fun_eq_iff)
  then show ?thesis using covers_single by simp
qed

lemma resolve_gather:
  assumes dist: "distinct (map ps_name steps)"
  shows "resolve by_name omitted name resolved seen = Inr (ds, resolved') \<Longrightarrow> by_name = step_dict steps
      \<Longrightarrow> memo_ok steps omitted resolved
      \<Longrightarrow> memo_ok steps omitted resolved' \<and> resolved_ok steps omitted name ds
        \<and> set (dict_keys resolved') \<supseteq> insert name (set (dict_keys resolved))"
    and "gather by_name omitted deps here resolved seen = Inr (here', resolved') \<Longrightarrow> by_name = step_dict steps
      \<Longrightarrow> memo_ok steps omitted resolved
      \<Longrightarrow> memo_ok steps omitted resolved' \<and> set (dict_keys resolved') \<supseteq> set (dict_keys resolved)
        \<and> (\<exists>extra. here' = here @ extra \<and> covers extra (\<lambda>k b. \<exists>d\<in>set deps. links steps omitted d k b))"
proof (induction by_name omitted name resolved seen and by_name omitted deps here resolved seen
    arbitrary: ds resolved' and here' resolved' rule: resolve_gather.induct)
  case (1 by_name omitted name resolved seen)
  show ?case
  proof (cases "map_of resolved name")
    case (Some es)
    then have "ds = es" "resolved' = resolved" using 1(2) by (simp_all add: resolve.simps)
    moreover have "name \<in> set (dict_keys resolved)" by (rule map_of_Some_key [OF Some])
    moreover have "resolved_ok steps omitted name es" using 1(4) Some unfolding memo_ok_def by blast
    ultimately show ?thesis using 1(4) by blast
  next
    case None
    then have seen: "name \<notin> seen" using 1(2) by (auto simp: resolve.simps split: if_splits)
    then obtain s where s: "map_of by_name name = Some s"
      using 1(2) None by (auto simp: resolve.simps split: option.splits)
    with 1(2) None seen obtain here r where g: "gather by_name omitted (ps_deps s) [] resolved (insert name seen) = Inr (here, r)"
      and ds: "ds = merged here" and r': "resolved' = dict_set name (merged here) r"
      by (auto simp: resolve.simps rbind_Inr_iff)
    from 1(1) [OF None seen s g 1(3,4)] have IH: "memo_ok steps omitted r" "set (dict_keys r) \<supseteq> set (dict_keys resolved)"
      "covers here (\<lambda>k b. \<exists>d\<in>set (ps_deps s). links steps omitted d k b)" by auto
    have sm: "s \<in> set steps" "ps_name s = name" using s map_of_step_dict [OF dist] 1(3) by auto
    have "inherits steps omitted name = (\<lambda>k b. \<exists>d\<in>set (ps_deps s). links steps omitted d k b)"
      using inherits_links [OF dist sm(1)] sm(2) by (simp add: fun_eq_iff)
    then have ok: "resolved_ok steps omitted name ds"
      using covers_merged [OF IH(3)] merged_distinct by (simp add: resolved_ok_def ds)
    have "memo_ok steps omitted resolved'" unfolding r' by (rule memo_ok_set [OF IH(1) ok [unfolded ds]])
    moreover have "set (dict_keys resolved') = insert name (set (dict_keys r))" unfolding r' by (rule dict_keys_set)
    ultimately show ?thesis using ok IH(2) by blast
  qed
next
  case (2 by_name omitted here resolved seen)
  then show ?case by (auto intro: covers_Nil)
next
  case (3 by_name omitted d ds here resolved seen)
  have comb: "covers (es @ fs) (\<lambda>k b. \<exists>d\<in>set (d # ds). links steps omitted d k b)"
    if "covers es (links steps omitted d)" "covers fs (\<lambda>k b. \<exists>d\<in>set ds. links steps omitted d k b)" for es fs
    by (rule covers_append [OF that]) auto
  show ?case
  proof (cases "dp_on d \<in> set omitted")
    case True
    with 3(4) obtain inh r where res: "resolve by_name omitted (dp_on d) resolved seen = Inr (inh, r)"
      and g: "gather by_name omitted ds (here @ inherit (dp_kind d) inh) r seen = Inr (here', resolved')"
      by (auto simp: rbind_Inr_iff)
    from 3(1) [OF True res 3(5,6)] have R: "memo_ok steps omitted r" "resolved_ok steps omitted (dp_on d) inh"
      "set (dict_keys r) \<supseteq> set (dict_keys resolved)" by auto
    from 3(2) [OF True g 3(5) R(1)] obtain extra where G: "memo_ok steps omitted resolved'"
      "set (dict_keys resolved') \<supseteq> set (dict_keys r)" "here' = (here @ inherit (dp_kind d) inh) @ extra"
      "covers extra (\<lambda>k b. \<exists>d\<in>set ds. links steps omitted d k b)" by blast
    have "covers (inherit (dp_kind d) inh) (links steps omitted d)"
      using covers_links_omitted [OF True] R(2) by (simp add: resolved_ok_def)
    from comb [OF this G(4)] show ?thesis using G R(3) by auto
  next
    case False
    with 3(4) have g: "gather by_name omitted ds (here @ [d]) resolved seen = Inr (here', resolved')" by simp
    from 3(3) [OF False g 3(5,6)] obtain extra where G: "memo_ok steps omitted resolved'"
      "set (dict_keys resolved') \<supseteq> set (dict_keys resolved)" "here' = (here @ [d]) @ extra"
      "covers extra (\<lambda>k b. \<exists>d\<in>set ds. links steps omitted d k b)" by blast
    from comb [OF covers_links_kept [OF False] G(4)] show ?thesis using G by auto
  qed
qed

lemma resolve_all_ok:
  assumes "distinct (map ps_name steps)"
  shows "resolve_all (step_dict steps) omitted ns resolved = Inr resolved' \<Longrightarrow> memo_ok steps omitted resolved
    \<Longrightarrow> memo_ok steps omitted resolved' \<and> set ns \<union> set (dict_keys resolved) \<subseteq> set (dict_keys resolved')"
proof (induction ns arbitrary: resolved)
  case (Cons n ns)
  then obtain ds r where r: "resolve (step_dict steps) omitted n resolved {} = Inr (ds, r)"
    and rest: "resolve_all (step_dict steps) omitted ns r = Inr resolved'" by (auto simp: rbind_Inr_iff)
  from resolve_gather(1) [OF assms r refl Cons.prems(2)]
  have r': "memo_ok steps omitted r" "insert n (set (dict_keys resolved)) \<subseteq> set (dict_keys r)" by blast+
  have "set (n # ns) \<union> set (dict_keys resolved) = set ns \<union> insert n (set (dict_keys resolved))"
    by (simp del: set_map)
  with Cons.IH [OF rest r'(1)] r'(2) show ?case by blast
qed simp

text \<open>Omitted predecessors, followed from step to step.\<close>

definition omitted_links :: "planned_step list \<Rightarrow> string list \<Rightarrow> (string \<times> string) set" where
  "omitted_links steps omitted =
    {(ps_name s, dp_on d) | s d. s \<in> set steps \<and> d \<in> set (ps_deps s) \<and> dp_on d \<in> set omitted}"

lemma resolve_error:
  fixes steps :: "planned_step list" and omitted :: "string list"
  assumes dist: "distinct (map ps_name steps)"
    and deps: "\<forall>s\<in>set steps. \<forall>d\<in>set (ps_deps s). dp_on d \<in> ps_name ` set steps"
  defines "L \<equiv> omitted_links steps omitted"
  shows "resolve by_name om name resolved seen = Inl e \<Longrightarrow> by_name = step_dict steps \<Longrightarrow> om = omitted
      \<Longrightarrow> name \<in> ps_name ` set steps \<Longrightarrow> \<forall>s\<in>seen. (s, name) \<in> L\<^sup>+
      \<Longrightarrow> \<exists>n. e = OmittedCycle n \<and> (n, n) \<in> L\<^sup>+"
    and "gather by_name om deps' here resolved seen = Inl e \<Longrightarrow> by_name = step_dict steps \<Longrightarrow> om = omitted
      \<Longrightarrow> \<forall>d\<in>set deps'. dp_on d \<in> ps_name ` set steps
      \<Longrightarrow> \<forall>s\<in>seen. \<forall>d\<in>set deps'. dp_on d \<in> set omitted \<longrightarrow> (s, dp_on d) \<in> L\<^sup>+
      \<Longrightarrow> \<exists>n. e = OmittedCycle n \<and> (n, n) \<in> L\<^sup>+"
proof (induction by_name om name resolved seen and by_name om deps' here resolved seen
    rule: resolve_gather.induct)
  case (1 by_name om name resolved seen)
  have None: "map_of resolved name = None" using 1(2) by (auto simp: resolve.simps split: option.splits)
  show ?case
  proof (cases "name \<in> seen")
    case True
    then have "e = OmittedCycle name" using 1(2) None by (simp add: resolve.simps)
    then show ?thesis using 1(6) True by blast
  next
    case False
    from 1(5) obtain s where sm: "s \<in> set steps" "ps_name s = name" by auto
    then have s: "map_of by_name name = Some s" using map_of_step_dict [OF dist] 1(3) by auto
    have g: "gather by_name om (ps_deps s) [] resolved (insert name seen) = Inl e"
      using 1(2) None False s by (auto simp: resolve.simps rbind_Inl_iff)
    have "(t, dp_on d) \<in> L\<^sup>+" if "t \<in> insert name seen" "d \<in> set (ps_deps s)" "dp_on d \<in> set omitted" for t d
    proof -
      have "(name, dp_on d) \<in> L" using sm that(2,3) by (auto simp: L_def omitted_links_def)
      then show ?thesis using 1(6) that(1) by (auto intro: trancl.intros)
    qed
    then show ?thesis using 1(1) [OF None False s g 1(3,4)] deps sm(1) by blast
  qed
next
  case (3 by_name om d ds here resolved seen)
  show ?case
  proof (cases "dp_on d \<in> set om")
    case True
    show ?thesis
    proof (cases "resolve by_name om (dp_on d) resolved seen")
      case (Inl e')
      then have "e' = e" using 3(4) True by simp
      then show ?thesis using 3(1) [OF True, of] Inl 3(5-8) True by auto
    next
      case (Inr r)
      obtain inh r' where r: "r = (inh, r')" by fastforce
      have "gather by_name om ds (here @ inherit (dp_kind d) inh) r' seen = Inl e"
        using 3(4) True Inr r by simp
      from 3(2) [OF True this 3(5,6)] 3(7,8) show ?thesis by simp
    qed
  next
    case False
    then show ?thesis using 3(3) [OF False _ 3(5,6)] 3(4,7,8) by simp
  qed
qed simp_all

lemma resolve_all_error:
  assumes "distinct (map ps_name steps)"
    and "\<forall>s\<in>set steps. \<forall>d\<in>set (ps_deps s). dp_on d \<in> ps_name ` set steps"
  shows "resolve_all (step_dict steps) omitted ns resolved = Inl e \<Longrightarrow> set ns \<subseteq> ps_name ` set steps
    \<Longrightarrow> \<exists>n. e = OmittedCycle n \<and> (n, n) \<in> (omitted_links steps omitted)\<^sup>+"
proof (induction ns arbitrary: resolved)
  case (Cons n ns)
  show ?case
  proof (cases "resolve (step_dict steps) omitted n resolved {}")
    case (Inl e')
    then show ?thesis using resolve_error(1) [OF assms Inl refl refl] Cons.prems by simp
  next
    case (Inr r)
    then show ?thesis using Cons by (cases r) simp
  qed
qed simp

subsection \<open>Nodes and edges\<close>

text \<open>The node a retained step becomes.\<close>

definition carries :: "bound_sensor \<Rightarrow> deadline_rule list \<Rightarrow> planned_step \<Rightarrow> operation option \<Rightarrow> bool" where
  "carries facts deadlines s payload \<longleftrightarrow>
    (case (ps_command s, ps_target s) of
       (Some c, Some p) \<Rightarrow> \<exists>x. payload = Some x \<and> op_target x = p \<and> op_command x = c
          \<and> op_origin x = ps_origin s \<and> op_acquisition x = ps_acquisition s
          \<and> resolve_deadline (cmd_tag c) p deadlines (ps_timeout s) facts = Inr (op_timeout x)
     | _ \<Rightarrow> payload = None)"

definition node_for :: "bound_sensor \<Rightarrow> deadline_rule list \<Rightarrow> operator_rule list \<Rightarrow> planned_step
    \<Rightarrow> operation option node \<Rightarrow> bool" where
  "node_for facts deadlines rules s n \<longleftrightarrow>
     n_label n = step_label s \<and> n_group n = ps_group s \<and> n_delay_s n = ps_delay_s s
   \<and> effects s rules facts = Inr (n_on_failure n, n_optional n, n_override n)
   \<and> carries facts deadlines s (n_payload n)"

definition named_payloads :: "planned_step list \<Rightarrow> operation option node list \<Rightarrow> (string \<times> operation) list" where
  "named_payloads ss ns = List.map_filter (\<lambda>(s, n). map_option (Pair (ps_name s)) (n_payload n)) (zip ss ns)"

definition compiling_ok :: "bound_sensor \<Rightarrow> deadline_rule list \<Rightarrow> operator_rule list \<Rightarrow> nat
    \<Rightarrow> planned_step list \<Rightarrow> compiling \<Rightarrow> bool" where
  "compiling_ok facts deadlines rules next0 ss cp \<longleftrightarrow>
     wf_builder (cp_builder cp)
   \<and> list_all2 (node_for facts deadlines rules) ss (b_nodes (cp_builder cp))
   \<and> b_soft (cp_builder cp) = replicate (length ss) {} \<and> b_hard (cp_builder cp) = replicate (length ss) {}
   \<and> cp_nodes cp = zip (map ps_name ss) [0..<length ss]
   \<and> cp_operations cp = named_payloads ss (b_nodes (cp_builder cp))
   \<and> map (op_ref \<circ> snd) (cp_operations cp) = [next0..<cp_next cp] \<and> next0 \<le> cp_next cp"

lemma payload_of_ok:
  assumes "payload_of s deadlines facts nxt = Inr (payload, nxt')"
  shows "carries facts deadlines s payload
    \<and> (case payload of None \<Rightarrow> nxt' = nxt | Some x \<Rightarrow> op_ref x = nxt \<and> nxt' = Suc nxt)"
  using assms
  by (cases "ps_command s"; cases "ps_target s")
    (auto simp: payload_of_def carries_def rbind_Inr_iff operation_planned_def)

lemma named_payloads_snoc:
  "length ss = length ns \<Longrightarrow> named_payloads (ss @ [s]) (ns @ [n]) = named_payloads ss ns
    @ (case n_payload n of None \<Rightarrow> [] | Some x \<Rightarrow> [(ps_name s, x)])"
  by (simp add: named_payloads_def map_filter_def split: option.split)

lemma named_payloads_keys: "set (dict_keys (named_payloads ss ns)) \<subseteq> ps_name ` set ss"
  by (auto simp: named_payloads_def map_filter_def dest: set_zip_leftD)

lemma add_step_ok:
  assumes inv: "compiling_ok facts deadlines rules next0 ss cp"
    and add: "add_step facts deadlines rules omitted s cp = Inr cp'"
    and kept: "ps_name s \<notin> set omitted" and fresh: "ps_name s \<notin> ps_name ` set ss"
  shows "compiling_ok facts deadlines rules next0 (ss @ [s]) cp'"
proof -
  let ?b = "cp_builder cp"
  have len: "length (b_nodes ?b) = length ss"
    using inv by (auto simp: compiling_ok_def dest: list_all2_lengthD)
  from add kept obtain payload nxt onf opt ov where pay: "payload_of s deadlines facts (cp_next cp) = Inr (payload, nxt)"
    and eff: "effects s rules facts = Inr (onf, opt, ov)"
    and cp': "cp' = enter_node s payload (onf, opt, ov) nxt cp"
    by (auto simp: add_step_def rbind_Inr_iff)
  obtain i b where ib: "builder_add (step_label s) (ps_group s) payload {} {} onf opt (ps_delay_s s) ov ?b = (i, b)"
    by fastforce
  let ?n = "\<lparr>nid = length ss, n_label = step_label s, n_group = ps_group s, n_payload = payload,
    n_on_failure = onf, n_optional = opt, n_delay_s = ps_delay_s s, n_override = ov\<rparr>"
  have b: "i = length ss" "b_nodes b = b_nodes ?b @ [?n]" "b_soft b = b_soft ?b @ [{}]" "b_hard b = b_hard ?b @ [{}]"
    using ib len by (auto simp: builder_add_def Let_def)
  have wf: "wf_builder b" using wf_builder_add [OF _ ib] inv by (simp add: compiling_ok_def)
  note P = payload_of_ok [OF pay]
  have node: "node_for facts deadlines rules s ?n" using P eff by (simp add: node_for_def)
  have "set (dict_keys (cp_nodes cp)) \<subseteq> ps_name ` set ss"
    using inv by (auto simp: compiling_ok_def dest: set_zip_leftD)
  moreover have "set (dict_keys (cp_operations cp)) \<subseteq> ps_name ` set ss"
    using inv named_payloads_keys unfolding compiling_ok_def by metis
  ultimately have "ps_name s \<notin> set (dict_keys (cp_nodes cp))" "ps_name s \<notin> set (dict_keys (cp_operations cp))"
    using fresh by blast+
  note sets = this [THEN dict_set_fresh]
  have nodes: "cp_nodes cp' = zip (map ps_name (ss @ [s])) [0..<length (ss @ [s])]"
  proof -
    have "cp_nodes cp' = cp_nodes cp @ [(ps_name s, length ss)]"
      by (simp add: cp' enter_node_def ib b(1) sets(1))
    moreover have "cp_nodes cp = zip (map ps_name ss) [0..<length ss]"
      using inv unfolding compiling_ok_def by blast
    ultimately show ?thesis by simp
  qed
  have ops': "cp_operations cp' = cp_operations cp @ (case payload of None \<Rightarrow> [] | Some x \<Rightarrow> [(ps_name s, x)])"
    and nxt': "cp_next cp' = nxt"
    by (simp_all add: cp' enter_node_def ib sets(2) split: option.split)
  have ops: "cp_operations cp' = named_payloads (ss @ [s]) (b_nodes b)"
  proof -
    note ops'
    moreover have "cp_operations cp = named_payloads ss (b_nodes ?b)"
      using inv unfolding compiling_ok_def by blast
    ultimately show ?thesis
      unfolding b(2) using named_payloads_snoc [of ss "b_nodes ?b" s ?n] len by simp
  qed
  have old: "map (op_ref \<circ> snd) (cp_operations cp) = [next0..<cp_next cp] \<and> next0 \<le> cp_next cp"
    using inv unfolding compiling_ok_def by blast
  have refs: "map (op_ref \<circ> snd) (cp_operations cp') = [next0..<cp_next cp'] \<and> next0 \<le> cp_next cp'"
    using old P unfolding ops' nxt' by (cases payload) simp_all
  have "cp_builder cp' = b" by (simp add: cp' enter_node_def ib)
  then show ?thesis
    using inv b wf node nodes ops refs
    by (simp add: compiling_ok_def list_all2_appendI replicate_append_same [symmetric])
qed

lemma add_steps_ok:
  "rfold (add_step facts deadlines rules omitted) ss cp = Inr cp' \<Longrightarrow> compiling_ok facts deadlines rules next0 done cp
    \<Longrightarrow> distinct (map ps_name (done @ filter (\<lambda>s. ps_name s \<notin> set omitted) ss))
    \<Longrightarrow> compiling_ok facts deadlines rules next0 (done @ filter (\<lambda>s. ps_name s \<notin> set omitted) ss) cp'"
proof (induction ss arbitrary: cp "done")
  case (Cons s ss)
  then obtain cp1 where step: "add_step facts deadlines rules omitted s cp = Inr cp1"
    and rest: "rfold (add_step facts deadlines rules omitted) ss cp1 = Inr cp'" by (auto simp: rbind_Inr_iff)
  show ?case
  proof (cases "ps_name s \<in> set omitted")
    case True
    then show ?thesis using Cons step rest by (simp add: add_step_def)
  next
    case False
    have "compiling_ok facts deadlines rules next0 (done @ [s]) cp1"
      by (rule add_step_ok [OF Cons.prems(2) step False]) (use Cons.prems(3) False in auto)
    from Cons.IH [OF rest this] Cons.prems(3) False show ?thesis by simp
  qed
qed simp

text \<open>The ids a step's dependencies of one kind name.\<close>

definition dep_ids :: "resolutions \<Rightarrow> (string, nat) dict \<Rightarrow> dep_kind \<Rightarrow> string \<Rightarrow> nat set" where
  "dep_ids resolved nodes k n =
    {j. \<exists>ds d. map_of resolved n = Some ds \<and> d \<in> set ds \<and> dp_kind d = k \<and> map_of nodes (dp_on d) = Some j}"

lemma id_of_traverse:
  assumes "rtraverse (\<lambda>d. id_of nodes (dp_on d)) ds = Inr js"
  shows "set js = {j. \<exists>d\<in>set ds. map_of nodes (dp_on d) = Some j}"
proof -
  have "list_all2 (\<lambda>d j. map_of nodes (dp_on d) = Some j) ds js"
    using assms unfolding rtraverse_Inr_iff
    by (rule list_all2_mono) (auto simp: id_of_def split: option.splits)
  then show ?thesis
    by (induction rule: list_all2_induct) auto
qed

lemma graph_result_Inr: "graph_result r = Inr a \<longleftrightarrow> r = Inr a"
  by (cases r) (simp_all add: graph_result_def)

lemma add_edges_ok:
  assumes "add_edges resolved nodes (n, i) b = Inr b'"
  shows "b_nodes b' = b_nodes b \<and> b_hard b' = (b_hard b)[i := b_hard b ! i \<union> dep_ids resolved nodes Success n]
    \<and> b_soft b' = (b_soft b)[i := b_soft b ! i \<union> dep_ids resolved nodes Completion n]
    \<and> (wf_builder b \<longrightarrow> wf_builder b') \<and> (\<exists>ds. map_of resolved n = Some ds)"
proof -
  from assms obtain ds hard soft b1 where ds: "map_of resolved n = Some ds"
    and hard: "rtraverse (\<lambda>d. id_of nodes (dp_on d)) (filter (\<lambda>d. dp_kind d = Success) ds) = Inr hard"
    and b1: "builder_require i (set hard) b = Inr b1"
    and soft: "rtraverse (\<lambda>d. id_of nodes (dp_on d)) (filter (\<lambda>d. dp_kind d = Completion) ds) = Inr soft"
    and b': "builder_order i (set soft) b1 = Inr b'"
    by (auto simp: add_edges_def rbind_Inr_iff graph_result_Inr split: option.splits)
  have "set hard = dep_ids resolved nodes Success n" "set soft = dep_ids resolved nodes Completion n"
    using id_of_traverse [OF hard] id_of_traverse [OF soft] ds by (auto simp: dep_ids_def)
  then show ?thesis
    using b1 b' ds wf_builder_require [OF _ b1] wf_builder_order [OF _ b']
    by (auto simp: builder_require_def builder_order_def split: if_splits)
qed

lemma add_all_edges_ok:
  "rfold (add_edges resolved nodes) nis b = Inr b' \<Longrightarrow> distinct (map snd nis)
    \<Longrightarrow> b_nodes b' = b_nodes b \<and> (wf_builder b \<longrightarrow> wf_builder b')
      \<and> (\<forall>(n, i)\<in>set nis. i < length (b_hard b) \<longrightarrow> b_hard b' ! i = b_hard b ! i \<union> dep_ids resolved nodes Success n)
      \<and> (\<forall>(n, i)\<in>set nis. i < length (b_soft b) \<longrightarrow> b_soft b' ! i = b_soft b ! i \<union> dep_ids resolved nodes Completion n)
      \<and> (\<forall>i. i \<notin> snd ` set nis \<longrightarrow> b_hard b' ! i = b_hard b ! i \<and> b_soft b' ! i = b_soft b ! i)
      \<and> length (b_hard b') = length (b_hard b) \<and> length (b_soft b') = length (b_soft b)
      \<and> (\<forall>(n, i)\<in>set nis. \<exists>ds. map_of resolved n = Some ds)"
proof (induction nis arbitrary: b)
  case (Cons ni nis)
  obtain n i where ni: "ni = (n, i)" by fastforce
  from Cons.prems obtain b1 where b1: "add_edges resolved nodes (n, i) b = Inr b1"
    and rest: "rfold (add_edges resolved nodes) nis b1 = Inr b'" by (auto simp: rbind_Inr_iff ni)
  note E = add_edges_ok [OF b1]
  have fresh: "i \<notin> snd ` set nis" "distinct (map snd nis)" using Cons.prems(2) by (simp_all add: ni)
  note IH = Cons.IH [OF rest fresh(2)]
  have other: "j \<noteq> i" if "(m, j) \<in> set nis" for m j using fresh(1) that by force
  have E': "b_nodes b1 = b_nodes b" "wf_builder b \<longrightarrow> wf_builder b1"
    "length (b_hard b1) = length (b_hard b)" "length (b_soft b1) = length (b_soft b)"
    "i < length (b_hard b) \<Longrightarrow> b_hard b1 ! i = b_hard b ! i \<union> dep_ids resolved nodes Success n"
    "i < length (b_soft b) \<Longrightarrow> b_soft b1 ! i = b_soft b ! i \<union> dep_ids resolved nodes Completion n"
    "j \<noteq> i \<Longrightarrow> b_hard b1 ! j = b_hard b ! j \<and> b_soft b1 ! j = b_soft b ! j"
    "\<exists>ds. map_of resolved n = Some ds" for j
    using E by auto
  have I: "b_hard b' ! i = b_hard b1 ! i" "b_soft b' ! i = b_soft b1 ! i" using IH fresh(1) by auto
  show ?case unfolding ni
  proof (intro conjI)
    show "b_nodes b' = b_nodes b" "wf_builder b \<longrightarrow> wf_builder b'" using IH E' by auto
    show "\<forall>(m, j)\<in>set ((n, i) # nis). j < length (b_hard b)
        \<longrightarrow> b_hard b' ! j = b_hard b ! j \<union> dep_ids resolved nodes Success m"
      using IH E'(3,5,7) I(1) other by fastforce
    show "\<forall>(m, j)\<in>set ((n, i) # nis). j < length (b_soft b)
        \<longrightarrow> b_soft b' ! j = b_soft b ! j \<union> dep_ids resolved nodes Completion m"
      using IH E'(4,6,7) I(2) other by fastforce
    show "\<forall>j. j \<notin> snd ` set ((n, i) # nis) \<longrightarrow> b_hard b' ! j = b_hard b ! j \<and> b_soft b' ! j = b_soft b ! j"
      using IH E'(7) by auto
    show "length (b_hard b') = length (b_hard b)" "length (b_soft b') = length (b_soft b)" using IH E' by auto
    show "\<forall>(m, j)\<in>set ((n, i) # nis). \<exists>ds. map_of resolved m = Some ds" using IH E'(8) by auto
  qed
qed simp

subsection \<open>What compilation produces\<close>

definition omitted_names :: "bound_sensor \<Rightarrow> planned_step list \<Rightarrow> string list" where
  "omitted_names facts steps = map ps_name (filter (unsupported_by facts) steps)"

definition kept_steps :: "bound_sensor \<Rightarrow> planned_step list \<Rightarrow> planned_step list" where
  "kept_steps facts steps = filter (\<lambda>s. \<not> unsupported_by facts s) steps"

lemma kept_filter:
  "distinct (map ps_name steps) \<Longrightarrow>
    filter (\<lambda>s. ps_name s \<notin> set (omitted_names facts steps)) steps = kept_steps facts steps"
  unfolding kept_steps_def omitted_names_def
  by (rule filter_cong) (auto simp: distinct_map dest: inj_onD)

lemma distinct_kept: "distinct (map ps_name steps) \<Longrightarrow> distinct (map ps_name (kept_steps facts steps))"
  unfolding kept_steps_def by (rule distinct_map_filter)

lemma zip_names_lookup:
  assumes "distinct (map ps_name ss)" and "j < length ss"
  shows "map_of (zip (map ps_name ss) [0..<length ss]) n = Some j \<longleftrightarrow> n = ps_name (ss ! j)"
proof -
  have d: "distinct (map fst (zip (map ps_name ss) [0..<length ss]))" using assms(1) by simp
  have "(n, j) \<in> set (zip (map ps_name ss) [0..<length ss]) \<longleftrightarrow> n = ps_name (ss ! j)"
    using assms(2) by (auto simp: set_zip intro!: exI [of _ j])
  then show ?thesis using map_of_eq_Some_iff [OF d, of n j] by simp
qed

lemma compile_ok:
  assumes "compile_steps steps facts deadlines rules next0 = Inr ((g, operations, omissions), next1)"
  shows "distinct (map ps_name steps)" and "\<forall>s\<in>set steps. paired s"
    and "wf_graph g" and "\<exists>order. topo_order g = Inr order"
    and "list_all2 (node_for facts deadlines rules) (kept_steps facts steps) (g_nodes g)"
    and "operations = named_payloads (kept_steps facts steps) (g_nodes g)"
    and "map (op_ref \<circ> snd) operations = [next0..<next1]"
    and "map om_origin omissions = map ps_origin (filter (unsupported_by facts) steps)"
    and "\<forall>s\<in>set steps. unsupported_by facts s \<longrightarrow> ps_unsupported s = Omit"
    and "\<forall>i<length (kept_steps facts steps). \<forall>j<length (kept_steps facts steps).
        (j \<in> deps_of g i \<longleftrightarrow> (\<exists>k. inherits steps (omitted_names facts steps)
            (ps_name (kept_steps facts steps ! i)) k (ps_name (kept_steps facts steps ! j))))
      \<and> (j \<in> hard_of g i \<longleftrightarrow> inherits steps (omitted_names facts steps)
            (ps_name (kept_steps facts steps ! i)) Success (ps_name (kept_steps facts steps ! j)))"
    and "built_graph g" and "next0 \<le> next1"
proof -
  let ?om = "omitted_names facts steps" and ?kept = "kept_steps facts steps"
  from assms obtain by_name omitted resolved cp b where ch: "checked steps = Inr by_name"
    and fa: "fates steps facts = Inr (omitted, omissions)"
    and re: "resolve_all by_name omitted (dict_keys by_name) [] = Inr resolved"
    and cp: "rfold (add_step facts deadlines rules omitted) steps
        \<lparr>cp_builder = empty_builder, cp_nodes = [], cp_operations = [], cp_next = next0\<rparr> = Inr cp"
    and b: "rfold (add_edges resolved (cp_nodes cp)) (cp_nodes cp) (cp_builder cp) = Inr b"
    and g: "build b = Inr g" and ops: "operations = cp_operations cp" "next1 = cp_next cp"
    by (auto simp: compile_steps_def rbind_Inr_iff graph_result_Inr)
  show dist: "distinct (map ps_name steps)" and "\<forall>s\<in>set steps. paired s"
    using ch unfolding checked_ok by blast+
  have by_name: "by_name = step_dict steps" using ch unfolding checked_ok by blast
  note F = fates_ok [OF fa]
  have om: "omitted = ?om" using F by (simp add: omitted_names_def)
  show "map om_origin omissions = map ps_origin (filter (unsupported_by facts) steps)"
    and "\<forall>s\<in>set steps. unsupported_by facts s \<longrightarrow> ps_unsupported s = Omit" using F by blast+
  have start: "compiling_ok facts deadlines rules next0 []
      \<lparr>cp_builder = empty_builder, cp_nodes = [], cp_operations = [], cp_next = next0\<rparr>"
    by (simp add: compiling_ok_def named_payloads_def map_filter_def) (simp add: empty_builder_def)
  have kept: "[] @ filter (\<lambda>s. ps_name s \<notin> set omitted) steps = ?kept"
    using kept_filter [OF dist] om by simp
  have C: "compiling_ok facts deadlines rules next0 ?kept cp"
    using add_steps_ok [OF cp start] distinct_kept [OF dist] unfolding kept by blast
  have nodes: "cp_nodes cp = zip (map ps_name ?kept) [0..<length ?kept]" using C unfolding compiling_ok_def by blast
  have dn: "distinct (map snd (cp_nodes cp))" unfolding nodes by simp
  note E = add_all_edges_ok [OF b dn]
  have wfb: "wf_builder b" using E C unfolding compiling_ok_def by blast
  note G = build_wf [OF wfb g]
  show "wf_graph g" and "\<exists>order. topo_order g = Inr order" by (rule G)+
  show "built_graph g" using wfb g unfolding built_graph_def by blast
  show "next0 \<le> next1" using C ops(2) unfolding compiling_ok_def by blast
  have gn: "g_nodes g = b_nodes (cp_builder cp)" using E by (simp add: G(1) frozen_def)
  show "list_all2 (node_for facts deadlines rules) ?kept (g_nodes g)"
    using C unfolding gn compiling_ok_def by blast
  then have len: "length (b_nodes b) = length ?kept" using E gn by (auto dest: list_all2_lengthD)
  show "operations = named_payloads ?kept (g_nodes g)" and "map (op_ref \<circ> snd) operations = [next0..<next1]"
    using C unfolding gn ops compiling_ok_def by blast+
  have memo: "memo_ok steps ?om resolved"
    using resolve_all_ok [OF dist re [unfolded by_name]] om by (simp add: memo_ok_def)
  show "\<forall>i<length ?kept. \<forall>j<length ?kept.
        (j \<in> deps_of g i \<longleftrightarrow> (\<exists>k. inherits steps ?om (ps_name (?kept ! i)) k (ps_name (?kept ! j))))
      \<and> (j \<in> hard_of g i \<longleftrightarrow> inherits steps ?om (ps_name (?kept ! i)) Success (ps_name (?kept ! j)))"
  proof (intro allI impI)
    fix i j assume i: "i < length ?kept" and j: "j < length ?kept"
    let ?n = "ps_name (?kept ! i)" and ?m = "ps_name (?kept ! j)"
    have ni: "(?n, i) \<in> set (cp_nodes cp)" using i unfolding nodes by (auto simp: set_zip intro!: exI [of _ i])
    then obtain ds where ds: "map_of resolved ?n = Some ds" using E by blast
    have cov: "covers ds (inherits steps ?om ?n)" using memo ds unfolding memo_ok_def resolved_ok_def by blast
    have "b_hard (cp_builder cp) ! i = {}" "b_soft (cp_builder cp) ! i = {}"
      "i < length (b_hard (cp_builder cp))" "i < length (b_soft (cp_builder cp))"
      using C i by (simp_all add: compiling_ok_def)
    then have hs: "b_hard b ! i = dep_ids resolved (cp_nodes cp) Success ?n"
      "b_soft b ! i = dep_ids resolved (cp_nodes cp) Completion ?n"
      using E ni by fastforce+
    have at: "j \<in> dep_ids resolved (cp_nodes cp) k ?n \<longleftrightarrow> dep ?m k \<in> set ds" for k
    proof -
      have "j \<in> dep_ids resolved (cp_nodes cp) k ?n \<longleftrightarrow> (\<exists>d. d \<in> set ds \<and> dp_kind d = k \<and> dp_on d = ?m)"
        unfolding dep_ids_def nodes by (simp add: ds zip_names_lookup [OF distinct_kept [OF dist] j])
      moreover have "dp_kind d = k \<and> dp_on d = ?m \<longleftrightarrow> d = dep ?m k" for d by (cases d) auto
      ultimately show ?thesis by simp
    qed
    have some: "?m \<in> set (map dp_on ds) \<longleftrightarrow> dep ?m Success \<in> set ds \<or> dep ?m Completion \<in> set ds"
    proof
      assume "?m \<in> set (map dp_on ds)"
      then obtain d where d: "d \<in> set ds" "dp_on d = ?m" by auto
      have eq: "dep ?m (dp_kind d) = d" using d(2) by (intro dependency.equality) simp_all
      have "dep ?m (dp_kind d) \<in> set ds" unfolding eq by (rule d(1))
      then show "dep ?m Success \<in> set ds \<or> dep ?m Completion \<in> set ds"
        by (cases "dp_kind d") simp_all
    qed force+
    have "deps_of g i = b_soft b ! i \<union> b_hard b ! i" "hard_of g i = b_hard b ! i"
      using i len unfolding G(1) frozen_deps frozen_hard by simp_all
    then have edges: "j \<in> deps_of g i \<longleftrightarrow> dep ?m Completion \<in> set ds \<or> dep ?m Success \<in> set ds"
      "j \<in> hard_of g i \<longleftrightarrow> dep ?m Success \<in> set ds"
      unfolding hs by (simp_all only: Un_iff at)
    have c: "(?m \<in> set (map dp_on ds) \<longleftrightarrow> (\<exists>k. inherits steps ?om ?n k ?m))
        \<and> (dep ?m Success \<in> set ds \<longleftrightarrow> inherits steps ?om ?n Success ?m)"
      using cov unfolding covers_def by (rule spec)
    show "(j \<in> deps_of g i \<longleftrightarrow> (\<exists>k. inherits steps ?om ?n k ?m))
      \<and> (j \<in> hard_of g i \<longleftrightarrow> inherits steps ?om ?n Success ?m)"
      unfolding edges conjunct1 [OF c, symmetric] conjunct2 [OF c, symmetric] using some by (simp only: disj_commute)
  qed
qed

subsection \<open>Errors\<close>

text \<open>Lookups that the code leaves unguarded.\<close>

fun internal :: "workflow_error \<Rightarrow> bool" where
  "internal (MissingKey n) = True"
| "internal (NoCommand n) = True"
| "internal (ForeignTriggers s xs) = True"
| "internal (OmittedCycle n) = True"
| "internal _ = False"

text \<open>What the checks of the steps report, and the arming of a cleanup on steps that do not exist.\<close>

fun step_fault :: "workflow_error \<Rightarrow> bool" where
  "step_fault (DuplicateStep n) = True"
| "step_fault (Unpaired n b) = True"
| "step_fault (Dangling ns) = True"
| "step_fault (UnknownTriggers s ns) = True"
| "step_fault _ = False"

abbreviation ordinary :: "workflow_error \<Rightarrow> bool" where
  "ordinary e \<equiv> \<not> internal e \<and> \<not> step_fault e"

lemma check_loop_error: "check_loop ss d = Inl e \<Longrightarrow> \<not> internal e"
  by (induction ss arbitrary: d) (auto split: if_splits)

lemma fates_error: "fates ss facts = Inl e \<Longrightarrow> ordinary e"
  by (induction ss) (auto simp: rbind_Inl_iff split: option.splits if_splits)

lemma first_rung_error: "first_rung rs c p traits = Inl e \<Longrightarrow> ordinary e"
  by (induction rs) (auto simp: rbind_Inl_iff the_rule_def Let_def split: if_splits list.splits)

lemma resolve_deadline_error:
  assumes "resolve_deadline c p stated explicit facts = Inl e"
  shows "ordinary e"
proof (cases explicit)
  case None
  with assms show ?thesis
    unfolding resolve_deadline_def Let_def by (simp only: option.case first_rung_error not_False_eq_True)
qed (use assms in \<open>simp add: resolve_deadline_def\<close>)

lemma payload_error: "payload_of s deadlines facts nxt = Inl e \<Longrightarrow> ordinary e"
  by (cases "ps_command s"; cases "ps_target s")
    (auto simp: payload_of_def rbind_Inl_iff operation_planned_def dest: resolve_deadline_error)

lemma rule_matches_error: "rule_matches r s facts = Inl e \<Longrightarrow> ordinary e"
  by (cases "ps_command s"; cases "ps_target s")
    (auto simp: rule_matches_def rbind_Inl_iff selected_by_def split: option.splits sum.splits if_splits)

lemma effects_error: "effects s rules facts = Inl e \<Longrightarrow> ordinary e"
proof -
  have "first_matching rules s facts = Inl e \<Longrightarrow> ordinary e"
    by (induction rules) (auto simp: rbind_Inl_iff dest: rule_matches_error split: if_splits)
  then show "effects s rules facts = Inl e \<Longrightarrow> ordinary e"
    by (auto simp: effects_def rbind_Inl_iff Let_def split: option.splits)
qed

lemma rfold_error:
  assumes "rfold f xs s = Inl e"
  shows "\<exists>x t. x \<in> set xs \<and> f x t = Inl e"
  using assms
proof (induction xs arbitrary: s)
  case (Cons x xs)
  show ?case
  proof (cases "f x s")
    case (Inl e')
    then show ?thesis using Cons.prems by (intro exI [of _ x] exI [of _ s]) simp
  next
    case (Inr t)
    then have "rfold f xs t = Inl e" using Cons.prems by simp
    from Cons.IH [OF this] show ?thesis by auto
  qed
qed simp

lemma add_step_error: "add_step facts deadlines rules omitted s cp = Inl e \<Longrightarrow> ordinary e"
  by (auto simp: add_step_def rbind_Inl_iff dest: payload_error effects_error split: if_splits)

lemma add_steps_error: "rfold (add_step facts deadlines rules omitted) ss cp = Inl e \<Longrightarrow> ordinary e"
  by (drule rfold_error) (auto dest: add_step_error)

lemma inherits_target:
  "inherits steps omitted a k b \<Longrightarrow> b \<notin> set omitted
    \<and> ((\<forall>s\<in>set steps. \<forall>d\<in>set (ps_deps s). dp_on d \<in> N) \<longrightarrow> b \<in> N)"
  by (induction rule: inherits.induct) auto

lemma graph_result_error: "graph_result r = Inl e \<Longrightarrow> ordinary e"
  by (auto simp: graph_result_def split: sum.splits)

lemma traverse_nodes_total:
  assumes "\<forall>d\<in>set ds. map_of nodes (dp_on d) \<noteq> None"
  shows "\<exists>js. rtraverse (\<lambda>d. id_of nodes (dp_on d)) ds = Inr js"
  using assms by (induction ds) (auto simp: id_of_def)

lemma add_edges_error:
  assumes "add_edges resolved nodes (n, i) b = Inl e" and "map_of resolved n = Some ds"
    and "\<forall>d\<in>set ds. map_of nodes (dp_on d) \<noteq> None"
  shows "ordinary e"
proof -
  obtain hard where "rtraverse (\<lambda>d. id_of nodes (dp_on d)) (filter (\<lambda>d. dp_kind d = Success) ds) = Inr hard"
    using traverse_nodes_total [of "filter (\<lambda>d. dp_kind d = Success) ds" nodes] assms(3) by auto
  moreover obtain soft where "rtraverse (\<lambda>d. id_of nodes (dp_on d)) (filter (\<lambda>d. dp_kind d = Completion) ds) = Inr soft"
    using traverse_nodes_total [of "filter (\<lambda>d. dp_kind d = Completion) ds" nodes] assms(3) by auto
  ultimately show ?thesis
    using assms(1,2) by (auto simp: add_edges_def rbind_Inl_iff dest: graph_result_error)
qed

lemma compile_error:
  assumes err: "compile_steps steps facts deadlines rules next0 = Inl e"
  shows "internal e \<longrightarrow> (\<exists>n. e = OmittedCycle n
    \<and> (n, n) \<in> (omitted_links steps (omitted_names facts steps))\<^sup>+)"
proof
  assume int: "internal e"
  from err int check_loop_error obtain by_name where ch: "checked steps = Inr by_name"
    and err1: "rbind (fates steps facts) (\<lambda>(omitted, omissions).
      rbind (resolve_all by_name omitted (dict_keys by_name) []) (\<lambda>resolved.
      rbind (rfold (add_step facts deadlines rules omitted) steps
        \<lparr>cp_builder = empty_builder, cp_nodes = [], cp_operations = [], cp_next = next0\<rparr>) (\<lambda>cp.
      rbind (rfold (add_edges resolved (cp_nodes cp)) (cp_nodes cp) (cp_builder cp)) (\<lambda>b.
      rbind (graph_result (build b)) (\<lambda>g. Inr ((g, cp_operations cp, omissions), cp_next cp)))))) = Inl e"
    unfolding compile_steps_def by (auto simp: rbind_Inl_iff checked_def Let_def split: if_splits)
  have C: "distinct (map ps_name steps)" "by_name = step_dict steps"
    "\<forall>s\<in>set steps. \<forall>d\<in>set (ps_deps s). dp_on d \<in> ps_name ` set steps"
    using ch unfolding checked_ok by blast+
  from err1 int fates_error obtain omitted omissions where fa: "fates steps facts = Inr (omitted, omissions)"
    and err2: "rbind (resolve_all by_name omitted (dict_keys by_name) []) (\<lambda>resolved.
      rbind (rfold (add_step facts deadlines rules omitted) steps
        \<lparr>cp_builder = empty_builder, cp_nodes = [], cp_operations = [], cp_next = next0\<rparr>) (\<lambda>cp.
      rbind (rfold (add_edges resolved (cp_nodes cp)) (cp_nodes cp) (cp_builder cp)) (\<lambda>b.
      rbind (graph_result (build b)) (\<lambda>g. Inr ((g, cp_operations cp, omissions), cp_next cp))))) = Inl e"
    by (auto simp: rbind_Inl_iff)
  have om: "omitted = omitted_names facts steps" using fates_ok [OF fa] by (simp add: omitted_names_def)
  show "\<exists>n. e = OmittedCycle n \<and> (n, n) \<in> (omitted_links steps (omitted_names facts steps))\<^sup>+"
  proof (cases "resolve_all by_name omitted (dict_keys by_name) []")
    case (Inl e')
    then have "e' = e" using err2 by simp
    then show ?thesis
      using resolve_all_error [OF C(1,3), of omitted "dict_keys by_name" "[]" e] Inl om by (simp add: C(2) comp_def)
  next
    case (Inr resolved)
    let ?start = "\<lparr>cp_builder = empty_builder, cp_nodes = [], cp_operations = [], cp_next = next0\<rparr>"
    obtain cp where cp: "rfold (add_step facts deadlines rules omitted) steps ?start = Inr cp"
    proof (cases "rfold (add_step facts deadlines rules omitted) steps ?start")
      case (Inl e')
      then have "e' = e" using err2 Inr by simp
      then show thesis using add_steps_error [OF Inl] int by simp
    qed (rule that)
    have err3: "rbind (rfold (add_edges resolved (cp_nodes cp)) (cp_nodes cp) (cp_builder cp)) (\<lambda>b.
      rbind (graph_result (build b)) (\<lambda>g. Inr ((g, cp_operations cp, omissions), cp_next cp))) = Inl e"
      using err2 Inr cp by simp
    then have "rfold (add_edges resolved (cp_nodes cp)) (cp_nodes cp) (cp_builder cp) = Inl e"
      using int by (auto simp: rbind_Inl_iff dest: graph_result_error)
    then obtain n i b where ni: "(n, i) \<in> set (cp_nodes cp)" and ee: "add_edges resolved (cp_nodes cp) (n, i) b = Inl e"
      using rfold_error by fastforce
    have start: "compiling_ok facts deadlines rules next0 []
        \<lparr>cp_builder = empty_builder, cp_nodes = [], cp_operations = [], cp_next = next0\<rparr>"
      by (simp add: compiling_ok_def named_payloads_def map_filter_def) (simp add: empty_builder_def)
    have kept: "[] @ filter (\<lambda>s. ps_name s \<notin> set omitted) steps = kept_steps facts steps"
      using kept_filter [OF C(1)] om by simp
    have "compiling_ok facts deadlines rules next0 (kept_steps facts steps) cp"
      using add_steps_ok [OF cp start] distinct_kept [OF C(1)] unfolding kept by blast
    then have nodes: "cp_nodes cp = zip (map ps_name (kept_steps facts steps)) [0..<length (kept_steps facts steps)]"
      unfolding compiling_ok_def by blast
    then have "dict_keys (cp_nodes cp) = map ps_name (kept_steps facts steps)" by simp
    then have "set (dict_keys (cp_nodes cp)) = ps_name ` set (kept_steps facts steps)" by (simp only: set_map)
    then have keys: "set (dict_keys (cp_nodes cp)) = ps_name ` set steps - set omitted"
      unfolding kept_filter [OF C(1), of facts, symmetric] om by (simp only:) force
    have M: "memo_ok steps omitted resolved" "ps_name ` set steps \<subseteq> set (dict_keys resolved)"
      using resolve_all_ok [OF C(1) Inr [unfolded C(2)]] by (auto simp: memo_ok_def comp_def)
    have "n \<in> set (dict_keys (cp_nodes cp))" using imageI [OF ni, of fst] by simp
    then have "n \<in> set (dict_keys resolved)" using keys M(2) by blast
    then obtain ds where ds: "map_of resolved n = Some ds" unfolding ex_map_of [symmetric] by (rule exE)
    have "map_of (cp_nodes cp) (dp_on d) \<noteq> None" if "d \<in> set ds" for d
    proof -
      have "dp_on d \<in> set (map dp_on ds)" using that by simp
      then obtain k where "inherits steps omitted n k (dp_on d)"
        using M(1) ds unfolding memo_ok_def resolved_ok_def covers_def by blast
      from inherits_target [OF this] C(3) have "dp_on d \<in> set (dict_keys (cp_nodes cp))" unfolding keys by blast
      then show ?thesis by (metis map_of_None_key)
    qed
    with add_edges_error [OF ee ds] int show ?thesis by blast
  qed
qed

text \<open>Steps that pass the checks are not refused by them later.\<close>

lemma resolve_all_checked:
  "checked steps = Inr by_name \<Longrightarrow> resolve_all by_name omitted (dict_keys by_name) [] = Inl e \<Longrightarrow> \<not> step_fault e"
  using resolve_all_error [of steps omitted "dict_keys by_name" "[]" e] unfolding checked_ok by (auto simp: comp_def)

lemma add_edges_checked: "add_edges resolved nodes ni b = Inl e \<Longrightarrow> \<not> step_fault e"
proof -
  have "rtraverse (\<lambda>d. id_of nodes (dp_on d)) ds = Inl e \<Longrightarrow> \<not> step_fault e" for ds
    by (induction ds) (auto simp: id_of_def rbind_Inl_iff split: option.splits)
  then show "add_edges resolved nodes ni b = Inl e \<Longrightarrow> \<not> step_fault e"
    by (cases ni) (auto simp: add_edges_def rbind_Inl_iff dest: graph_result_error split: option.splits)
qed

lemma compile_checked:
  assumes "checked steps = Inr by_name" and "compile_steps steps facts deadlines rules next0 = Inl e"
  shows "\<not> step_fault e"
proof -
  have "\<not> step_fault e" if "rfold (add_edges resolved nodes) ns b = Inl e" for resolved nodes ns b
    using rfold_error [OF that] add_edges_checked by blast
  then show ?thesis
    using assms by (auto simp: compile_steps_def rbind_Inl_iff dest: fates_error resolve_all_checked [OF assms(1)]
      add_steps_error graph_result_error)
qed

lemma lower_checked:
  assumes "checked steps = Inr by_name" and "\<forall>plan\<in>set plans. \<exists>d. checked (cpl_steps plan) = Inr d"
    and "\<forall>plan\<in>set plans. \<forall>xs. cpl_armed_by plan = Some xs \<longrightarrow> set xs \<subseteq> set (map ps_name steps)"
    and "lower name steps facts plans deadlines rules next0 = Inl e"
  shows "\<not> step_fault e"
proof -
  have "\<not> step_fault e" if "lower_cleanup ps steps operations facts deadlines rules k = Inl e" "set ps \<subseteq> set plans" for ps operations k
    using that
  proof (induction ps arbitrary: k)
    case (Cons plan ps)
    have "arming plan steps operations \<noteq> Inl e'" for e'
      using assms(3) Cons.prems(2) by (auto simp: arming_def Let_def sort_eq_Nil dedup_eq_Nil filter_empty_conv split: option.split)
    then show ?case
      using Cons assms(2) compile_checked by (fastforce simp: rbind_Inl_iff)
  qed simp
  moreover have "\<not> step_fault e" if "validated w = Inl e" for w
    using that by (auto simp: validated_def Let_def rbind_Inl_iff bounded_def armed_within_def deadlines_within_def
      dest!: rfold_error split: if_splits option.splits)
  ultimately show ?thesis
    using assms(4) compile_checked [OF assms(1)] by (auto simp: lower_def rbind_Inl_iff Let_def)
qed

subsection \<open>Workflows\<close>

lemma named_payloads_ops: "length ss = length ns \<Longrightarrow> map snd (named_payloads ss ns) = List.map_filter n_payload ns"
  unfolding named_payloads_def
  by (induction ss ns rule: list_induct2) (auto simp: map_filter_simps split: option.split)

lemma compile_operations:
  assumes "compile_steps steps facts deadlines rules next0 = Inr ((g, operations, omissions), next1)"
  shows "map snd operations = operations_of g"
    and "x \<in> set (operations_of g) \<Longrightarrow> cmd_tag (op_command x) \<in> supported_commands facts (pl_device (op_target x))"
proof -
  note C = compile_ok [OF assms]
  have len: "length (kept_steps facts steps) = length (g_nodes g)" using C(5) by (rule list_all2_lengthD)
  show "map snd operations = operations_of g"
    unfolding C(6) operations_of_def by (rule named_payloads_ops [OF len])
  assume "x \<in> set (operations_of g)"
  then obtain n where n: "n \<in> set (g_nodes g)" "n_payload n = Some x" by (auto simp: operations_of_def in_map_filter)
  then obtain s where s: "s \<in> set (kept_steps facts steps)" "node_for facts deadlines rules s n"
    using C(5) by (metis in_set_conv_nth list_all2_conv_all_nth)
  then have c: "carries facts deadlines s (Some x)" using n(2) by (simp add: node_for_def)
  show "cmd_tag (op_command x) \<in> supported_commands facts (pl_device (op_target x))"
    using c s(1) by (cases "ps_command s"; cases "ps_target s")
      (auto simp: carries_def kept_steps_def unsupported_by_def)
qed

lemma lower_cleanup_ok:
  assumes "lower_cleanup plans steps operations facts deadlines rules nxt = Inr ((cs, oms), nxt')"
  shows "list_all2 (\<lambda>plan c. cl_when c = cpl_when plan \<and> cl_timeout c = cpl_timeout plan \<and> cl_origin c = cpl_origin plan
      \<and> arming plan steps operations = Inr (cl_armed_by c)
      \<and> (\<exists>k r ops om. compile_steps (cpl_steps plan) facts deadlines rules k = Inr ((cl_graph c, ops, om), r)))
    plans cs"
  using assms
proof (induction plans arbitrary: nxt cs oms)
  case (Cons plan plans)
  then obtain g ops om k armed cs' oms' where "compile_steps (cpl_steps plan) facts deadlines rules nxt = Inr ((g, ops, om), k)"
    and "arming plan steps operations = Inr armed"
    and rest: "lower_cleanup plans steps operations facts deadlines rules k = Inr ((cs', oms'), nxt')"
    and "cs = \<lparr>cl_graph = g, cl_when = cpl_when plan, cl_timeout = cpl_timeout plan,
             cl_origin = cpl_origin plan, cl_armed_by = armed\<rparr> # cs'"
    by (auto simp: rbind_Inr_iff)
  with Cons.IH [OF rest] show ?case by auto
qed simp

lemma lower_ok:
  assumes "lower name steps facts plans deadlines rules next0 = Inr (w, next2)"
  obtains operations omissions refused next1 where
    "compile_steps steps facts deadlines rules next0 = Inr ((ew_graph w, operations, omissions), next1)"
    and "lower_cleanup plans steps operations facts deadlines rules next1 = Inr ((ew_cleanup w, refused), next2)"
    and "validated w = Inr ()" and "ew_omissions w = omissions @ refused"
proof -
  from assms obtain g operations omissions next1 cs refused where
    1: "compile_steps steps facts deadlines rules next0 = Inr ((g, operations, omissions), next1)" and
    2: "lower_cleanup plans steps operations facts deadlines rules next1 = Inr ((cs, refused), next2)" and
    3: "validated \<lparr>ew_name = name, ew_graph = g, ew_cleanup = cs, ew_omissions = omissions @ refused\<rparr> = Inr ()" and
    4: "w = \<lparr>ew_name = name, ew_graph = g, ew_cleanup = cs, ew_omissions = omissions @ refused\<rparr>"
    by (auto simp: lower_def rbind_Inr_iff Let_def)
  show thesis by (rule that [of operations omissions next1 refused]) (use 1 2 3 4 in simp_all)
qed

lemma armed_from_main:
  assumes "compile_steps steps facts deadlines rules next0 = Inr ((g, operations, omissions), next1)"
    and "arming plan steps operations = Inr (Some xs)"
  shows "op_ref ` set xs \<subseteq> set (map op_ref (operations_of g))"
proof -
  from assms(2) obtain names where "xs = List.map_filter (map_of operations) names"
    by (auto simp: arming_def Let_def split: option.splits if_splits)
  then have "set xs \<subseteq> set (map snd operations)" by (force simp: in_map_filter dest: map_of_SomeD)
  then show ?thesis unfolding compile_operations(1) [OF assms(1)] by auto
qed

lemma validated_checks:
  assumes "validated w = Inr ()"
  shows "distinct (map op_id (operations_of (ew_graph w)))"
    and "deadlines_within (operations_of (ew_graph w)) ''the run'' = Inr ()"
    and "c \<in> set (ew_cleanup w) \<Longrightarrow> bounded c = Inr ()"
    and "c \<in> set (ew_cleanup w) \<Longrightarrow> armed_within c (set (map op_ref (operations_of (ew_graph w)))) = Inr ()"
proof -
  let ?held = "set (map op_ref (operations_of (ew_graph w)))"
  show "distinct (map op_id (operations_of (ew_graph w)))"
    and "deadlines_within (operations_of (ew_graph w)) ''the run'' = Inr ()"
    using assms by (auto simp: validated_def Let_def sort_eq_Nil rbind_Inr_iff split: if_splits)
  have fold: "rfold (\<lambda>c _. rbind (bounded c) (\<lambda>_. armed_within c ?held)) (ew_cleanup w) () = Inr ()"
    using assms by (auto simp: validated_def Let_def rbind_Inr_iff split: if_splits)
  have "bounded c = Inr () \<and> armed_within c ?held = Inr ()"
    if "rfold (\<lambda>c _. rbind (bounded c) (\<lambda>_. armed_within c ?held)) cs () = Inr ()" "c \<in> set cs" for cs c
    using that by (induction cs) (auto simp: rbind_Inr_iff)
  from this [OF fold] show "c \<in> set (ew_cleanup w) \<Longrightarrow> bounded c = Inr ()"
    and "c \<in> set (ew_cleanup w) \<Longrightarrow> armed_within c ?held = Inr ()" by blast+
qed

lemma deadlines_within_ok: "deadlines_within xs gname = Inr () \<longleftrightarrow> (\<forall>x\<in>set xs. \<not> bad_deadline x)"
proof (cases "find bad_deadline xs")
  case None
  then show ?thesis by (simp add: deadlines_within_def) (simp add: find_None_iff)
next
  case (Some x)
  then have "\<exists>x\<in>set xs. bad_deadline x" by (metis find_Some_iff nth_mem)
  then show ?thesis using Some by (auto simp: deadlines_within_def)
qed

text \<open>C3. The edges of a compiled graph are the dependencies of its steps, followed through the
  omitted ones: among the retained steps, one waits for another exactly if a path of dependencies
  through omitted steps leads there, and needs its success exactly if some such path requires
  success on every link.  The graph is well formed and acyclic, its nodes are the retained steps
  in order, and an omission is recorded for every other step.\<close>

theorem compiled_edges:
  assumes "compile_steps steps facts deadlines rules next0 = Inr ((g, operations, omissions), next1)"
  shows "wf_graph g \<and> acyclic (waits_for g)
    \<and> list_all2 (node_for facts deadlines rules) (kept_steps facts steps) (g_nodes g)
    \<and> map om_origin omissions = map ps_origin (filter (unsupported_by facts) steps)
    \<and> (\<forall>i<length (kept_steps facts steps). \<forall>j<length (kept_steps facts steps).
        (j \<in> deps_of g i \<longleftrightarrow> (\<exists>k. inherits steps (omitted_names facts steps)
            (ps_name (kept_steps facts steps ! i)) k (ps_name (kept_steps facts steps ! j))))
      \<and> (j \<in> hard_of g i \<longleftrightarrow> inherits steps (omitted_names facts steps)
            (ps_name (kept_steps facts steps ! i)) Success (ps_name (kept_steps facts steps ! j))))"
proof -
  note C = compile_ok [OF assms]
  show ?thesis
    using C(3,5,8,10) topo_order_iff_acyclic [OF C(3)] C(4) by (intro conjI) blast+
qed

text \<open>C11. A workflow that \<open>lower\<close> returns is safe to run: every operation of its main and cleanup
  graphs is a command its device reported, with no deadline or a finite positive one; operation
  labels of the main graph differ; each cleanup has a finite positive timeout and arms only on
  operations of the main graph.\<close>

theorem lowered_workflow_safe:
  assumes "lower name steps facts plans deadlines rules next0 = Inr (w, next2)"
  shows "(\<forall>x. x \<in> set (operations_of (ew_graph w)) \<or> (\<exists>c\<in>set (ew_cleanup w). x \<in> set (operations_of (cl_graph c)))
        \<longrightarrow> cmd_tag (op_command x) \<in> supported_commands facts (pl_device (op_target x)) \<and> \<not> bad_deadline x)
    \<and> distinct (map op_id (operations_of (ew_graph w)))
    \<and> (\<forall>c\<in>set (ew_cleanup w). usable (cl_timeout c)
        \<and> (\<forall>xs x. cl_armed_by c = Some xs \<and> x \<in> set xs \<longrightarrow> op_ref x \<in> set (map op_ref (operations_of (ew_graph w)))))"
proof (intro conjI allI ballI impI)
  obtain operations omissions refused next1 where
    main: "compile_steps steps facts deadlines rules next0 = Inr ((ew_graph w, operations, omissions), next1)"
    and cl: "lower_cleanup plans steps operations facts deadlines rules next1 = Inr ((ew_cleanup w, refused), next2)"
    and v: "validated w = Inr ()" by (rule lower_ok [OF assms])
  note V = validated_checks [OF v]
  show "distinct (map op_id (operations_of (ew_graph w)))" by (rule V)
  have plan: "\<exists>plan k r ops om. compile_steps (cpl_steps plan) facts deadlines rules k = Inr ((cl_graph c, ops, om), r)
      \<and> arming plan steps operations = Inr (cl_armed_by c)" if c: "c \<in> set (ew_cleanup w)" for c
  proof -
    from c obtain i where i: "i < length (ew_cleanup w)" "ew_cleanup w ! i = c" by (auto simp: in_set_conv_nth)
    show ?thesis using list_all2_nthD2 [OF lower_cleanup_ok [OF cl] i(1)] i(2) by metis
  qed
  have ok: "usable (cl_timeout c)" "\<forall>x\<in>set (operations_of (cl_graph c)). \<not> bad_deadline x"
    if "c \<in> set (ew_cleanup w)" for c
    using V(3) [OF that] by (auto simp: bounded_def deadlines_within_ok split: if_splits)
  fix x assume x: "x \<in> set (operations_of (ew_graph w)) \<or> (\<exists>c\<in>set (ew_cleanup w). x \<in> set (operations_of (cl_graph c)))"
  show "cmd_tag (op_command x) \<in> supported_commands facts (pl_device (op_target x))"
    using x compile_operations(2) [OF main] plan compile_operations(2) by metis
  show "\<not> bad_deadline x" using x ok(2) V(2) unfolding deadlines_within_ok by blast
next
  obtain operations omissions refused next1 where
    main: "compile_steps steps facts deadlines rules next0 = Inr ((ew_graph w, operations, omissions), next1)"
    and cl: "lower_cleanup plans steps operations facts deadlines rules next1 = Inr ((ew_cleanup w, refused), next2)"
    and v: "validated w = Inr ()" by (rule lower_ok [OF assms])
  fix c assume c: "c \<in> set (ew_cleanup w)"
  show "usable (cl_timeout c)"
    using validated_checks(3) [OF v c] by (auto simp: bounded_def split: if_splits)
  fix xs x assume "cl_armed_by c = Some xs \<and> x \<in> set xs"
  then show "op_ref x \<in> set (map op_ref (operations_of (ew_graph w)))"
    using validated_checks(4) [OF v c]
    by (auto simp: armed_within_def Let_def filter_empty_conv split: if_splits)
qed

text \<open>C31. The lookups \<open>lower\<close> leaves unguarded never fail, and its last check, that cleanup arms
  on operations of the run, never fires; when it refuses omitted steps that depend on each
  other, the steps it names do: they lie on a cycle of dependencies through omitted steps.\<close>

theorem lower_internal_errors:
  assumes "lower name steps facts plans deadlines rules next0 = Inl e" and "internal e"
  shows "\<exists>n ss. e = OmittedCycle n \<and> (ss = steps \<or> ss \<in> set (map cpl_steps plans))
    \<and> (n, n) \<in> (omitted_links ss (omitted_names facts ss))\<^sup>+"
proof (cases "compile_steps steps facts deadlines rules next0")
  case (Inl e')
  then have "e' = e" using assms(1) by (simp add: lower_def)
  then show ?thesis using compile_error [OF Inl] assms(2) by blast
next
  case (Inr r)
  obtain g operations omissions next1 where r: "r = ((g, operations, omissions), next1)" by (metis prod.exhaust)
  note main = Inr [unfolded r]
  have arm: "\<not> internal e'" if "arming plan steps operations = Inl e'" for plan e'
    using that by (auto simp: arming_def Let_def split: option.splits if_splits)
  have cleanup: "\<exists>n ss. e = OmittedCycle n \<and> ss \<in> set (map cpl_steps ps)
      \<and> (n, n) \<in> (omitted_links ss (omitted_names facts ss))\<^sup>+"
    if "lower_cleanup ps steps operations facts deadlines rules k = Inl e" for ps k
    using that
  proof (induction ps arbitrary: k)
    case (Cons plan ps)
    show ?case
    proof (cases "compile_steps (cpl_steps plan) facts deadlines rules k")
      case (Inl e')
      then have "e' = e" using Cons.prems by simp
      then show ?thesis using compile_error [OF Inl] assms(2) by auto
    next
      case (Inr r')
      obtain t ops unbuilt k' where r': "r' = ((t, ops, unbuilt), k')" by (metis prod.exhaust)
      have "lower_cleanup ps steps operations facts deadlines rules k' = Inl e"
        using Cons.prems Inr r' arm assms(2) by (auto simp: rbind_Inl_iff)
      from Cons.IH [OF this] show ?thesis by auto
    qed
  qed simp
  show ?thesis
  proof (cases "lower_cleanup plans steps operations facts deadlines rules next1")
    case (Inl e')
    then have "e' = e" using assms(1) main by (simp add: lower_def)
    then show ?thesis using cleanup Inl by blast
  next
    case (Inr c)
    obtain cs refused next2 where c: "c = ((cs, refused), next2)" by (metis prod.exhaust)
    let ?w = "\<lparr>ew_name = name, ew_graph = g, ew_cleanup = cs, ew_omissions = omissions @ refused\<rparr>"
    have "validated ?w = Inl e" using assms(1) main Inr c by (simp add: lower_def Let_def rbind_Inl_iff)
    moreover have "armed_within x (set (map op_ref (operations_of g))) = Inr ()" if "x \<in> set cs" for x
    proof -
      from that obtain i where i: "i < length cs" "cs ! i = x" by (auto simp: in_set_conv_nth)
      from list_all2_nthD2 [OF lower_cleanup_ok [OF Inr [unfolded c]] i(1)] i(2)
      obtain plan where "arming plan steps operations = Inr (cl_armed_by x)" by metis
      then have "\<forall>y\<in>set (case cl_armed_by x of None \<Rightarrow> [] | Some xs \<Rightarrow> xs). op_ref y \<in> set (map op_ref (operations_of g))"
        using armed_from_main [OF main, of plan] by (cases "cl_armed_by x") fastforce+
      then show ?thesis by (simp add: armed_within_def filter_empty_conv)
    qed
    moreover have "\<not> internal e'" if "deadlines_within xs gn = Inl e'" for xs gn e'
      using that by (auto simp: deadlines_within_def split: option.splits)
    ultimately have False
      using assms(2) by (auto simp: validated_def Let_def rbind_Inl_iff bounded_def
          dest!: rfold_error split: if_splits)
    then show ?thesis ..
  qed
qed

text \<open>When a deadline rule applies to a command on a placement, and how specific it is.\<close>

definition applies :: "string \<Rightarrow> placement \<Rightarrow> string set \<Rightarrow> deadline_rule \<Rightarrow> bool" where
  "applies command p traits r \<longleftrightarrow> (dr_command r = None \<or> dr_command r = Some command)
    \<and> (case dr_target r of OnDevice k \<Rightarrow> k = pl_device p | OnTrait t \<Rightarrow> t \<in> traits | OnAny \<Rightarrow> True)"

definition rank :: "deadline_rule \<Rightarrow> nat" where
  "rank r = (if dr_command r = None then 3 else 0)
    + (case dr_target r of OnDevice k \<Rightarrow> 0 | OnTrait t \<Rightarrow> 1 | OnAny \<Rightarrow> 2)"

definition most_specific :: "string \<Rightarrow> placement \<Rightarrow> string set \<Rightarrow> deadline_rule list \<Rightarrow> deadline_rule list" where
  "most_specific command p traits stated = filter (\<lambda>r. applies command p traits r
    \<and> (\<forall>r'\<in>set stated. applies command p traits r' \<longrightarrow> rank r \<le> rank r')) stated"

lemma addressing_rank:
  "addressing (filter (\<lambda>r. dr_command r = Some c) stated) RDevice p ts = filter (\<lambda>r. applies c p ts r \<and> rank r = 0) stated"
  "addressing (filter (\<lambda>r. dr_command r = Some c) stated) RTrait p ts = filter (\<lambda>r. applies c p ts r \<and> rank r = 1) stated"
  "addressing (filter (\<lambda>r. dr_command r = Some c) stated) RAny p ts = filter (\<lambda>r. applies c p ts r \<and> rank r = 2) stated"
  "addressing (filter (\<lambda>r. dr_command r = None) stated) RDevice p ts = filter (\<lambda>r. applies c p ts r \<and> rank r = 3) stated"
  "addressing (filter (\<lambda>r. dr_command r = None) stated) RTrait p ts = filter (\<lambda>r. applies c p ts r \<and> rank r = 4) stated"
  "addressing (filter (\<lambda>r. dr_command r = None) stated) RAny p ts = filter (\<lambda>r. applies c p ts r \<and> rank r = 5) stated"
  unfolding addressing.simps filter_filter
  by (rule filter_cong; auto simp: applies_def rank_def split: deadline_target.splits if_splits)+

lemma most_specific_rank:
  assumes "filter (\<lambda>r. applies c p ts r \<and> rank r = k) stated \<noteq> []"
    and "\<forall>j<k. filter (\<lambda>r. applies c p ts r \<and> rank r = j) stated = []"
  shows "most_specific c p ts stated = filter (\<lambda>r. applies c p ts r \<and> rank r = k) stated"
proof -
  have low: "k \<le> rank r" if "r \<in> set stated" "applies c p ts r" for r
    using assms(2) that unfolding filter_empty_conv by (metis linorder_not_less)
  moreover obtain r0 where "r0 \<in> set stated" "applies c p ts r0" "rank r0 = k"
    using assms(1) unfolding filter_empty_conv by blast
  ultimately show ?thesis
    unfolding most_specific_def by (intro filter_cong refl) (metis le_antisym)
qed

lemma rank_bound: "rank r < 6"
  by (cases "dr_target r") (auto simp: rank_def)

lemma most_specific_none:
  assumes "\<forall>j<6. filter (\<lambda>r. applies c p ts r \<and> rank r = j) stated = []"
  shows "most_specific c p ts stated = []"
  using assms rank_bound unfolding most_specific_def filter_empty_conv by blast

text \<open>C20. A deadline is the explicit one, or that of the one most specific rule that applies: a
  rule naming the command before a default, a device before a trait before any; without a rule
  the operation is unbounded, and with several at the winning specificity it is an error that
  names their targets.\<close>

theorem deadline_most_specific:
  "resolve_deadline command p stated explicit facts =
    (case explicit of
       Some s \<Rightarrow> Inr (Some s)
     | None \<Rightarrow>
         (case most_specific command p (bs_traits_of facts p) stated of
            [] \<Rightarrow> Inr None
          | [r] \<Rightarrow> Inr (Some (dr_seconds r))
          | rs \<Rightarrow> Inl (AmbiguousDeadline command (pl_device p) (sort (map (named_target \<circ> dr_target) rs)))))"
proof (cases explicit)
  case None
  let ?ts = "bs_traits_of facts p"
  let ?A = "\<lambda>k. filter (\<lambda>r. applies command p ?ts r \<and> rank r = k) stated"
  let ?out = "\<lambda>rs. case rs of [] \<Rightarrow> Inr None | [r] \<Rightarrow> Inr (Some (dr_seconds r))
      | rs \<Rightarrow> Inl (AmbiguousDeadline command (pl_device p) (sort (map (named_target \<circ> dr_target) rs)))"
  have pick: "rbind (the_rule rs command p) (\<lambda>r. Inr (Some (dr_seconds r))) = ?out rs" if "rs \<noteq> []" for rs
    using that by (cases rs; cases "tl rs") (auto simp: the_rule_def)
  have step: "(if rs \<noteq> [] then rbind (the_rule rs command p) (\<lambda>r. Inr (Some (dr_seconds r))) else x)
      = (if rs \<noteq> [] then ?out rs else x)" for rs x
    using pick by simp
  have loop: "resolve_deadline command p stated None facts =
    (if ?A 0 \<noteq> [] then ?out (?A 0) else if ?A 1 \<noteq> [] then ?out (?A 1) else if ?A 2 \<noteq> [] then ?out (?A 2)
     else if ?A 3 \<noteq> [] then ?out (?A 3) else if ?A 4 \<noteq> [] then ?out (?A 4) else if ?A 5 \<noteq> [] then ?out (?A 5)
     else Inr None)"
    unfolding resolve_deadline_def option.case Let_def
    by (simp only: List.product.simps list.map append_Cons append_Nil append_Nil2 first_rung.simps Let_def
        addressing_rank [where c = command] step)
  consider k where "k < 6" "?A k \<noteq> []" "\<forall>j<k. ?A j = []" | "\<forall>j<6. ?A j = []"
  proof (cases "\<exists>k<6. ?A k \<noteq> []")
    case True
    then obtain k where k: "k < 6 \<and> ?A k \<noteq> []" "\<forall>j<k. \<not> (j < 6 \<and> ?A j \<noteq> [])"
      using exists_least_iff [of "\<lambda>k. k < 6 \<and> ?A k \<noteq> []"] by blast
    then show ?thesis using that(1) by (meson less_trans)
  qed (use that in blast)
  then have "resolve_deadline command p stated None facts = ?out (most_specific command p ?ts stated)"
  proof cases
    case 1
    have "resolve_deadline command p stated None facts = ?out (?A k)"
      using 1 unfolding loop by (auto simp: less_Suc_eq numeral_eq_Suc)
    then show ?thesis using most_specific_rank [OF 1(2,3)] by (simp only:)
  next
    case 2
    then have "resolve_deadline command p stated None facts = Inr None" unfolding loop by simp
    then show ?thesis using most_specific_none [OF 2] by simp
  qed
  then show ?thesis using None by simp
qed (simp add: resolve_deadline_def)

subsection \<open>Witnesses\<close>

definition demo_sensor :: bound_sensor where
  "demo_sensor = bound [] demo_topology demo_details None"

definition demo_step :: "string \<Rightarrow> string \<Rightarrow> placement \<Rightarrow> dependency list \<Rightarrow> planned_step" where
  "demo_step name tag p deps =
    \<lparr>ps_name = name, ps_origin = \<lparr>or_source = name, or_path = [], or_reason = ''''\<rparr>, ps_group = ''g'',
     ps_target = Some p, ps_command = Some \<lparr>cmd_tag = tag, cmd_args = []\<rparr>, ps_deps = deps,
     ps_optional = False, ps_fail_fast = True, ps_unsupported = Omit, ps_timeout = None,
     ps_acquisition = None, ps_delay_s = 0\<rparr>"

text \<open>\<open>c\<close> needs the omitted \<open>b\<close>, which needs \<open>a\<close>.\<close>

definition demo_steps :: "planned_step list" where
  "demo_steps = [demo_step ''a'' ''Capture'' demo_cam1 [],
    demo_step ''b'' ''Park'' (demo_place ''wheel'' [''bench'']) [dep ''a'' Success],
    demo_step ''c'' ''Capture'' demo_cam2 [dep ''b'' Success]]"

lemma demo_supported: "supported_commands demo_sensor k = (if k \<in> set (dict_keys demo_details) then {''Capture''} else {})"
  by (auto simp: demo_sensor_def bound_def supported_commands_def demo_details_def)

lemma demo_checked: "checked demo_steps = Inr (step_dict demo_steps)"
  unfolding checked_ok by (simp add: demo_steps_def demo_step_def paired_def)

lemma demo_fates: "\<exists>oms. fates demo_steps demo_sensor = Inr ([''b''], oms)"
  by (simp add: demo_steps_def demo_step_def demo_supported demo_details_def)

lemma demo_resolved:
  "\<exists>r. resolve_all (step_dict demo_steps) [''b''] (dict_keys (step_dict demo_steps)) [] = Inr r
    \<and> r = [(''a'', []), (''b'', [dep ''a'' Success]), (''c'', [dep ''a'' Success])]"
  by (simp add: demo_steps_def demo_step_def resolve.simps merged_def merge_dep_def inherit_def both_kinds_def)

definition demo_op :: "nat \<Rightarrow> planned_step \<Rightarrow> operation" where
  "demo_op k s = \<lparr>op_ref = k, op_target = the (ps_target s), op_command = the (ps_command s),
    op_origin = ps_origin s, op_timeout = None, op_acquisition = None\<rparr>"

definition demo_node :: "nat \<Rightarrow> planned_step \<Rightarrow> operation option node" where
  "demo_node i s = \<lparr>nid = i, n_label = step_label s, n_group = ''g'', n_payload = Some (demo_op i s),
    n_on_failure = Stop, n_optional = False, n_delay_s = 0, n_override = None\<rparr>"

definition demo_compiling :: compiling where
  "demo_compiling = \<lparr>cp_builder = \<lparr>b_nodes = [demo_node 0 (demo_steps ! 0), demo_node 1 (demo_steps ! 2)],
      b_soft = [{}, {}], b_hard = [{}, {}]\<rparr>,
    cp_nodes = [(''a'', 0), (''c'', 1)],
    cp_operations = [(''a'', demo_op 0 (demo_steps ! 0)), (''c'', demo_op 1 (demo_steps ! 2))], cp_next = 2\<rparr>"

lemma demo_added:
  "rfold (add_step demo_sensor [] [] [''b'']) demo_steps
    \<lparr>cp_builder = empty_builder, cp_nodes = [], cp_operations = [], cp_next = 0\<rparr> = Inr demo_compiling"
  by (simp add: demo_steps_def demo_step_def add_step_def payload_of_def resolve_deadline_def Let_def
      operation_planned_def effects_def enter_node_def builder_add_def empty_builder_def demo_compiling_def
      demo_node_def demo_op_def)

definition demo_built :: "operation option builder" where
  "demo_built = (cp_builder demo_compiling)\<lparr>b_hard := [{}, {0}]\<rparr>"

lemma demo_edges:
  "rfold (add_edges [(''a'', []), (''b'', [dep ''a'' Success]), (''c'', [dep ''a'' Success])] (cp_nodes demo_compiling))
    (cp_nodes demo_compiling) (cp_builder demo_compiling) = Inr demo_built"
  by (simp add: demo_compiling_def demo_built_def add_edges_def builder_require_def builder_order_def
      graph_result_def id_of_def)

lemma demo_builds: "\<exists>g. build demo_built = Inr g"
  by (simp add: demo_built_def demo_compiling_def demo_node_def build_def topo_order_def
      frozen_def upt_rec rbind_Inr_iff indegrees_def deps_of_def dedup_def dependents_def subtract_def
      rguard_def Let_def)

definition demo_graph :: "operation option graph" where
  "demo_graph = frozen demo_built"

lemma demo_compiled:
  "\<exists>oms. compile_steps demo_steps demo_sensor [] [] 0 = Inr ((demo_graph, cp_operations demo_compiling, oms), 2)"
proof -
  obtain oms where fa: "fates demo_steps demo_sensor = Inr ([''b''], oms)" using demo_fates by blast
  obtain g where "build demo_built = Inr g" using demo_builds by blast
  then have g: "build demo_built = Inr demo_graph" by (auto simp: build_def rbind_Inr_iff demo_graph_def)
  have n: "cp_next demo_compiling = 2" by (simp add: demo_compiling_def)
  have r: "resolve_all (step_dict demo_steps) [''b''] (dict_keys (step_dict demo_steps)) []
      = Inr [(''a'', []), (''b'', [dep ''a'' Success]), (''c'', [dep ''a'' Success])]"
    using demo_resolved by blast
  show ?thesis
    unfolding compile_steps_def demo_checked rbind_simps fa prod.case r demo_added demo_edges g graph_result_def
      sum.case n by blast
qed

theorem compiled_edges_witness:
  "inherits demo_steps [''b''] ''c'' Success ''a'' \<and> 0 \<in> hard_of demo_graph 1"
proof -
  obtain oms where c: "compile_steps demo_steps demo_sensor [] [] 0 = Inr ((demo_graph, cp_operations demo_compiling, oms), 2)"
    using demo_compiled by blast
  have kept: "kept_steps demo_sensor demo_steps = [demo_steps ! 0, demo_steps ! 2]"
    and om: "omitted_names demo_sensor demo_steps = [''b'']"
    by (simp_all add: kept_steps_def omitted_names_def demo_steps_def demo_step_def unsupported_by_def
        demo_supported demo_details_def)
  have h: "0 \<in> hard_of demo_graph 1"
    by (simp add: demo_graph_def frozen_hard demo_built_def demo_compiling_def)
  have "\<forall>i<2. \<forall>j<2. j \<in> hard_of demo_graph i \<longleftrightarrow> inherits demo_steps [''b'']
      (ps_name ([demo_steps ! 0, demo_steps ! 2] ! i)) Success (ps_name ([demo_steps ! 0, demo_steps ! 2] ! j))"
    using compiled_edges [OF c] unfolding kept om by (simp add: numeral_2_eq_2)
  then have "inherits demo_steps [''b''] (ps_name (demo_steps ! 2)) Success (ps_name (demo_steps ! 0))"
    using h by (metis less_2_cases_iff nth_Cons_0 nth_Cons_Suc One_nat_def)
  then show ?thesis using h by (simp add: demo_steps_def demo_step_def)
qed

lemma demo_ops: "operations_of demo_graph = [demo_op 0 (demo_steps ! 0), demo_op 1 (demo_steps ! 2)]"
  by (simp add: operations_of_def demo_graph_def frozen_def demo_built_def demo_compiling_def demo_node_def
      map_filter_simps)

lemma demo_lowered: "\<exists>w. lower ''run'' demo_steps demo_sensor [] [] [] 0 = Inr (w, 2) \<and> ew_graph w = demo_graph"
proof -
  obtain oms where c: "compile_steps demo_steps demo_sensor [] [] 0 = Inr ((demo_graph, cp_operations demo_compiling, oms), 2)"
    using demo_compiled by blast
  have ids: "map op_id (operations_of demo_graph) = [''a@cam1'', ''c@cam2'']"
    unfolding demo_ops by (simp add: demo_op_def op_id_def origin_str_def demo_steps_def demo_step_def)
  have "validated \<lparr>ew_name = ''run'', ew_graph = demo_graph, ew_cleanup = [], ew_omissions = oms @ []\<rparr> = Inr ()"
  proof -
    have "deadlines_within (operations_of demo_graph) ''the run'' = Inr ()"
      unfolding deadlines_within_ok demo_ops by (simp add: bad_deadline_def demo_op_def)
    then show ?thesis by (simp add: validated_def Let_def ids sort_eq_Nil)
  qed
  then show ?thesis by (simp add: lower_def c Let_def)
qed

theorem lowered_workflow_safe_witness:
  "cmd_tag (op_command (demo_op 1 (demo_steps ! 2))) \<in> supported_commands demo_sensor ''cam2''"
proof -
  obtain w where w: "lower ''run'' demo_steps demo_sensor [] [] [] 0 = Inr (w, 2)" "ew_graph w = demo_graph"
    using demo_lowered by blast
  have "demo_op 1 (demo_steps ! 2) \<in> set (operations_of (ew_graph w))" unfolding w(2) demo_ops by simp
  then have "cmd_tag (op_command (demo_op 1 (demo_steps ! 2)))
      \<in> supported_commands demo_sensor (pl_device (op_target (demo_op 1 (demo_steps ! 2))))"
    using lowered_workflow_safe [OF w(1)] by blast
  moreover have "pl_device (op_target (demo_op 1 (demo_steps ! 2))) = ''cam2''"
    by (simp add: demo_op_def demo_steps_def demo_step_def)
  ultimately show ?thesis by simp
qed

text \<open>Two omitted steps that need each other.\<close>

definition demo_cycle :: "planned_step list" where
  "demo_cycle = [demo_step ''x'' ''Park'' demo_cam1 [dep ''y'' Success],
    demo_step ''y'' ''Park'' demo_cam2 [dep ''x'' Success]]"

lemma demo_cycle_refused: "lower ''run'' demo_cycle demo_sensor [] [] [] 0 = Inl (OmittedCycle ''x'')"
proof -
  have ch: "checked demo_cycle = Inr (step_dict demo_cycle)"
    unfolding checked_ok by (simp add: demo_cycle_def demo_step_def paired_def)
  have fa: "\<exists>oms. fates demo_cycle demo_sensor = Inr ([''x'', ''y''], oms)"
    by (simp add: demo_cycle_def demo_step_def demo_supported demo_details_def)
  then obtain oms where fa: "fates demo_cycle demo_sensor = Inr ([''x'', ''y''], oms)" by blast
  have re: "resolve_all (step_dict demo_cycle) [''x'', ''y''] (dict_keys (step_dict demo_cycle)) [] = Inl (OmittedCycle ''x'')"
    by (simp add: demo_cycle_def demo_step_def resolve.simps)
  show ?thesis
    unfolding lower_def compile_steps_def ch fa rbind_simps prod.case re by simp
qed

theorem lower_internal_errors_witness:
  "\<exists>n. (n, n) \<in> (omitted_links demo_cycle (omitted_names demo_sensor demo_cycle))\<^sup>+"
  using lower_internal_errors [OF demo_cycle_refused] by auto

end
