(* ===== verification/Sensor_Routing.thy ===== *)
theory Sensor_Routing
  imports Sensor_Workflow
begin

section \<open>Command routing (core/src/sensorkit/sensor/routing.py)\<close>

text \<open>
  \<open>CommandRouter.route\<close> chooses where a command goes: for a sensor subject the shallowest
  supporting device common to all participants, for an instrument subject the deepest on each
  participant's chain.  \<open>candidate\<close> states which devices may serve a group; the results say that
  a group is routed exactly when one candidate is strictly the best, and to that one.
\<close>

subsection \<open>Subjects and scopes\<close>

datatype scope = AnyScope | PrivateScope | SharedScope

datatype subject = SensorSubject | InstrumentSubject

definition partition_by :: "subject \<Rightarrow> placement list \<Rightarrow> placement list list" where
  "partition_by subject participants =
    (case subject of SensorSubject \<Rightarrow> [participants] | InstrumentSubject \<Rightarrow> map (\<lambda>p. [p]) participants)"

record routed_command =
  rc_target :: placement
  rc_command :: command
  rc_timeout :: "seconds option"

definition governs :: "routed_command \<Rightarrow> placement \<times> string" where
  "governs r = (rc_target r, cmd_tag (rc_command r))"

datatype routing_error =
    Unroutable string string scope bool
  | NoCommonDevice string string
  | AmbiguousDevice string "string list" string
  | NotOnChain string string
  | LacksCommand string string
  | SelectionRaised selection_error
  | NotInTopology

definition chain_at :: "topology \<Rightarrow> placement \<Rightarrow> routing_error + placement list" where
  "chain_at tp q = (case chain_of tp q of Inl _ \<Rightarrow> Inl NotInTopology | Inr ch \<Rightarrow> Inr ch)"

definition private_at :: "topology \<Rightarrow> placement \<Rightarrow> routing_error + placement set" where
  "private_at tp q = (case private_of tp q of Inl _ \<Rightarrow> Inl NotInTopology | Inr ps \<Rightarrow> Inr ps)"

subsection \<open>CommandRouter\<close>

definition reachable :: "bound_sensor \<Rightarrow> placement list \<Rightarrow> routing_error + placement list" where
  "reachable bs participants =
    rbind (rtraverse (chain_at (bs_topology bs)) participants) (\<lambda>chains. Inr (dedup (concat chains)))"

definition supported_on :: "bound_sensor \<Rightarrow> string \<Rightarrow> placement list \<Rightarrow> routing_error + bool" where
  "supported_on bs command participants =
    rbind (reachable bs participants) (\<lambda>ps.
      Inr (\<exists>p\<in>set ps. command \<in> supported_commands bs (pl_device p)))"

definition named_device :: "bound_sensor \<Rightarrow> string \<Rightarrow> placement list \<Rightarrow> string \<Rightarrow> placement list
    \<Rightarrow> routing_error + placement list" where
  "named_device bs device ps named participants =
    (case find (\<lambda>p. pl_device p = device) ps of
       None \<Rightarrow> Inl (NotOnChain device (format_paths participants))
     | Some p \<Rightarrow>
         if named \<notin> supported_commands bs device then Inl (LacksCommand device named) else Inr [p])"

definition eligible :: "bound_sensor \<Rightarrow> placement \<Rightarrow> placement \<Rightarrow> scope \<Rightarrow> routing_error + bool" where
  "eligible bs p participant scope =
    rbind (chain_at (bs_topology bs) participant) (\<lambda>ch.
      if p \<notin> set ch then Inr False
      else case scope of
             PrivateScope \<Rightarrow> rbind (private_at (bs_topology bs) participant) (\<lambda>ps. Inr (p \<in> ps))
           | SharedScope \<Rightarrow> rbind (private_at (bs_topology bs) participant) (\<lambda>ps. Inr (p \<notin> ps))
           | AnyScope \<Rightarrow> Inr True)"

text \<open>The condition of the comprehension that collects the candidates, in its order.\<close>

definition serves :: "bound_sensor \<Rightarrow> string \<Rightarrow> placement list \<Rightarrow> selection option \<Rightarrow> scope \<Rightarrow> placement
    \<Rightarrow> routing_error + bool" where
  "serves bs named participants select scope p =
    (if named \<notin> supported_commands bs (pl_device p) then Inr False
     else rbind (any_answers (map (\<lambda>q. eligible bs p q scope) participants)) (\<lambda>ok.
       if \<not> ok then Inr False
       else case select of
              None \<Rightarrow> Inr True
            | Some s \<Rightarrow> (case matches s p (Some bs) of Inl e \<Rightarrow> Inl (SelectionRaised e) | Inr b \<Rightarrow> Inr b)))"

fun keep_where :: "('a \<Rightarrow> 'e + bool) \<Rightarrow> 'a list \<Rightarrow> 'e + 'a list" where
  "keep_where f [] = Inr []"
| "keep_where f (x # xs) =
    rbind (f x) (\<lambda>b. rbind (keep_where f xs) (\<lambda>ys. Inr (if b then x # ys else ys)))"

definition covering_all :: "bound_sensor \<Rightarrow> placement list \<Rightarrow> placement list \<Rightarrow> string \<Rightarrow> routing_error + placement list" where
  "covering_all bs cands participants named =
    rbind (keep_where (\<lambda>p. all_answers (map (\<lambda>q.
        rbind (chain_at (bs_topology bs) q) (\<lambda>ch. Inr (p \<in> set ch))) participants)) cands) (\<lambda>common.
      if common = [] then Inl (NoCommonDevice named (format_paths participants)) else Inr common)"

fun insert_place :: "placement \<Rightarrow> placement list \<Rightarrow> placement list" where
  "insert_place p [] = [p]"
| "insert_place p (q # qs) =
    (if pl_path p < pl_path q \<or> pl_path p = pl_path q \<and> pl_device p \<le> pl_device q then p # q # qs
     else q # insert_place p qs)"

definition sort_places :: "placement list \<Rightarrow> placement list" where
  "sort_places ps = foldr insert_place ps []"

definition best_depth :: "subject \<Rightarrow> placement list \<Rightarrow> nat" where
  "best_depth subject ps =
    (case subject of SensorSubject \<Rightarrow> Min (set (map depth ps)) | InstrumentSubject \<Rightarrow> Max (set (map depth ps)))"

definition winner :: "bound_sensor \<Rightarrow> command \<Rightarrow> subject \<Rightarrow> placement list \<Rightarrow> selection option \<Rightarrow> scope
    \<Rightarrow> string option \<Rightarrow> routing_error + placement" where
  "winner bs command subject participants select scope device =
    (let named = cmd_tag command in
     rbind (reachable bs participants) (\<lambda>found.
     rbind (case device of None \<Rightarrow> Inr found | Some k \<Rightarrow> named_device bs k found named participants) (\<lambda>ps.
     rbind (keep_where (serves bs named participants select scope) ps) (\<lambda>cands.
       if cands = [] then Inl (Unroutable (format_paths participants) named scope (select \<noteq> None))
       else rbind (case subject of
                     SensorSubject \<Rightarrow> covering_all bs cands participants named
                   | InstrumentSubject \<Rightarrow> Inr cands) (\<lambda>left.
         case sort_places (filter (\<lambda>p. depth p = best_depth subject left) left) of
           [w] \<Rightarrow> Inr w
         | ws \<Rightarrow> Inl (AmbiguousDevice named (map pl_device ws) (format_paths participants)))))))"

definition route :: "bound_sensor \<Rightarrow> command \<Rightarrow> subject \<Rightarrow> placement list \<Rightarrow> selection option \<Rightarrow> scope
    \<Rightarrow> string option \<Rightarrow> routing_error + routed_command list" where
  "route bs command subject participants select scope device =
    rbind (rtraverse (\<lambda>group. winner bs command subject group select scope device)
        (partition_by subject participants)) (\<lambda>targets.
      Inr (map (\<lambda>t. \<lparr>rc_target = t, rc_command = command, rc_timeout = None\<rparr>) (dedup targets)))"

subsection \<open>Who may serve a group\<close>

definition scope_allows :: "topology \<Rightarrow> scope \<Rightarrow> placement \<Rightarrow> placement \<Rightarrow> bool" where
  "scope_allows tp scope p q =
    (case scope of
       AnyScope \<Rightarrow> True
     | PrivateScope \<Rightarrow> (\<exists>ps. private_of tp q = Inr ps \<and> p \<in> ps)
     | SharedScope \<Rightarrow> (\<exists>ps. private_of tp q = Inr ps \<and> p \<notin> ps))"

definition on_chain :: "topology \<Rightarrow> placement \<Rightarrow> placement \<Rightarrow> bool" where
  "on_chain tp p q \<longleftrightarrow> (\<exists>ch. chain_of tp q = Inr ch \<and> p \<in> set ch)"

definition candidate :: "bound_sensor \<Rightarrow> string \<Rightarrow> subject \<Rightarrow> placement list \<Rightarrow> selection option \<Rightarrow> scope
    \<Rightarrow> placement \<Rightarrow> bool" where
  "candidate bs named subject participants select scope p \<longleftrightarrow>
     named \<in> supported_commands bs (pl_device p)
   \<and> (\<exists>q\<in>set participants. on_chain (bs_topology bs) p q \<and> scope_allows (bs_topology bs) scope p q)
   \<and> (case select of None \<Rightarrow> True | Some s \<Rightarrow> matches s p (Some bs) = Inr True)
   \<and> (subject = SensorSubject \<longrightarrow> (\<forall>q\<in>set participants. on_chain (bs_topology bs) p q))"

definition nearer :: "subject \<Rightarrow> placement \<Rightarrow> placement \<Rightarrow> bool" where
  "nearer subject p q = (case subject of SensorSubject \<Rightarrow> depth p < depth q | InstrumentSubject \<Rightarrow> depth q < depth p)"

lemma keep_where_Inr: "keep_where f xs = Inr ys \<longleftrightarrow> (\<forall>x\<in>set xs. \<exists>b. f x = Inr b) \<and> ys = filter (\<lambda>x. f x = Inr True) xs"
proof (induction xs arbitrary: ys)
  case (Cons x xs)
  show ?case
  proof (cases "f x")
    case (Inr b)
    then show ?thesis by (auto simp: rbind_Inr_iff Cons)
  qed simp
qed auto

lemma any_answers_Inr:
  "any_answers rs = Inr b \<Longrightarrow> b \<longleftrightarrow> Inr True \<in> set rs"
  by (induction rs) (auto simp: rbind_Inr_iff split: if_splits)

lemma set_insert_place: "set (insert_place p qs) = insert p (set qs)"
  by (induction qs) auto

lemma length_insert_place: "length (insert_place p qs) = Suc (length qs)"
  by (induction qs) auto

lemma sort_places_facts: "set (sort_places ps) = set ps" "length (sort_places ps) = length ps"
  by (induction ps) (simp_all add: sort_places_def set_insert_place length_insert_place)

subsection \<open>The winner of a group\<close>

definition serves_best :: "bound_sensor \<Rightarrow> string \<Rightarrow> subject \<Rightarrow> placement list \<Rightarrow> selection option \<Rightarrow> scope
    \<Rightarrow> placement \<Rightarrow> bool" where
  "serves_best bs named subject participants select scope w \<longleftrightarrow>
     candidate bs named subject participants select scope w
   \<and> (\<forall>p. candidate bs named subject participants select scope p \<and> p \<noteq> w \<longrightarrow> nearer subject w p)"

text \<open>Participants the topology knows, and a selection that answers.\<close>

definition placed_in :: "bound_sensor \<Rightarrow> placement list \<Rightarrow> bool" where
  "placed_in bs participants \<longleftrightarrow> (\<forall>q\<in>set participants.
     \<not> isl (chain_of (bs_topology bs) q) \<and> \<not> isl (private_of (bs_topology bs) q))"

definition answers :: "bound_sensor \<Rightarrow> selection option \<Rightarrow> bool" where
  "answers bs select \<longleftrightarrow> (case select of None \<Rightarrow> True | Some s \<Rightarrow> \<forall>p. \<not> isl (matches s p (Some bs)))"

lemma not_isl: "\<not> isl x \<longleftrightarrow> (\<exists>y. x = Inr y)"
  by (cases x) auto

lemma reachable_placed:
  assumes "placed_in bs participants"
  shows "\<exists>ps. reachable bs participants = Inr ps
    \<and> set ps = {p. \<exists>q\<in>set participants. on_chain (bs_topology bs) p q} \<and> distinct ps"
proof -
  let ?tp = "bs_topology bs"
  have "\<exists>chs. rtraverse (chain_at ?tp) participants = Inr chs
      \<and> set (concat chs) = {p. \<exists>q\<in>set participants. on_chain ?tp p q}"
    using assms
  proof (induction participants)
    case (Cons q qs)
    then obtain ch where ch: "chain_of ?tp q = Inr ch" by (auto simp: placed_in_def not_isl)
    then have "on_chain ?tp p q \<longleftrightarrow> p \<in> set ch" for p by (simp add: on_chain_def)
    moreover obtain chs where "rtraverse (chain_at ?tp) qs = Inr chs"
      "set (concat chs) = {p. \<exists>q\<in>set qs. on_chain ?tp p q}"
      using Cons by (auto simp: placed_in_def)
    moreover have "chain_at ?tp q = Inr ch" using ch by (simp add: chain_at_def)
    ultimately show ?case by auto
  qed simp
  then show ?thesis by (auto simp: reachable_def)
qed

lemma eligible_placed:
  assumes "placed_in bs participants" and "q \<in> set participants"
  shows "eligible bs p q scope = Inr (on_chain (bs_topology bs) p q \<and> scope_allows (bs_topology bs) scope p q)"
  using assms by (cases scope)
    (auto simp: placed_in_def not_isl eligible_def chain_at_def private_at_def on_chain_def scope_allows_def)

lemma any_answers_total: "(\<forall>r\<in>set rs. \<exists>b. r = Inr b) \<Longrightarrow> any_answers rs = Inr (Inr True \<in> set rs)"
  by (induction rs) auto

lemma all_answers_total: "(\<forall>r\<in>set rs. \<exists>b. r = Inr b) \<Longrightarrow> all_answers rs = Inr (\<forall>r\<in>set rs. r = Inr True)"
  by (induction rs) auto

lemma serves_placed:
  assumes pl: "placed_in bs participants" and an: "answers bs select"
  shows "serves bs named participants select scope p = Inr (named \<in> supported_commands bs (pl_device p)
    \<and> (\<exists>q\<in>set participants. on_chain (bs_topology bs) p q \<and> scope_allows (bs_topology bs) scope p q)
    \<and> (case select of None \<Rightarrow> True | Some s \<Rightarrow> matches s p (Some bs) = Inr True))"
proof -
  have "any_answers (map (\<lambda>q. eligible bs p q scope) participants) = Inr (\<exists>q\<in>set participants.
      on_chain (bs_topology bs) p q \<and> scope_allows (bs_topology bs) scope p q)"
    using eligible_placed [OF pl] by (subst any_answers_total) force+
  moreover have "\<exists>b. matches s p (Some bs) = Inr b" if "select = Some s" for s
    using an that by (simp add: answers_def not_isl)
  ultimately show ?thesis
    by (cases select) (fastforce simp: serves_def)+
qed

lemma covering_placed:
  assumes pl: "placed_in bs participants"
  shows "covering_all bs cs participants named =
    (let common = filter (\<lambda>p. \<forall>q\<in>set participants. on_chain (bs_topology bs) p q) cs in
     if common = [] then Inl (NoCommonDevice named (format_paths participants)) else Inr common)"
proof -
  have here: "rbind (chain_at (bs_topology bs) q) (\<lambda>ch. Inr (p \<in> set ch)) = Inr (on_chain (bs_topology bs) p q)"
    if "q \<in> set participants" for p q
    using pl that by (auto simp: placed_in_def not_isl chain_at_def on_chain_def)
  have "all_answers (map (\<lambda>q. rbind (chain_at (bs_topology bs) q) (\<lambda>ch. Inr (p \<in> set ch))) participants)
      = Inr (\<forall>q\<in>set participants. on_chain (bs_topology bs) p q)" for p
    by (subst all_answers_total) (auto simp: here)
  then have "keep_where (\<lambda>p. all_answers (map (\<lambda>q.
      rbind (chain_at (bs_topology bs) q) (\<lambda>ch. Inr (p \<in> set ch))) participants)) cs
    = Inr (filter (\<lambda>p. \<forall>q\<in>set participants. on_chain (bs_topology bs) p q) cs)"
    by (simp add: keep_where_Inr)
  then show ?thesis by (simp add: covering_all_def Let_def)
qed

text \<open>The candidates, all of them, once each, and what is made of them.\<close>

definition pick :: "subject \<Rightarrow> string \<Rightarrow> placement list \<Rightarrow> placement list \<Rightarrow> routing_error + placement" where
  "pick subject named participants left =
    (case sort_places (filter (\<lambda>p. depth p = best_depth subject left) left) of
       [w] \<Rightarrow> Inr w
     | ws \<Rightarrow> Inl (AmbiguousDevice named (map pl_device ws) (format_paths participants)))"

lemma guarded_rbind: "x = rbind (if xs = [] then Inl e else Inr xs) f \<Longrightarrow> if xs = [] then isl x else x = f xs"
  by simp

lemma winner_placed:
  assumes "placed_in bs participants" and "answers bs select" and "named = cmd_tag c"
  shows "\<exists>left. distinct left \<and> set left = {p. candidate bs named subject participants select scope p}
    \<and> (if left = [] then isl (winner bs c subject participants select scope None)
       else winner bs c subject participants select scope None = pick subject named participants left)"
proof -
  obtain ps where ps: "reachable bs participants = Inr ps" "distinct ps"
    "set ps = {p. \<exists>q\<in>set participants. on_chain (bs_topology bs) p q}"
    using reachable_placed [OF assms(1)] by blast
  let ?serve = "\<lambda>p. named \<in> supported_commands bs (pl_device p)
    \<and> (\<exists>q\<in>set participants. on_chain (bs_topology bs) p q \<and> scope_allows (bs_topology bs) scope p q)
    \<and> (case select of None \<Rightarrow> True | Some s \<Rightarrow> matches s p (Some bs) = Inr True)"
  let ?all = "\<lambda>p. \<forall>q\<in>set participants. on_chain (bs_topology bs) p q"
  let ?F = "filter ?serve ps"
  have keep: "keep_where (serves bs named participants select scope) ps = Inr ?F"
    by (simp add: keep_where_Inr serves_placed [OF assms(1,2)])
  have w: "winner bs c subject participants select scope None =
      (if ?F = [] then Inl (Unroutable (format_paths participants) named scope (select \<noteq> None))
       else rbind (case subject of SensorSubject \<Rightarrow> covering_all bs ?F participants named | InstrumentSubject \<Rightarrow> Inr ?F)
         (pick subject named participants))"
    by (simp only: winner_def Let_def ps(1) rbind_simps option.case keep assms(3) [symmetric] pick_def [abs_def])
  show ?thesis
  proof (cases subject)
    case SensorSubject
    let ?left = "filter ?all ?F"
    have "set ?left = {p. candidate bs named subject participants select scope p}"
      unfolding SensorSubject candidate_def using ps(3) by auto
    moreover have "if ?left = [] then isl (winner bs c subject participants select scope None)
        else winner bs c subject participants select scope None = pick subject named participants ?left"
    proof (cases "?F = []")
      case True
      then show ?thesis unfolding w by simp
    next
      case False
      then have "winner bs c subject participants select scope None = rbind (if ?left = []
          then Inl (NoCommonDevice named (format_paths participants)) else Inr ?left) (pick subject named participants)"
        unfolding SensorSubject w [unfolded SensorSubject]
        by (simp only: if_False subject.case covering_placed [OF assms(1)] Let_def)
      then show ?thesis by (rule guarded_rbind)
    qed
    ultimately show ?thesis using ps(2) by (intro exI [of _ ?left]) simp
  next
    case InstrumentSubject
    have "set ?F = {p. candidate bs named subject participants select scope p}"
      unfolding InstrumentSubject candidate_def using ps(3) by auto
    moreover have "if ?F = [] then isl (winner bs c subject participants select scope None)
        else winner bs c subject participants select scope None = pick subject named participants ?F"
      unfolding InstrumentSubject w [unfolded InstrumentSubject]
      by (simp only: subject.case rbind_simps split: if_split) simp
    ultimately show ?thesis using ps(2) by (intro exI [of _ ?F]) simp
  qed
qed

lemma pick_iff:
  assumes "distinct left" and "left \<noteq> []"
  shows "pick subject named participants left = Inr w \<longleftrightarrow>
    w \<in> set left \<and> (\<forall>p\<in>set left. p \<noteq> w \<longrightarrow> nearer subject w p)"
proof -
  let ?best = "filter (\<lambda>p. depth p = best_depth subject left) left"
  have dist: "distinct ?best" using assms(1) by simp
  have fin: "finite (depth ` set left)" "depth ` set left \<noteq> {}" using assms(2) by auto
  have single: "pick subject named participants left = Inr w \<longleftrightarrow> ?best = [w]"
  proof
    assume p: "pick subject named participants left = Inr w"
    then have s: "sort_places ?best = [w]" by (auto simp: pick_def split: list.splits)
    then have "length ?best = 1" "set ?best = {w}"
      using sort_places_facts [of ?best] by simp_all
    then show "?best = [w]" by (cases ?best) auto
  next
    assume "?best = [w]"
    then show "pick subject named participants left = Inr w"
      unfolding pick_def by (simp add: sort_places_def)
  qed
  have between: "p \<in> set left \<Longrightarrow> Min (depth ` set left) \<le> depth p \<and> depth p \<le> Max (depth ` set left)" for p
    using fin(1) by simp
  have best: "p \<in> set left \<Longrightarrow> depth p \<noteq> best_depth subject left
      \<Longrightarrow> depth w = best_depth subject left \<Longrightarrow> nearer subject w p" for p
    by (drule between, cases subject) (auto simp: best_depth_def nearer_def)
  have exact: "w \<in> set left \<Longrightarrow> \<forall>p\<in>set left. p \<noteq> w \<longrightarrow> nearer subject w p \<Longrightarrow> depth w = best_depth subject left"
    unfolding best_depth_def nearer_def
    by (cases subject) (auto intro!: Min_eqI [symmetric] Max_eqI [symmetric] simp: less_imp_le)
  have "?best = [w] \<longleftrightarrow> set ?best = {w}"
    using dist by (cases ?best) (auto simp: subset_singleton_iff)
  also have "\<dots> \<longleftrightarrow> w \<in> set left \<and> (\<forall>p\<in>set left. p \<noteq> w \<longrightarrow> nearer subject w p)"
  proof
    assume "set ?best = {w}"
    then have w: "w \<in> set left" "depth w = best_depth subject left"
      and others: "\<And>p. p \<in> set left \<Longrightarrow> p \<noteq> w \<Longrightarrow> depth p \<noteq> best_depth subject left" by auto
    then show "w \<in> set left \<and> (\<forall>p\<in>set left. p \<noteq> w \<longrightarrow> nearer subject w p)" using best by blast
  next
    assume w: "w \<in> set left \<and> (\<forall>p\<in>set left. p \<noteq> w \<longrightarrow> nearer subject w p)"
    then have "depth w = best_depth subject left" using exact by blast
    moreover have "depth p \<noteq> depth w" if "p \<in> set left" "p \<noteq> w" for p
      using w that by (cases subject) (auto simp: nearer_def)
    ultimately show "set ?best = {w}" using w by auto
  qed
  finally show ?thesis unfolding single .
qed

lemma winner_iff:
  assumes "placed_in bs participants" and "answers bs select"
  shows "winner bs c subject participants select scope None = Inr w \<longleftrightarrow>
    serves_best bs (cmd_tag c) subject participants select scope w"
proof -
  obtain left where left: "distinct left" "set left = {p. candidate bs (cmd_tag c) subject participants select scope p}"
    and w: "if left = [] then isl (winner bs c subject participants select scope None)
       else winner bs c subject participants select scope None = pick subject (cmd_tag c) participants left"
    using winner_placed [OF assms refl] by blast
  show ?thesis
  proof (cases "left = []")
    case True
    then have "\<not> candidate bs (cmd_tag c) subject participants select scope p" for p using left(2) by auto
    moreover have "isl (winner bs c subject participants select scope None)" using w True by simp
    ultimately show ?thesis by (auto simp: serves_best_def isl_def)
  next
    case False
    then show ?thesis using w left(2) by (auto simp: pick_iff [OF left(1) False] serves_best_def)
  qed
qed

lemma serves_best_unique: "serves_best bs n s ps sel sc v \<Longrightarrow> serves_best bs n s ps sel sc w \<Longrightarrow> v = w"
  unfolding serves_best_def nearer_def by (cases s) (auto dest: less_asym)


abbreviation demo_bound :: bound_sensor where
  "demo_bound \<equiv> bound [] demo_topology demo_details None"

lemma demo_route:
  "route demo_bound \<lparr>cmd_tag = ''Capture'', cmd_args = []\<rparr> InstrumentSubject [demo_cam1] None AnyScope None
    = Inr [\<lparr>rc_target = demo_cam1, rc_command = \<lparr>cmd_tag = ''Capture'', cmd_args = []\<rparr>, rc_timeout = None\<rparr>]"
  unfolding bound_def demo_topology_tables by code_simp


end
