(* ===== verification/Dag_Run.thy ===== *)
theory Dag_Run
  imports Dag_Graph
begin

section \<open>Running a dependency graph (core/src/sensorkit/common/dag.py)\<close>

text \<open>
  \<open>NodeResult\<close>, \<open>RunReport\<close>, \<open>RunState\<close> and \<open>DagRunner.execute\<close>.  The dispatched tasks are
  the environment: an event says which in-flight nodes ended and how, or that a cancellation
  reached the run.  Between two events the runner is deterministic, so a configuration is the
  state at one of its two awaits (waiting for tasks, draining them) or a final one.

  A task is named by its node's id, \<open>RunState.running\<close> lists them in dispatch order.  The
  pending set is a list in its iteration order, and \<open>iter\<close> is the iteration order of a
  frozenset.  \<open>'c\<close> is a cancellation as it arrives, \<open>absorbed\<close> the caller's predicate.
\<close>

subsection \<open>Results and reports\<close>

datatype node_status = SOk | SFailed | SSkipped | SCancelled

record ('e, 'v) node_result =
  nr_status :: node_status
  nr_error :: "'e option"
  nr_value :: "'v option"
  nr_overridden :: "string option"

definition result :: "node_status \<Rightarrow> ('e, 'v) node_result" where
  "result s = \<lparr>nr_status = s, nr_error = None, nr_value = None, nr_overridden = None\<rparr>"

lemma result_simps [simp]:
  "nr_status (result s) = s" "nr_error (result s) = None"
  "nr_value (result s) = None" "nr_overridden (result s) = None"
  by (simp_all add: result_def)

fun status_str :: "node_status \<Rightarrow> string" where
  "status_str SOk = ''ok''"
| "status_str SFailed = ''failed''"
| "status_str SSkipped = ''skipped''"
| "status_str SCancelled = ''cancelled''"

text \<open>An empty reason is false where Python tests its truth, and present where it tests \<open>None\<close>.\<close>

definition truthy :: "string option \<Rightarrow> bool" where
  "truthy s = (case s of None \<Rightarrow> False | Some t \<Rightarrow> t \<noteq> [])"

definition report_line :: "('e \<Rightarrow> string) \<Rightarrow> ('e, 'v) node_result \<Rightarrow> 'p node \<Rightarrow> string option" where
  "report_line str r n =
    (if truthy (nr_overridden r) then
       Some (''    '' @ ljust 10 ''overridden'' @ '' '' @ n_group n @ '': '' @ n_label n @ '': ''
         @ the (nr_overridden r))
     else if nr_status r = SOk then None
     else Some (''    '' @ ljust 10 (status_str (nr_status r)) @ '' '' @ n_group n @ '': '' @ n_label n
         @ (case nr_error r of None \<Rightarrow> '''' | Some e \<Rightarrow> '': '' @ str e)))"

record ('p, 'e, 'v) run_report =
  rr_name :: string
  rr_graph :: "'p graph"
  rr_results :: "(nat, ('e, 'v) node_result) dict"
  rr_aborted :: bool

definition with_status ::
  "('p, 'e, 'v) run_report \<Rightarrow> node_status list \<Rightarrow> ('p node \<times> ('e, 'v) node_result) list" where
  "with_status rep ss =
    concat (map (\<lambda>n. case map_of (rr_results rep) (nid n) of
        None \<Rightarrow> []
      | Some r \<Rightarrow> if nr_status r \<in> set ss then [(n, r)] else []) (g_nodes (rr_graph rep)))"

definition failures :: "('p, 'e, 'v) run_report \<Rightarrow> ('p node \<times> 'e option) list" where
  "failures rep = map (\<lambda>(n, r). (n, nr_error r))
    (filter (\<lambda>(n, r). \<not> n_optional n \<and> nr_overridden r = None) (with_status rep [SFailed, SSkipped]))"

definition overridden :: "('p, 'e, 'v) run_report \<Rightarrow> ('p node \<times> string) list" where
  "overridden rep =
    concat (map (\<lambda>n. case map_of (rr_results rep) (nid n) of
        None \<Rightarrow> []
      | Some r \<Rightarrow> (case nr_overridden r of None \<Rightarrow> [] | Some why \<Rightarrow> [(n, why)]))
      (g_nodes (rr_graph rep)))"

definition causes :: "('p, 'e, 'v) run_report \<Rightarrow> ('p node \<times> 'e option) list" where
  "causes rep = map (\<lambda>(n, r). (n, nr_error r)) (with_status rep [SFailed])"

definition degraded :: "('p, 'e, 'v) run_report \<Rightarrow> ('p node \<times> 'e option) list" where
  "degraded rep = map (\<lambda>(n, r). (n, nr_error r))
    (filter (\<lambda>(n, r). n_optional n) (with_status rep [SFailed]))"

definition report_ok :: "('p, 'e, 'v) run_report \<Rightarrow> bool" where
  "report_ok rep \<longleftrightarrow> \<not> rr_aborted rep \<and> list_all (\<lambda>(i, r). nr_status r = SOk) (rr_results rep)"

definition summary_kind :: "('e, 'v) node_result \<Rightarrow> string" where
  "summary_kind r = (if truthy (nr_overridden r) then ''overridden'' else status_str (nr_status r))"

definition summary :: "('e \<Rightarrow> string) \<Rightarrow> ('p, 'e, 'v) run_report \<Rightarrow> string" where
  "summary str rep =
    (let kinds = map (summary_kind \<circ> snd) (rr_results rep);
         shown = filter (\<lambda>k. k \<in> set kinds)
           [''ok'', ''failed'', ''skipped'', ''overridden'', ''cancelled''];
         head = ''['' @ rr_name rep @ ''] ''
           @ join ''  '' (map (\<lambda>k. k @ ''='' @ nat_str (count_list kinds k)) shown)
           @ (if rr_aborted rep then ''  (aborted)'' else '''');
         lines = concat (map (\<lambda>n. case map_of (rr_results rep) (nid n) of
             None \<Rightarrow> []
           | Some r \<Rightarrow> (case report_line str r n of None \<Rightarrow> [] | Some line \<Rightarrow> [line]))
           (g_nodes (rr_graph rep)))
     in join newline (head # lines))"

subsection \<open>RunState\<close>

record ('e, 'v) run_state =
  rs_results :: "(nat, ('e, 'v) node_result) dict"
  rs_running :: "nat list"
  rs_pending :: "nat list"
  rs_stop :: bool

definition node_of :: "'p graph \<Rightarrow> nat \<Rightarrow> 'p node" where
  "node_of g i = the (find_node g i)"

definition init_state ::
  "'p graph \<Rightarrow> (nat, ('e, 'v) node_result) dict \<Rightarrow> ('e, 'v) run_state" where
  "init_state g res = \<lparr>rs_results = res, rs_running = [], rs_pending = dedup (node_ids g), rs_stop = False\<rparr>"

definition ready :: "'p graph \<Rightarrow> ('e, 'v) run_state \<Rightarrow> nat \<Rightarrow> bool" where
  "ready g st i \<longleftrightarrow> deps_of g i \<subseteq> set (dict_keys (rs_results st))"

definition blocking :: "'p graph \<Rightarrow> nat \<Rightarrow> ('e, 'v) node_result \<Rightarrow> bool" where
  "blocking g d r \<longleftrightarrow> nr_status r \<noteq> SOk \<and> n_on_failure (node_of g d) \<noteq> Continue"

definition blockers ::
  "(nat set \<Rightarrow> nat list) \<Rightarrow> 'p graph \<Rightarrow> ('e, 'v) run_state \<Rightarrow> nat \<Rightarrow> ('e, 'v) node_result list" where
  "blockers iter g st i =
    concat (map (\<lambda>d. case map_of (rs_results st) d of
        None \<Rightarrow> []
      | Some r \<Rightarrow> if blocking g d r then [r] else []) (iter (hard_of g i)))"

definition settle_node ::
  "nat \<Rightarrow> ('e, 'v) node_result \<Rightarrow> ('e, 'v) run_state \<Rightarrow> ('e, 'v) run_state" where
  "settle_node i r st =
    st\<lparr>rs_results := dict_set i r (rs_results st),
       rs_pending := filter (\<lambda>j. j \<noteq> i) (rs_pending st)\<rparr>"

definition excuse :: "('e, 'v) node_result list \<Rightarrow> string option" where
  "excuse cs = (if list_all (\<lambda>c. truthy (nr_overridden c)) cs then nr_overridden (hd cs) else None)"

fun skip_nodes ::
  "(nat set \<Rightarrow> nat list) \<Rightarrow> 'p graph \<Rightarrow> nat list \<Rightarrow> ('e, 'v) run_state \<Rightarrow> bool
    \<Rightarrow> ('e, 'v) run_state \<times> bool" where
  "skip_nodes iter g [] st moved = (st, moved)"
| "skip_nodes iter g (i # is) st moved =
    (case blockers iter g st i of
       [] \<Rightarrow> skip_nodes iter g is st moved
     | cs \<Rightarrow> skip_nodes iter g is
         (settle_node i ((result SSkipped)\<lparr>nr_overridden := excuse cs\<rparr>) st) True)"

definition skip_pass ::
  "(nat set \<Rightarrow> nat list) \<Rightarrow> 'p graph \<Rightarrow> ('e, 'v) run_state \<Rightarrow> ('e, 'v) run_state \<times> bool" where
  "skip_pass iter g st = skip_nodes iter g (rs_pending st) st False"

definition override_result :: "node_override \<Rightarrow> ('e, 'v) node_result" where
  "override_result ov =
    (result (case ov_outcome ov of OvOk \<Rightarrow> SOk | OvSkipped \<Rightarrow> SSkipped))
      \<lparr>nr_overridden := Some (ov_reason ov)\<rparr>"

fun override_nodes ::
  "'p graph \<Rightarrow> nat list \<Rightarrow> ('e, 'v) run_state \<Rightarrow> bool \<Rightarrow> ('e, 'v) run_state \<times> bool" where
  "override_nodes g [] st moved = (st, moved)"
| "override_nodes g (i # is) st moved =
    (case (if ready g st i then n_override (node_of g i) else None) of
       None \<Rightarrow> override_nodes g is st moved
     | Some ov \<Rightarrow> override_nodes g is (settle_node i (override_result ov) st) True)"

definition override_pass :: "'p graph \<Rightarrow> ('e, 'v) run_state \<Rightarrow> ('e, 'v) run_state \<times> bool" where
  "override_pass g st = override_nodes g (sort (rs_pending st)) st False"

lemma settle_node_pending_length:
  "length (rs_pending (settle_node i r st)) \<le> length (rs_pending st)"
  "i \<in> set (rs_pending st) \<Longrightarrow> length (rs_pending (settle_node i r st)) < length (rs_pending st)"
  by (auto simp: settle_node_def length_filter_less)

lemma skip_nodes_pending:
  "length (rs_pending (fst (skip_nodes iter g is st m))) \<le> length (rs_pending st)"
proof (induction iter g "is" st m rule: skip_nodes.induct)
  case (2 iter g i "is" st m)
  then show ?case
    by (auto split: list.split intro: order_trans [OF _ settle_node_pending_length(1)])
qed simp

lemma skip_nodes_moved:
  "set is \<subseteq> set (rs_pending st) \<Longrightarrow> snd (skip_nodes iter g is st False)
    \<Longrightarrow> length (rs_pending (fst (skip_nodes iter g is st False))) < length (rs_pending st)"
proof (induction "is")
  case (Cons i "is")
  show ?case
  proof (cases "blockers iter g st i")
    case Nil
    then show ?thesis using Cons by simp
  next
    case (Cons c cs)
    then show ?thesis
      using Cons.prems(1) by (auto intro: le_less_trans [OF skip_nodes_pending settle_node_pending_length(2)])
  qed
qed simp

lemma override_nodes_pending:
  "length (rs_pending (fst (override_nodes g is st m))) \<le> length (rs_pending st)"
proof (induction g "is" st m rule: override_nodes.induct)
  case (2 g i "is" st m)
  then show ?case
    by (auto split: option.split intro: order_trans [OF _ settle_node_pending_length(1)])
qed simp

lemma override_nodes_moved:
  "set is \<subseteq> set (rs_pending st) \<Longrightarrow> snd (override_nodes g is st False)
    \<Longrightarrow> length (rs_pending (fst (override_nodes g is st False))) < length (rs_pending st)"
proof (induction "is")
  case (Cons i "is")
  show ?case
  proof (cases "if ready g st i then n_override (node_of g i) else None")
    case None
    then show ?thesis using Cons by simp
  next
    case (Some ov)
    then show ?thesis
      using Cons.prems(1)
      by (auto split: if_splits intro: le_less_trans [OF override_nodes_pending settle_node_pending_length(2)])
  qed
qed simp

function resolve_skips ::
  "(nat set \<Rightarrow> nat list) \<Rightarrow> 'p graph \<Rightarrow> ('e, 'v) run_state \<Rightarrow> ('e, 'v) run_state" where
  "resolve_skips iter g st =
    (if snd (skip_pass iter g st) then resolve_skips iter g (fst (skip_pass iter g st))
     else fst (skip_pass iter g st))"
  by pat_completeness auto
termination
  by (relation "measure (\<lambda>(iter, g, st). length (rs_pending st))")
    (auto simp: skip_pass_def intro: skip_nodes_moved)

declare resolve_skips.simps [simp del]

lemma resolve_skips_pending: "length (rs_pending (resolve_skips iter g st)) \<le> length (rs_pending st)"
proof (induction iter g st rule: resolve_skips.induct)
  case (1 iter g st)
  have "length (rs_pending (fst (skip_pass iter g st))) \<le> length (rs_pending st)"
    unfolding skip_pass_def by (rule skip_nodes_pending)
  with 1 show ?case by (subst resolve_skips.simps) (auto intro: order_trans)
qed

function settle ::
  "(nat set \<Rightarrow> nat list) \<Rightarrow> 'p graph \<Rightarrow> ('e, 'v) run_state \<Rightarrow> ('e, 'v) run_state" where
  "settle iter g st =
    (let st' = resolve_skips iter g st in
     if rs_stop st' then st'
     else if snd (override_pass g st') then settle iter g (fst (override_pass g st'))
     else fst (override_pass g st'))"
  by pat_completeness auto
termination
proof (relation "measure (\<lambda>(iter, g, st). length (rs_pending st))", goal_cases)
  case (2 iter g st st')
  then have "length (rs_pending (fst (override_pass g st'))) < length (rs_pending st')"
    unfolding override_pass_def by (intro override_nodes_moved) auto
  with 2(1) show ?case using resolve_skips_pending [of iter g st] by simp
qed simp

declare settle.simps [simp del]

definition take_ready :: "'p graph \<Rightarrow> ('e, 'v) run_state \<Rightarrow> nat list \<times> ('e, 'v) run_state" where
  "take_ready g st =
    (let is = filter (ready g st) (sort (rs_pending st))
     in (is, st\<lparr>rs_pending := filter (\<lambda>j. j \<notin> set is) (rs_pending st)\<rparr>))"

text \<open>How a dispatched task ends.\<close>

datatype ('e, 'v) ending = Finished 'v | Raised 'e | WasCancelled

fun record_end ::
  "'p graph \<Rightarrow> nat \<times> ('e, 'v) ending \<Rightarrow> ('e, 'v) run_state \<Rightarrow> ('e, 'v) run_state" where
  "record_end g (i, en) st =
    (let popped = filter (\<lambda>j. j \<noteq> i) (rs_running st) in
     case en of
       WasCancelled \<Rightarrow>
         st\<lparr>rs_results := dict_set i (result SCancelled) (rs_results st), rs_running := popped\<rparr>
     | Raised e \<Rightarrow>
         st\<lparr>rs_results := dict_set i ((result SFailed)\<lparr>nr_error := Some e\<rparr>) (rs_results st),
            rs_running := popped,
            rs_stop := rs_stop st \<or> n_on_failure (node_of g i) = Stop\<rparr>
     | Finished v \<Rightarrow>
         st\<lparr>rs_results := dict_set i ((result SOk)\<lparr>nr_value := Some v\<rparr>) (rs_results st),
            rs_running := popped\<rparr>)"

definition cancel_pending :: "('e, 'v) run_state \<Rightarrow> ('e, 'v) run_state" where
  "cancel_pending st =
    st\<lparr>rs_results := fold (\<lambda>i res. dict_set i (result SCancelled) res) (rs_pending st) (rs_results st),
       rs_pending := []\<rparr>"

subsection \<open>DagRunner.execute\<close>

definition claims :: "('c \<Rightarrow> bool) option \<Rightarrow> 'c \<Rightarrow> bool" where
  "claims absorbed c = (case absorbed of None \<Rightarrow> False | Some p \<Rightarrow> p c)"

text \<open>\<open>hard\<close> is \<open>None\<close> in \<open>Draining\<close> when the first cancellation was a domain abort.\<close>

datatype ('p, 'e, 'v, 'c) config =
    Waiting "('e, 'v) run_state"
  | Draining "('e, 'v) run_state" "'c option" "'c option" "(nat \<times> ('e, 'v) ending) list"
  | Returned "('p, 'e, 'v) run_report"
  | Propagated 'c "(nat, ('e, 'v) node_result) dict"
  | Deadlocked

datatype ('e, 'v, 'c) run_event = Ended "(nat \<times> ('e, 'v) ending) list" | Interrupt 'c

definition start_ready ::
  "(nat set \<Rightarrow> nat list) \<Rightarrow> 'p graph \<Rightarrow> ('e, 'v) run_state \<Rightarrow> ('e, 'v) run_state" where
  "start_ready iter g st =
    (let st = settle iter g st in
     if rs_stop st then st
     else let (is, st) = take_ready g st in st\<lparr>rs_running := rs_running st @ is\<rparr>)"

text \<open>From the top of the loop to the next await or the end.\<close>

definition advance ::
  "(nat set \<Rightarrow> nat list) \<Rightarrow> string \<Rightarrow> 'p graph \<Rightarrow> ('e, 'v) run_state \<Rightarrow> ('p, 'e, 'v, 'c) config" where
  "advance iter name g st =
    (let st = start_ready iter g st in
     if rs_running st = [] then
       if rs_pending st \<noteq> [] \<and> \<not> rs_stop st then Deadlocked
       else Returned \<lparr>rr_name = name, rr_graph = g,
         rr_results = rs_results (cancel_pending (resolve_skips iter g st)), rr_aborted = False\<rparr>
     else Waiting st)"

text \<open>The drain is over once every in-flight task has ended.\<close>

definition drained ::
  "string \<Rightarrow> 'p graph \<Rightarrow> ('e, 'v) run_state \<Rightarrow> 'c option \<Rightarrow> 'c option \<Rightarrow> (nat \<times> ('e, 'v) ending) list
    \<Rightarrow> ('p, 'e, 'v, 'c) config" where
  "drained name g st hard declined ended =
    (if list_all (\<lambda>i. i \<in> set (map fst ended)) (rs_running st) then
       let st = cancel_pending (fold (\<lambda>i. record_end g (i, the (map_of ended i))) (rs_running st) st) in
       case hard of
         Some c \<Rightarrow> Propagated c (rs_results st)
       | None \<Rightarrow>
          (case declined of
             None \<Rightarrow> Returned \<lparr>rr_name = name, rr_graph = g, rr_results = rs_results st, rr_aborted = True\<rparr>
           | Some c \<Rightarrow> Propagated c (rs_results st))
     else Draining st hard declined ended)"

fun on_event ::
  "(nat set \<Rightarrow> nat list) \<Rightarrow> string \<Rightarrow> ('c \<Rightarrow> bool) option \<Rightarrow> 'p graph
    \<Rightarrow> ('p, 'e, 'v, 'c) config \<Rightarrow> ('e, 'v, 'c) run_event \<Rightarrow> ('p, 'e, 'v, 'c) config option" where
  "on_event iter name absorbed g (Waiting st) (Ended ends) =
    (if ends \<noteq> [] \<and> distinct (map fst ends) \<and> set (map fst ends) \<subseteq> set (rs_running st)
     then Some (advance iter name g (fold (record_end g) ends st)) else None)"
| "on_event iter name absorbed g (Waiting st) (Interrupt c) =
    Some (drained name g st (if claims absorbed c then None else Some c) None [])"
| "on_event iter name absorbed g (Draining st hard declined ended) (Ended ends) =
    (if ends \<noteq> [] \<and> distinct (map fst ends)
       \<and> set (map fst ends) \<subseteq> set (rs_running st) - set (map fst ended)
     then Some (drained name g st hard declined (ended @ ends)) else None)"
| "on_event iter name absorbed g (Draining st hard declined ended) (Interrupt c) =
    Some (Draining st hard
      (if declined = None \<and> \<not> claims (if hard = None then absorbed else None) c then Some c
       else declined) ended)"
| "on_event iter name absorbed g cfg ev = None"

definition run_step ::
  "(nat set \<Rightarrow> nat list) \<Rightarrow> string \<Rightarrow> ('c \<Rightarrow> bool) option \<Rightarrow> 'p graph
    \<Rightarrow> ('p, 'e, 'v, 'c) config \<Rightarrow> ('p, 'e, 'v, 'c) config \<Rightarrow> bool" where
  "run_step iter name absorbed g cfg cfg' \<longleftrightarrow> (\<exists>ev. on_event iter name absorbed g cfg ev = Some cfg')"

definition execute ::
  "(nat set \<Rightarrow> nat list) \<Rightarrow> string \<Rightarrow> 'p graph \<Rightarrow> (nat, ('e, 'v) node_result) dict
    \<Rightarrow> ('p, 'e, 'v, 'c) config" where
  "execute iter name g res = advance iter name g (init_state g res)"

subsection \<open>The run invariant\<close>

definition blocks :: "'p graph \<Rightarrow> (nat, ('e, 'v) node_result) dict \<Rightarrow> nat \<Rightarrow> bool" where
  "blocks g res d \<longleftrightarrow> (\<exists>r. map_of res d = Some r \<and> blocking g d r)"

definition may_dispatch :: "'p graph \<Rightarrow> (nat, ('e, 'v) node_result) dict \<Rightarrow> nat \<Rightarrow> bool" where
  "may_dispatch g res i \<longleftrightarrow> deps_of g i \<subseteq> set (dict_keys res) \<and> (\<forall>d\<in>hard_of g i. \<not> blocks g res d)
    \<and> n_override (node_of g i) = None"

text \<open>Why a node has the result it has.\<close>

definition explained ::
  "'p graph \<Rightarrow> (nat, ('e, 'v) node_result) dict \<Rightarrow> nat \<Rightarrow> ('e, 'v) node_result \<Rightarrow> bool" where
  "explained g res i r \<longleftrightarrow>
    (let by_override = (\<exists>ov. n_override (node_of g i) = Some ov \<and> r = override_result ov
           \<and> deps_of g i \<subseteq> set (dict_keys res))
     in case nr_status r of
       SOk \<Rightarrow> may_dispatch g res i \<and> nr_overridden r = None \<or> by_override
     | SFailed \<Rightarrow> may_dispatch g res i \<and> nr_overridden r = None
     | SSkipped \<Rightarrow> (\<exists>d\<in>hard_of g i. blocks g res d) \<or> by_override
     | SCancelled \<Rightarrow> nr_overridden r = None)"

definition run_inv :: "'p graph \<Rightarrow> ('e, 'v) run_state \<Rightarrow> bool" where
  "run_inv g st \<longleftrightarrow>
     distinct (dict_keys (rs_results st) @ rs_running st @ rs_pending st)
   \<and> set (dict_keys (rs_results st) @ rs_running st @ rs_pending st) = set (node_ids g)
   \<and> (\<forall>i\<in>set (rs_running st). may_dispatch g (rs_results st) i)
   \<and> (\<forall>i r. map_of (rs_results st) i = Some r \<longrightarrow> explained g (rs_results st) i r)
   \<and> (rs_stop st \<longleftrightarrow> (\<exists>i r. map_of (rs_results st) i = Some r \<and> nr_status r = SFailed
        \<and> n_on_failure (node_of g i) = Stop))"

lemma run_invD:
  assumes "run_inv g st"
  shows "distinct (dict_keys (rs_results st) @ rs_running st @ rs_pending st)"
    and "set (dict_keys (rs_results st) @ rs_running st @ rs_pending st) = set (node_ids g)"
    and "\<And>i. i \<in> set (rs_running st) \<Longrightarrow> may_dispatch g (rs_results st) i"
    and "\<And>i r. map_of (rs_results st) i = Some r \<Longrightarrow> explained g (rs_results st) i r"
    and "rs_stop st \<longleftrightarrow> (\<exists>i r. map_of (rs_results st) i = Some r \<and> nr_status r = SFailed
        \<and> n_on_failure (node_of g i) = Stop)"
  using assms unfolding run_inv_def by blast+

text \<open>Adding a result for a new node keeps what held of the old ones.\<close>

lemma blocks_set:
  "i \<notin> set (dict_keys res) \<Longrightarrow> d \<in> set (dict_keys res) \<Longrightarrow> blocks g (dict_set i r res) d = blocks g res d"
  by (auto simp: blocks_def)

lemma blocks_key: "blocks g res d \<Longrightarrow> d \<in> set (dict_keys res)"
  unfolding blocks_def using map_of_Some_key by fast

lemma may_dispatch_set:
  assumes "may_dispatch g res j" and "i \<notin> set (dict_keys res)" and "wf_graph g"
  shows "may_dispatch g (dict_set i r res) j"
proof -
  have "d \<in> set (dict_keys res)" if "d \<in> hard_of g j" for d
    using that assms(1) wf_graph_hard_deps [OF assms(3)] unfolding may_dispatch_def by blast
  then show ?thesis
    using assms blocks_set [OF assms(2)] unfolding may_dispatch_def dict_keys_set by blast
qed

lemma explained_set:
  assumes "explained g res j s" and "i \<notin> set (dict_keys res)" and "wf_graph g"
  shows "explained g (dict_set i r res) j s"
proof -
  have "blocks g (dict_set i r res) d" if "blocks g res d" for d
    using that blocks_set [OF assms(2)] blocks_key by blast
  moreover have "deps_of g j \<subseteq> set (dict_keys (dict_set i r res))" if "deps_of g j \<subseteq> set (dict_keys res)"
    using that unfolding dict_keys_set by blast
  ultimately show ?thesis
    using assms(1) may_dispatch_set [OF _ assms(2,3)]
    unfolding explained_def Let_def by (cases "nr_status s") auto
qed

text \<open>The one step every operation of the state is made of: a node gets its result.\<close>

lemma run_inv_result:
  assumes inv: "run_inv g st" and wf: "wf_graph g"
    and i: "i \<in> set (rs_running st) \<union> set (rs_pending st)"
    and r: "explained g (dict_set i r (rs_results st)) i r"
    and stop: "b \<longleftrightarrow> rs_stop st \<or> nr_status r = SFailed \<and> n_on_failure (node_of g i) = Stop"
  shows "run_inv g (st\<lparr>rs_results := dict_set i r (rs_results st),
      rs_running := filter (\<lambda>j. j \<noteq> i) (rs_running st),
      rs_pending := filter (\<lambda>j. j \<noteq> i) (rs_pending st), rs_stop := b\<rparr>)"
proof -
  let ?res = "rs_results st"
  note D = run_invD [OF inv]
  have fresh: "i \<notin> set (dict_keys ?res)" using D(1) i unfolding distinct_append set_append by blast
  have keys: "dict_keys (dict_set i r ?res) = dict_keys ?res @ [i]"
    unfolding dict_set_fresh [OF fresh] by simp
  have split: "distinct (xs @ ys @ zs) \<Longrightarrow> i \<notin> set xs \<Longrightarrow>
      distinct ((xs @ [i]) @ filter (\<lambda>j. j \<noteq> i) ys @ filter (\<lambda>j. j \<noteq> i) zs)" for xs ys zs :: "nat list"
    by auto
  have old: "map_of ?res j = Some s \<Longrightarrow> j \<noteq> i" for j s
    using fresh map_of_Some_key by fast
  show ?thesis
    unfolding run_inv_def
  proof (intro conjI allI impI ballI, goal_cases)
    case 1
    show ?case using split [OF D(1) fresh] by (simp add: keys)
  next
    case 2
    have "set (dict_keys ?res @ [i]) \<union> (set (rs_running st) - {i}) \<union> (set (rs_pending st) - {i})
        = set (node_ids g)"
      using D(2) i unfolding set_append by auto
    then show ?case by (simp add: keys set_diff_eq Un_assoc del: list.set_map)
  next
    case (3 j)
    then show ?case using may_dispatch_set [OF D(3) fresh wf] by simp
  next
    case (4 j s)
    then show ?case using explained_set [OF D(4) fresh wf] r by (auto split: if_splits)
  next
    case 5
    show ?case using stop D(5) old by (auto split: if_splits)
  qed
qed

lemma run_inv_settle_node:
  assumes "run_inv g st" and "wf_graph g" and "i \<in> set (rs_pending st)"
    and "explained g (dict_set i r (rs_results st)) i r" and "nr_status r \<noteq> SFailed"
  shows "run_inv g (settle_node i r st)"
proof -
  have "i \<notin> set (rs_running st)"
    using run_invD(1) [OF assms(1)] assms(3) unfolding distinct_append set_append by blast
  then have "filter (\<lambda>j. j \<noteq> i) (rs_running st) = rs_running st"
    by (intro filter_True) blast
  then show ?thesis
    using run_inv_result [OF assms(1,2) _ assms(4), of "rs_stop st"] assms(3,5)
    by (simp add: settle_node_def)
qed

subsection \<open>Settling keeps the invariant\<close>

definition iter_ok :: "(nat set \<Rightarrow> nat list) \<Rightarrow> bool" where
  "iter_ok iter \<longleftrightarrow> (\<forall>S. finite S \<longrightarrow> set (iter S) = S \<and> distinct (iter S))"

lemma iter_ok_sorted: "iter_ok sorted_list_of_set"
  by (simp add: iter_ok_def)

lemma wf_graph_finite_hard: "wf_graph g \<Longrightarrow> finite (hard_of g i)"
  using wf_graph_finite_deps wf_graph_hard_deps by (metis finite_subset subsetI)

lemma set_blockers:
  assumes "iter_ok iter" and "wf_graph g"
  shows "blockers iter g st i = [] \<longleftrightarrow> (\<forall>d\<in>hard_of g i. \<not> blocks g (rs_results st) d)"
  using assms(1) wf_graph_finite_hard [OF assms(2), of i]
  by (auto simp: blockers_def blocks_def iter_ok_def split: option.splits)

lemma set_blockers_hd:
  "r \<in> set (blockers iter g st i) \<Longrightarrow> \<exists>d. map_of (rs_results st) d = Some r \<and> blocking g d r"
  by (auto simp: blockers_def split: option.splits if_splits)

text \<open>What a settling operation leaves alone.\<close>

definition settles :: "('e, 'v) run_state \<Rightarrow> ('e, 'v) run_state \<Rightarrow> bool" where
  "settles st st' \<longleftrightarrow> rs_running st' = rs_running st \<and> rs_stop st' = rs_stop st
    \<and> set (rs_pending st') \<subseteq> set (rs_pending st)"

lemma settles_refl [simp]: "settles st st"
  by (simp add: settles_def)

lemma settles_trans: "settles s t \<Longrightarrow> settles t u \<Longrightarrow> settles s u"
  by (auto simp: settles_def)

lemma settles_node: "settles st (settle_node i r st)"
  by (auto simp: settles_def settle_node_def)

lemma skip_nodes_inv:
  fixes st :: "('e, 'v) run_state"
  assumes "iter_ok iter" and "wf_graph g"
    and "run_inv g st" and "set is \<subseteq> set (rs_pending st)" and "distinct is"
  shows "run_inv g (fst (skip_nodes iter g is st m)) \<and> settles st (fst (skip_nodes iter g is st m))"
  using assms(3-5)
proof (induction "is" arbitrary: st m)
  case (Cons i "is")
  show ?case
  proof (cases "blockers iter g st i")
    case Nil
    then show ?thesis using Cons.IH [OF Cons.prems(1)] Cons.prems(2,3) by simp
  next
    case bs: (Cons c cs)
    let ?r = "(result SSkipped)\<lparr>nr_overridden := excuse (c # cs)\<rparr> :: ('e, 'v) node_result"
    let ?st = "settle_node i ?r st"
    have i: "i \<in> set (rs_pending st)" using Cons.prems(2) by simp
    have "i \<notin> set (dict_keys (rs_results st))"
      using run_invD(1) [OF Cons.prems(1)] i unfolding distinct_append set_append by blast
    moreover obtain d where "d \<in> hard_of g i" and "blocks g (rs_results st) d"
      using set_blockers [OF assms(1,2)] bs by (metis list.distinct(1))
    ultimately have "\<exists>d\<in>hard_of g i. blocks g (dict_set i ?r (rs_results st)) d"
      using blocks_set blocks_key by blast
    then have "explained g (dict_set i ?r (rs_results st)) i ?r"
      unfolding explained_def Let_def by simp
    then have "run_inv g ?st" using run_inv_settle_node [OF Cons.prems(1) assms(2) i] by simp
    moreover have "set is \<subseteq> set (rs_pending ?st)" "distinct is"
      using Cons.prems(2,3) by (auto simp: settle_node_def)
    ultimately have "run_inv g (fst (skip_nodes iter g is ?st True))
        \<and> settles ?st (fst (skip_nodes iter g is ?st True))"
      by (rule Cons.IH)
    then show ?thesis using bs settles_trans [OF settles_node] by auto
  qed
qed simp

lemma override_nodes_inv:
  fixes st :: "('e, 'v) run_state"
  assumes "wf_graph g"
    and "run_inv g st" and "set is \<subseteq> set (rs_pending st)" and "distinct is"
  shows "run_inv g (fst (override_nodes g is st m)) \<and> settles st (fst (override_nodes g is st m))"
  using assms(2-4)
proof (induction "is" arbitrary: st m)
  case (Cons i "is")
  show ?case
  proof (cases "if ready g st i then n_override (node_of g i) else None")
    case None
    then show ?thesis using Cons.IH [OF Cons.prems(1)] Cons.prems(2,3) by simp
  next
    case (Some ov)
    let ?r = "override_result ov :: ('e, 'v) node_result"
    let ?st = "settle_node i ?r st"
    have i: "i \<in> set (rs_pending st)" using Cons.prems(2) by simp
    have "ready g st i" "n_override (node_of g i) = Some ov" using Some by (auto split: if_splits)
    then have "explained g (dict_set i ?r (rs_results st)) i ?r" and "nr_status ?r \<noteq> SFailed"
      unfolding explained_def Let_def ready_def dict_keys_set
      by (auto simp: override_result_def simp del: list.set_map split: override_outcome.splits)
    then have "run_inv g ?st" using run_inv_settle_node [OF Cons.prems(1) assms(1) i] by blast
    moreover have "set is \<subseteq> set (rs_pending ?st)" "distinct is"
      using Cons.prems(2,3) by (auto simp: settle_node_def)
    ultimately have "run_inv g (fst (override_nodes g is ?st True))
        \<and> settles ?st (fst (override_nodes g is ?st True))"
      by (rule Cons.IH)
    then show ?thesis using Some settles_trans [OF settles_node] by auto
  qed
qed simp

lemma skip_nodes_True: "snd (skip_nodes iter g is st True)"
  by (induction "is" arbitrary: st) (auto split: list.split)

lemma override_nodes_True: "snd (override_nodes g is st True)"
  by (induction "is" arbitrary: st) (auto split: option.split)

lemma skip_nodes_still:
  "\<not> snd (skip_nodes iter g is st False)
    \<Longrightarrow> fst (skip_nodes iter g is st False) = st \<and> (\<forall>i\<in>set is. blockers iter g st i = [])"
  by (induction "is") (auto simp: skip_nodes_True split: list.splits)

lemma override_nodes_still:
  "\<not> snd (override_nodes g is st False)
    \<Longrightarrow> fst (override_nodes g is st False) = st
      \<and> (\<forall>i\<in>set is. ready g st i \<longrightarrow> n_override (node_of g i) = None)"
  by (induction "is") (auto simp: override_nodes_True split: option.splits if_splits)

lemma run_inv_distinct_pending: "run_inv g st \<Longrightarrow> distinct (rs_pending st)"
  using run_invD(1) by fastforce

lemma skip_pass_inv:
  assumes "iter_ok iter" and "wf_graph g" and "run_inv g st"
  shows "run_inv g (fst (skip_pass iter g st)) \<and> settles st (fst (skip_pass iter g st))"
  unfolding skip_pass_def
  by (rule skip_nodes_inv [OF assms subset_refl run_inv_distinct_pending [OF assms(3)]])

lemma resolve_skips_inv:
  assumes "iter_ok iter" and "wf_graph g" and "run_inv g st"
  shows "run_inv g (resolve_skips iter g st) \<and> settles st (resolve_skips iter g st)
    \<and> (\<forall>i\<in>set (rs_pending (resolve_skips iter g st)). blockers iter g (resolve_skips iter g st) i = [])"
  using assms
proof (induction iter g st rule: resolve_skips.induct)
  case (1 iter g st)
  note pass = skip_pass_inv [OF "1.prems"]
  show ?case
  proof (cases "snd (skip_pass iter g st)")
    case True
    then have eq: "resolve_skips iter g st = resolve_skips iter g (fst (skip_pass iter g st))"
      by (subst resolve_skips.simps) simp
    show ?thesis
      unfolding eq using "1.IH" [OF True "1.prems"(1,2)] pass settles_trans by blast
  next
    case False
    then have none: "\<forall>i\<in>set (rs_pending st). blockers iter g st i = []"
      and same: "fst (skip_pass iter g st) = st"
      using skip_nodes_still [of iter g "rs_pending st" st] by (simp_all add: skip_pass_def)
    have eq: "resolve_skips iter g st = st"
      using False same by (subst resolve_skips.simps) simp
    show ?thesis
      unfolding eq using "1.prems"(3) none by simp
  qed
qed

lemma override_pass_inv:
  assumes "wf_graph g" and "run_inv g st"
  shows "run_inv g (fst (override_pass g st)) \<and> settles st (fst (override_pass g st))"
  unfolding override_pass_def
  by (rule override_nodes_inv [OF assms]) (simp_all add: run_inv_distinct_pending [OF assms(2)])

text \<open>Unless the run stops, settling leaves nothing blocked and nothing ready with an override.\<close>

lemma settle_inv:
  assumes "iter_ok iter" and "wf_graph g" and "run_inv g st"
  shows "run_inv g (settle iter g st) \<and> settles st (settle iter g st)
    \<and> (\<not> rs_stop st \<longrightarrow> (\<forall>i\<in>set (rs_pending (settle iter g st)).
         blockers iter g (settle iter g st) i = []
       \<and> (ready g (settle iter g st) i \<longrightarrow> n_override (node_of g i) = None)))"
  using assms
proof (induction iter g st rule: settle.induct)
  case (1 iter g st)
  let ?s = "resolve_skips iter g st"
  let ?t = "fst (override_pass g ?s)"
  note skips = resolve_skips_inv [OF "1.prems"]
  have over: "run_inv g ?t \<and> settles ?s ?t"
    using override_pass_inv [OF "1.prems"(2)] skips by blast
  have stop: "rs_stop ?s = rs_stop st" using skips by (simp add: settles_def)
  consider (stop) "rs_stop ?s" | (again) "\<not> rs_stop ?s" "snd (override_pass g ?s)"
    | (still) "\<not> rs_stop ?s" "\<not> snd (override_pass g ?s)" by blast
  then show ?case
  proof cases
    case stop
    then have eq: "settle iter g st = ?s" by (subst settle.simps) (simp add: Let_def)
    show ?thesis unfolding eq using skips stop \<open>rs_stop ?s = rs_stop st\<close> by blast
  next
    case again
    then have eq: "settle iter g st = settle iter g ?t" by (subst settle.simps) (simp add: Let_def)
    have "\<not> rs_stop ?t" using again(1) over by (simp add: settles_def)
    then show ?thesis
      unfolding eq using "1.IH" [OF refl again "1.prems"(1,2)] over skips settles_trans by blast
  next
    case still
    then have same: "?t = ?s" and no: "\<forall>i\<in>set (rs_pending ?s). ready g ?s i \<longrightarrow> n_override (node_of g i) = None"
      using override_nodes_still [of g "sort (rs_pending ?s)" ?s] by (simp_all add: override_pass_def)
    have eq: "settle iter g st = ?s" using still same by (subst settle.simps) (simp add: Let_def)
    show ?thesis unfolding eq using skips no by blast
  qed
qed

lemma take_ready_inv:
  assumes "iter_ok iter" and "wf_graph g" and inv: "run_inv g st"
    and free: "\<forall>i\<in>set (rs_pending st). blockers iter g st i = []
       \<and> (ready g st i \<longrightarrow> n_override (node_of g i) = None)"
    and take: "take_ready g st = (is, st')"
  shows "run_inv g (st'\<lparr>rs_running := rs_running st' @ is\<rparr>)"
proof -
  note D = run_invD [OF inv]
  have is_: "is = filter (ready g st) (sort (rs_pending st))"
    and st': "st' = st\<lparr>rs_pending := filter (\<lambda>j. j \<notin> set is) (rs_pending st)\<rparr>"
    using take by (auto simp: take_ready_def Let_def)
  have may: "may_dispatch g (rs_results st) i" if "i \<in> set is" for i
    using that free set_blockers [OF assms(1,2)] unfolding is_ may_dispatch_def ready_def by fastforce
  have sub: "set is \<subseteq> set (rs_pending st)" and dist: "distinct is"
    using run_inv_distinct_pending [OF inv] unfolding is_ by auto
  have "distinct (dict_keys (rs_results st) @ (rs_running st @ is) @ filter (\<lambda>j. j \<notin> set is) (rs_pending st))"
    using D(1) sub dist unfolding distinct_append set_append set_filter by (blast intro: distinct_filter)
  moreover have "set (dict_keys (rs_results st) @ (rs_running st @ is) @ filter (\<lambda>j. j \<notin> set is) (rs_pending st))
      = set (node_ids g)"
    using D(2) sub unfolding set_append set_filter by blast
  moreover have "\<forall>i\<in>set (rs_running st @ is). may_dispatch g (rs_results st) i"
    using D(3) may by auto
  ultimately show ?thesis
    unfolding run_inv_def st' using D(4,5) by simp
qed

lemma start_ready_inv:
  assumes "iter_ok iter" and "wf_graph g" and "run_inv g st"
  shows "run_inv g (start_ready iter g st)
    \<and> set (rs_running st) \<subseteq> set (rs_running (start_ready iter g st))
    \<and> (rs_stop st \<longrightarrow> rs_running (start_ready iter g st) = rs_running st)
    \<and> rs_stop (start_ready iter g st) = rs_stop st
    \<and> (\<not> rs_stop st \<longrightarrow> (\<forall>i\<in>set (rs_pending (start_ready iter g st)).
          \<not> deps_of g i \<subseteq> set (dict_keys (rs_results (start_ready iter g st)))))"
proof -
  let ?s = "settle iter g st"
  note S = settle_inv [OF assms]
  have run: "rs_running ?s = rs_running st" and stop: "rs_stop ?s = rs_stop st"
    using S by (simp_all add: settles_def)
  show ?thesis
  proof (cases "rs_stop st")
    case True
    then show ?thesis using S run stop by (simp add: start_ready_def Let_def)
  next
    case False
    obtain "is" st' where take: "take_ready g ?s = (is, st')" by fastforce
    have eq: "start_ready iter g st = st'\<lparr>rs_running := rs_running st' @ is\<rparr>"
      using False stop take by (simp add: start_ready_def Let_def)
    have "run_inv g (start_ready iter g st)"
      unfolding eq using take_ready_inv [OF assms(1,2) _ _ take] S False by blast
    moreover have "\<forall>i\<in>set (rs_pending st'). \<not> ready g ?s i"
      and "rs_results st' = rs_results ?s" "rs_running st' = rs_running ?s" "rs_stop st' = rs_stop ?s"
      using take by (auto simp: take_ready_def Let_def)
    ultimately show ?thesis
      using False run stop unfolding ready_def eq by (simp del: list.set_map set_map)
  qed
qed

lemma record_end_simps [simp]:
  "rs_running (record_end g (i, en) st) = filter (\<lambda>j. j \<noteq> i) (rs_running st)"
  "rs_pending (record_end g (i, en) st) = rs_pending st"
  by (cases en; simp add: Let_def)+

declare record_end.simps [simp del]

lemma record_end_inv:
  assumes "wf_graph g" and inv: "run_inv g st" and i: "i \<in> set (rs_running st)"
  shows "run_inv g (record_end g (i, en) st)"
proof -
  note D = run_invD [OF inv]
  have fresh: "i \<notin> set (dict_keys (rs_results st))" and "i \<notin> set (rs_pending st)"
    using D(1) i unfolding distinct_append set_append by blast+
  then have pend: "filter (\<lambda>j. j \<noteq> i) (rs_pending st) = rs_pending st"
    by (intro filter_True) blast
  have may: "may_dispatch g (dict_set i r (rs_results st)) i" for r
    by (rule may_dispatch_set [OF D(3) [OF i] fresh assms(1)])
  let ?r = "case en of Finished v \<Rightarrow> (result SOk)\<lparr>nr_value := Some v\<rparr>
    | Raised e \<Rightarrow> (result SFailed)\<lparr>nr_error := Some e\<rparr> | WasCancelled \<Rightarrow> result SCancelled"
  have "explained g (dict_set i ?r (rs_results st)) i ?r"
    using may by (cases en) (simp_all add: explained_def Let_def)
  from run_inv_result [OF inv assms(1) _ this refl] i
  show ?thesis unfolding pend by (cases en) (simp_all add: record_end.simps Let_def)
qed

lemma fold_record_end:
  assumes "wf_graph g" and "run_inv g st"
    and "distinct (map fst ends)" and "set (map fst ends) \<subseteq> set (rs_running st)"
  shows "run_inv g (fold (record_end g) ends st)
    \<and> rs_running (fold (record_end g) ends st) = filter (\<lambda>j. j \<notin> set (map fst ends)) (rs_running st)
    \<and> rs_pending (fold (record_end g) ends st) = rs_pending st"
  using assms(2-4)
proof (induction ends arbitrary: st)
  case (Cons e ends)
  obtain i en where e: "e = (i, en)" by fastforce
  have "run_inv g (record_end g e st)"
    unfolding e using Cons.prems(3) by (intro record_end_inv [OF assms(1) Cons.prems(1)]) (simp add: e)
  moreover have "set (map fst ends) \<subseteq> set (rs_running (record_end g e st))"
    using Cons.prems(2,3) by (auto simp: e)
  ultimately show ?case
    using Cons.IH [of "record_end g e st"] Cons.prems(2) by (simp add: e conj_commute)
qed simp

lemma cancel_pending_inv:
  assumes "wf_graph g" and "run_inv g st"
  shows "run_inv g (cancel_pending st)"
  using assms(2)
proof (induction "rs_pending st" arbitrary: st)
  case Nil
  then have "cancel_pending st = st" by (simp add: cancel_pending_def)
  with Nil show ?case by simp
next
  case (Cons i "is")
  let ?st = "settle_node i (result SCancelled) st"
  have "i \<notin> set is" using run_inv_distinct_pending [OF Cons.prems] Cons.hyps(2) by (metis distinct.simps(2))
  then have "filter (\<lambda>j. j \<noteq> i) is = is" by (intro filter_True) blast
  then have pend: "is = rs_pending ?st"
    unfolding settle_node_def using Cons.hyps(2) [symmetric] by simp
  have "cancel_pending ?st = cancel_pending st"
    using pend [symmetric] Cons.hyps(2) [symmetric] by (simp add: cancel_pending_def settle_node_def)
  moreover have "run_inv g ?st"
    using Cons.hyps(2) [symmetric]
    by (intro run_inv_settle_node [OF Cons.prems assms(1)]) (simp_all add: explained_def)
  ultimately show ?case using Cons.hyps(1) [OF pend] by simp
qed

lemma cancel_pending_simps [simp]:
  "rs_pending (cancel_pending st) = []" "rs_running (cancel_pending st) = rs_running st"
  by (simp_all add: cancel_pending_def)

subsection \<open>Configurations of a run\<close>

definition all_accounted :: "'p graph \<Rightarrow> (nat, ('e, 'v) node_result) dict \<Rightarrow> bool" where
  "all_accounted g res \<longleftrightarrow> distinct (dict_keys res) \<and> set (dict_keys res) = set (node_ids g)
    \<and> (\<forall>i r. map_of res i = Some r \<longrightarrow> explained g res i r)"

fun config_inv :: "'p graph \<Rightarrow> ('p, 'e, 'v, 'c) config \<Rightarrow> bool" where
  "config_inv g (Waiting st) \<longleftrightarrow> run_inv g st \<and> rs_running st \<noteq> []"
| "config_inv g (Draining st hard declined ended) \<longleftrightarrow> run_inv g st
     \<and> set (map fst ended) \<subset> set (rs_running st) \<and> distinct (map fst ended)"
| "config_inv g (Returned rep) \<longleftrightarrow> rr_graph rep = g \<and> all_accounted g (rr_results rep)"
| "config_inv g (Propagated c res) \<longleftrightarrow> all_accounted g res"
| "config_inv g Deadlocked \<longleftrightarrow> False"

lemma run_inv_finished:
  assumes "wf_graph g" and "run_inv g st" and "rs_running st = []"
  shows "all_accounted g (rs_results (cancel_pending st))"
  using run_invD [OF cancel_pending_inv [OF assms(1,2)]] assms(3) unfolding all_accounted_def by simp

lemma init_inv: "wf_graph g \<Longrightarrow> run_inv g (init_state g [])"
  by (simp add: run_inv_def init_state_def)

lemma drained_inv:
  assumes "wf_graph g" and "run_inv g st"
    and "distinct (map fst ended)" and "set (map fst ended) \<subseteq> set (rs_running st)"
  shows "config_inv g (drained name g st hard declined ended)"
proof (cases "list_all (\<lambda>i. i \<in> set (map fst ended)) (rs_running st)")
  case True
  let ?ends = "map (\<lambda>i. (i, the (map_of ended i))) (rs_running st)"
  let ?st = "fold (record_end g) ?ends st"
  have eq: "fold (\<lambda>i. record_end g (i, the (map_of ended i))) (rs_running st) st = ?st"
    by (simp add: fold_map comp_def)
  have "distinct (rs_running st)" using run_invD(1) [OF assms(2)] by simp
  then have "run_inv g ?st \<and> rs_running ?st = []"
    using fold_record_end [OF assms(1,2), of ?ends] by (simp add: comp_def)
  then have "all_accounted g (rs_results (cancel_pending ?st))"
    using run_inv_finished [OF assms(1)] by blast
  then show ?thesis
    using True by (auto simp: drained_def eq Let_def split: option.split)
next
  case False
  then show ?thesis using assms(2-4) by (auto simp: drained_def list_all_iff)
qed

context graph_source
begin

text \<open>A graph the source yields never leaves the runner with nothing in flight and work left.\<close>

lemma advance_inv:
  assumes "yields g" and "iter_ok iter" and "run_inv g st"
  shows "config_inv g (advance iter name g st)"
proof -
  have wf: "wf_graph g" by (rule yields_wf [OF assms(1)])
  let ?s = "start_ready iter g st"
  note S = start_ready_inv [OF assms(2) wf assms(3)]
  have inv: "run_inv g ?s" using S by blast
  show ?thesis
  proof (cases "rs_running ?s = []")
    case True
    have "rs_pending ?s = [] \<or> rs_stop ?s"
    proof (rule ccontr)
      assume neg: "\<not> (rs_pending ?s = [] \<or> rs_stop ?s)"
      let ?P = "set (rs_pending ?s)"
      have ids: "set (dict_keys (rs_results ?s)) \<union> ?P = set (node_ids g)"
        using run_invD(2) [OF inv] True by (simp del: list.set_map set_map)
      then obtain i where "i \<in> ?P" "deps_of g i \<inter> ?P = {}"
        using first_unblocked [OF assms(1), of ?P] neg by (metis Un_upper2 set_empty)
      then have "deps_of g i \<subseteq> set (dict_keys (rs_results ?s))"
        using ids wf_graph_dep_node [OF wf] by blast
      then show False using S neg \<open>i \<in> ?P\<close> by blast
    qed
    moreover have "all_accounted g (rs_results (cancel_pending (resolve_skips iter g ?s)))"
    proof (rule run_inv_finished [OF wf])
      show "run_inv g (resolve_skips iter g ?s)" using resolve_skips_inv [OF assms(2) wf inv] by blast
      show "rs_running (resolve_skips iter g ?s) = []"
        using resolve_skips_inv [OF assms(2) wf inv] True by (simp add: settles_def)
    qed
    ultimately show ?thesis using True by (auto simp: advance_def Let_def)
  next
    case False
    then show ?thesis using inv by (simp add: advance_def Let_def)
  qed
qed

lemma config_inv_event:
  assumes "yields g" and "iter_ok iter" and "config_inv g cfg"
    and "on_event iter name absorbed g cfg ev = Some cfg'"
  shows "config_inv g cfg'"
proof -
  have wf: "wf_graph g" by (rule yields_wf [OF assms(1)])
  consider (wait) st ends where "cfg = Waiting st" "ev = Ended ends"
    | (abort) st c where "cfg = Waiting st" "ev = Interrupt c"
    | (drain) st hard declined ended ends where "cfg = Draining st hard declined ended" "ev = Ended ends"
    | (again) st hard declined ended c where "cfg = Draining st hard declined ended" "ev = Interrupt c"
    using assms(4) by (cases cfg; cases ev) auto
  then show ?thesis
  proof cases
    case wait
    then have "run_inv g st" "distinct (map fst ends)" "set (map fst ends) \<subseteq> set (rs_running st)"
      and eq: "cfg' = advance iter name g (fold (record_end g) ends st)"
      using assms(3,4) by (auto split: if_splits)
    then have "run_inv g (fold (record_end g) ends st)" using fold_record_end [OF wf] by blast
    then show ?thesis unfolding eq by (rule advance_inv [OF assms(1,2)])
  next
    case abort
    then have "run_inv g st" and eq: "cfg' = drained name g st (if claims absorbed c then None else Some c) None []"
      using assms(3,4) by auto
    then show ?thesis unfolding eq by (intro drained_inv [OF wf]) auto
  next
    case drain
    then have "run_inv g st" "distinct (map fst (ended @ ends))"
        "set (map fst (ended @ ends)) \<subseteq> set (rs_running st)"
      and eq: "cfg' = drained name g st hard declined (ended @ ends)"
      using assms(3,4) by (auto split: if_splits)
    then show ?thesis unfolding eq by (intro drained_inv [OF wf]) auto
  next
    case again
    then show ?thesis using assms(3,4) by auto
  qed
qed

end

subsection \<open>Runs as a step system\<close>

record ('p, 'e, 'v, 'c) run =
  r_iter :: "nat set \<Rightarrow> nat list"
  r_name :: string
  r_absorbed :: "('c \<Rightarrow> bool) option"
  r_graph :: "'p graph"
  r_config :: "('p, 'e, 'v, 'c) config"

definition run_start :: "('p, 'e, 'v, 'c) run \<Rightarrow> bool" where
  "run_start r \<longleftrightarrow> iter_ok (r_iter r) \<and> built_graph (r_graph r)
    \<and> r_config r = execute (r_iter r) (r_name r) (r_graph r) []"

definition run_next :: "('p, 'e, 'v, 'c) run \<Rightarrow> ('p, 'e, 'v, 'c) run \<Rightarrow> bool" where
  "run_next r r' \<longleftrightarrow> (\<exists>cfg. run_step (r_iter r) (r_name r) (r_absorbed r) (r_graph r) (r_config r) cfg
    \<and> r' = r\<lparr>r_config := cfg\<rparr>)"

definition run_good :: "('p, 'e, 'v, 'c) run \<Rightarrow> bool" where
  "run_good r \<longleftrightarrow> iter_ok (r_iter r) \<and> built_graph (r_graph r) \<and> config_inv (r_graph r) (r_config r)"

lemma run_good_start: "run_start r \<Longrightarrow> run_good r"
  unfolding run_start_def run_good_def execute_def
  using built.advance_inv built.yields_wf init_inv by metis

lemma run_good_next: "run_good r \<Longrightarrow> run_next r r' \<Longrightarrow> run_good r'"
  unfolding run_next_def run_good_def run_step_def
  using built.config_inv_event by fastforce

interpretation runs: step_invariant run_start run_next run_good
  by (rule step_invariant.intro) (blast intro: run_good_start run_good_next)+

text \<open>A cancellation that changes nothing (a second abort while draining) is not progress.\<close>

definition run_progress :: "('p, 'e, 'v, 'c) run \<Rightarrow> ('p, 'e, 'v, 'c) run \<Rightarrow> bool" where
  "run_progress r r' \<longleftrightarrow> run_next r r' \<and> r_config r' \<noteq> r_config r"

fun config_size :: "('p, 'e, 'v, 'c) config \<Rightarrow> nat" where
  "config_size (Waiting st) = length (rs_running st) + length (rs_pending st) + 3"
| "config_size (Draining st hard declined ended) =
    length (rs_running st) - length ended + (if declined = None then 2 else 1)"
| "config_size cfg = 0"

lemma start_ready_work:
  assumes "iter_ok iter" and "wf_graph g" and "run_inv g st"
  shows "length (rs_running (start_ready iter g st)) + length (rs_pending (start_ready iter g st))
    \<le> length (rs_running st) + length (rs_pending st)"
proof -
  let ?s = "start_ready iter g st"
  let ?u = "settle iter g st"
  have S: "settles st ?u" using settle_inv [OF assms] by blast
  have "set (rs_running ?s @ rs_pending ?s) \<subseteq> set (rs_running ?u @ rs_pending ?u)"
    by (auto simp: start_ready_def take_ready_def Let_def)
  also have "\<dots> \<subseteq> set (rs_running st @ rs_pending st)" using S by (auto simp: settles_def)
  finally have sub: "set (rs_running ?s @ rs_pending ?s) \<subseteq> set (rs_running st @ rs_pending st)" .
  have "run_inv g ?s" using start_ready_inv [OF assms] by blast
  then have "distinct (rs_running ?s @ rs_pending ?s)" and "distinct (rs_running st @ rs_pending st)"
    using run_invD(1) assms(3) by (metis distinct_append)+
  then show ?thesis
    using card_mono [OF List.finite_set sub] by (simp only: distinct_card length_append)
qed

lemma size_drained:
  assumes "set (map fst ended) \<subseteq> set (rs_running st)" "distinct (map fst ended)"
  shows "config_size (drained name g st hard declined ended) \<le> config_size (Draining st hard declined ended)"
  by (auto simp: drained_def Let_def split: option.split)

lemma ended_size:
  assumes it: "iter_ok iter" and wf: "wf_graph g" and inv: "config_inv g cfg"
    and ev: "on_event iter name absorbed g cfg (Ended ends) = Some cfg'"
  shows "config_size cfg' < config_size cfg"
proof (cases cfg)
  case (Waiting st)
  let ?t = "fold (record_end g) ends st"
  have st: "run_inv g st" "ends \<noteq> []" "distinct (map fst ends)" "set (map fst ends) \<subseteq> set (rs_running st)"
    and eq: "cfg' = advance iter name g ?t"
    using ev inv Waiting by (auto split: if_splits)
  note T = fold_record_end [OF wf st(1,3,4)]
  obtain e es where "ends = e # es" using st(2) by (cases ends) auto
  then have "fst e \<in> set (rs_running st)" "fst e \<notin> set (filter (\<lambda>j. j \<notin> set (map fst ends)) (rs_running st))"
    using st(4) by auto
  then have "length (rs_running ?t) < length (rs_running st)"
    using T \<open>ends = e # es\<close> by (metis (no_types, lifting) length_filter_less list.set_intros(1) list.simps(9))
  moreover have "config_size cfg' \<le> length (rs_running ?t) + length (rs_pending ?t) + 3"
    using start_ready_work [OF it wf, of ?t] T unfolding eq advance_def Let_def by auto
  ultimately show ?thesis using T Waiting by simp
next
  case (Draining st hard declined ended)
  have sub: "ends \<noteq> []" "distinct (map fst (ended @ ends))" "set (map fst (ended @ ends)) \<subseteq> set (rs_running st)"
    and "run_inv g st"
    and eq: "cfg' = drained name g st hard declined (ended @ ends)"
    using ev inv Draining by (auto split: if_splits)
  have "length (ended @ ends) \<le> length (rs_running st)"
    using sub(2,3) card_mono [OF _ sub(3)] run_invD(1) [OF \<open>run_inv g st\<close>]
    by (metis List.finite_set distinct_append distinct_card length_map)
  then have "config_size (Draining st hard declined (ended @ ends)) < config_size (Draining st hard declined ended)"
    using sub(1) by (cases ends) auto
  then show ?thesis
    unfolding eq Draining by (rule le_less_trans [OF size_drained [OF sub(3,2)]])
qed (use ev in simp_all)

lemma run_size_step:
  fixes r r' :: "('a, 'b, 'c, 'd) run"
  assumes good: "run_good r" and "run_progress r r'"
  shows "config_size (r_config r') < config_size (r_config r)"
proof -
  let ?g = "r_graph r"
  have wf: "wf_graph ?g" and it: "iter_ok (r_iter r)" and inv: "config_inv ?g (r_config r)"
    using good built.yields_wf unfolding run_good_def by blast+
  obtain ev where ev: "on_event (r_iter r) (r_name r) (r_absorbed r) ?g (r_config r) ev = Some (r_config r')"
    and ne: "r_config r' \<noteq> r_config r"
    using assms(2) unfolding run_progress_def run_next_def run_step_def by auto
  consider (ended) ends where "ev = Ended ends"
    | (abort) st c where "r_config r = Waiting st" "ev = Interrupt c"
    | (again) st hard declined ended c where "r_config r = Draining st hard declined ended" "ev = Interrupt c"
    using ev by (cases "r_config r"; cases ev) auto
  then show ?thesis
  proof cases
    case ended
    then show ?thesis using ended_size [OF it wf inv] ev by blast
  next
    case abort
    then have "r_config r' = drained (r_name r) ?g st (if claims (r_absorbed r) c then None else Some c) None []"
      using ev by simp
    moreover have "config_size (drained (r_name r) ?g st hard None []) < config_size (Waiting st)" for hard :: "'d option"
      using size_drained [of "[]" st "r_name r" ?g hard None] by simp
    ultimately show ?thesis using abort by simp
  next
    case again
    then have eq: "r_config r' = Draining st hard
      (if declined = None \<and> \<not> claims (if hard = None then r_absorbed r else None) c then Some c
       else declined) ended"
      using ev by simp
    show ?thesis using ne unfolding eq again(1) by (auto split: if_splits)
  qed
qed

interpretation bounded_runs: decreasing_steps run_start run_progress run_good "\<lambda>r. config_size (r_config r)"
proof (unfold_locales, goal_cases)
  case (1 s)
  then show ?case by (rule run_good_start)
next
  case (2 s t)
  then show ?case using run_good_next unfolding run_progress_def by blast
next
  case (3 s t)
  then show ?case by (rule run_size_step)
qed

subsection \<open>Every run can end\<close>

lemma run_has_event:
  assumes "run_good r" and "\<not> (\<exists>rep. r_config r = Returned rep) \<and> \<not> (\<exists>c res. r_config r = Propagated c res)"
  shows "\<exists>r'. run_progress r r'"
proof -
  let ?g = "r_graph r"
  have inv: "config_inv ?g (r_config r)" using assms(1) unfolding run_good_def by blast
  have "\<exists>ev cfg. on_event (r_iter r) (r_name r) (r_absorbed r) ?g (r_config r) ev = Some cfg
      \<and> (\<exists>ends. ev = Ended ends)"
  proof (cases "r_config r")
    case (Waiting st)
    then have "rs_running st \<noteq> []" using inv by simp
    then have "on_event (r_iter r) (r_name r) (r_absorbed r) ?g (r_config r)
        (Ended [(hd (rs_running st), WasCancelled)]) \<noteq> None"
      using Waiting by simp
    then show ?thesis by blast
  next
    case (Draining st hard declined ended)
    then obtain i where "i \<in> set (rs_running st) - set (map fst ended)" using inv by auto
    then have "on_event (r_iter r) (r_name r) (r_absorbed r) ?g (r_config r) (Ended [(i, WasCancelled)]) \<noteq> None"
      using Draining by simp
    then show ?thesis by blast
  qed (use inv assms(2) in auto)
  then obtain ends cfg where ev: "on_event (r_iter r) (r_name r) (r_absorbed r) ?g (r_config r) (Ended ends) = Some cfg"
    by blast
  have "cfg \<noteq> r_config r"
  proof (cases "r_config r")
    case (Waiting st)
    have wf: "wf_graph ?g" "iter_ok (r_iter r)" using assms(1) built.yields_wf unfolding run_good_def by blast+
    have st: "run_inv ?g st" "ends \<noteq> []" "distinct (map fst ends)" "set (map fst ends) \<subseteq> set (rs_running st)"
      and eq: "cfg = advance (r_iter r) (r_name r) ?g (fold (record_end ?g) ends st)"
      using ev inv Waiting by (auto split: if_splits)
    let ?t = "fold (record_end ?g) ends st"
    obtain e es where e: "ends = e # es" using st(2) by (cases ends) auto
    have T: "run_inv ?g ?t" "rs_running ?t = filter (\<lambda>j. j \<notin> set (map fst ends)) (rs_running st)"
        "rs_pending ?t = rs_pending st"
      using fold_record_end [OF wf(1) st(1,3,4)] by blast+
    have "length (rs_running ?t) < length (rs_running st)"
      unfolding T(2) using e st(4) by (intro length_filter_less [of "fst e"]) auto
    then have "start_ready (r_iter r) ?g ?t \<noteq> st"
      using start_ready_work [OF wf(2,1) T(1)] T(3) by fastforce
    then show ?thesis unfolding eq Waiting by (auto simp: advance_def Let_def)
  next
    case (Draining st hard declined ended)
    then show ?thesis using ev by (auto simp: drained_def Let_def split: if_splits option.splits)
  qed (use ev in auto)
  then show ?thesis
    using ev unfolding run_progress_def run_next_def run_step_def
    by (intro exI [of _ "r\<lparr>r_config := cfg\<rparr>"]) auto
qed

lemma run_reaches_end:
  "run_good r \<Longrightarrow> \<exists>r'. run_next\<^sup>*\<^sup>* r r' \<and>
    ((\<exists>rep. r_config r' = Returned rep) \<or> (\<exists>c res. r_config r' = Propagated c res))"
proof (induction "config_size (r_config r)" arbitrary: r rule: less_induct)
  case less
  show ?case
  proof (cases "(\<exists>rep. r_config r = Returned rep) \<or> (\<exists>c res. r_config r = Propagated c res)")
    case False
    then obtain s where s: "run_progress r s" using run_has_event [OF less.prems] by blast
    then have "run_next r s" and "run_good s"
      using run_good_next less.prems unfolding run_progress_def by blast+
    then show ?thesis
      using less.hyps [OF run_size_step [OF less.prems s]] by (meson converse_rtranclp_into_rtranclp)
  qed blast
qed

subsection \<open>The root of a skip\<close>

definition hard_edges :: "'p graph \<Rightarrow> (nat \<times> nat) set" where
  "hard_edges g = {(d, i). d \<in> hard_of g i}"

text \<open>A node that did not succeed on its own account: it failed, was cancelled, or its override
  says so.\<close>

definition own_account :: "'p graph \<Rightarrow> nat \<Rightarrow> ('e, 'v) node_result \<Rightarrow> bool" where
  "own_account g d r \<longleftrightarrow> nr_status r = SFailed \<or> nr_status r = SCancelled
    \<or> (\<exists>ov. n_override (node_of g d) = Some ov \<and> ov_outcome ov = OvSkipped \<and> r = override_result ov)"

lemma wf_waits_for:
  assumes "built_graph g"
  shows "wf (waits_for g)"
proof (rule finite_acyclic_wf)
  have "waits_for g \<subseteq> set (node_ids g) \<times> set (node_ids g)"
    using wf_graph_dep_node wf_graph_deps_outside built.yields_wf [OF assms]
    unfolding waits_for_def by blast
  then show "finite (waits_for g)" by (rule finite_subset) simp
  show "acyclic (waits_for g)"
    using built.yields_order [OF assms] topo_order_iff_acyclic [OF built.yields_wf [OF assms]] by blast
qed

lemma skip_has_root:
  assumes "built_graph g" and acc: "all_accounted g res"
  shows "map_of res i = Some r \<Longrightarrow> nr_status r = SSkipped \<Longrightarrow>
    \<exists>d s. (d, i) \<in> (hard_edges g)\<^sup>* \<and> map_of res d = Some s \<and> own_account g d s"
proof (induction i arbitrary: r rule: wf_induct_rule [OF wf_waits_for [OF assms(1)]])
  case (1 i)
  have "explained g res i r" using acc 1(2) unfolding all_accounted_def by blast
  then consider (hard) d where "d \<in> hard_of g i" "blocks g res d"
    | (own) ov where "n_override (node_of g i) = Some ov" "r = override_result ov"
    using 1(3) unfolding explained_def Let_def by auto
  then show ?case
  proof cases
    case hard
    then obtain s where s: "map_of res d = Some s" "nr_status s \<noteq> SOk"
      unfolding blocks_def blocking_def by blast
    have edge: "(d, i) \<in> hard_edges g" using hard(1) by (simp add: hard_edges_def)
    have dep: "(d, i) \<in> waits_for g"
      using hard(1) wf_graph_hard_deps [OF built.yields_wf [OF assms(1)]] by (simp add: waits_for_def)
    show ?thesis
    proof (cases "nr_status s = SSkipped")
      case True
      then show ?thesis using 1(1) [OF dep s(1)] edge by (meson rtrancl_into_rtrancl)
    next
      case False
      then have "own_account g d s" using s(2) by (cases "nr_status s") (auto simp: own_account_def)
      then show ?thesis using edge s(1) by blast
    qed
  next
    case own
    then have "own_account g i r"
      using 1(3) by (auto simp: own_account_def override_result_def split: override_outcome.splits)
    then show ?thesis using 1(2) by blast
  qed
qed

subsection \<open>Properties\<close>

text \<open>C1. No node is dispatched early: in every reachable state of a run of a built graph, each
  in-flight node has all its dependencies resolved, each of its hard dependencies succeeded or
  declared \<open>continue\<close>, and it carries no override.\<close>

theorem dispatch_after_dependencies:
  assumes "run_start r" and "run_next\<^sup>*\<^sup>* r s"
    and "r_config s = Waiting st \<or> r_config s = Draining st hard declined ended"
    and "i \<in> set (rs_running st)"
  shows "(\<forall>d\<in>deps_of (r_graph s) i. \<exists>q. map_of (rs_results st) d = Some q)
    \<and> (\<forall>d\<in>hard_of (r_graph s) i. \<exists>q. map_of (rs_results st) d = Some q
         \<and> (nr_status q = SOk \<or> n_on_failure (node_of (r_graph s) d) = Continue))
    \<and> n_override (node_of (r_graph s) i) = None"
proof -
  have good: "run_good s" by (rule runs.reachable_inv [OF assms(1,2)])
  have wf: "wf_graph (r_graph s)" using good built.yields_wf unfolding run_good_def by blast
  have "run_inv (r_graph s) st" using good assms(3) unfolding run_good_def by auto
  from run_invD(3) [OF this assms(4)]
  have may: "may_dispatch (r_graph s) (rs_results st) i" .
  then have deps: "\<exists>q. map_of (rs_results st) d = Some q" if "d \<in> deps_of (r_graph s) i" for d
    using that ex_map_of unfolding may_dispatch_def by fast
  have "\<exists>q. map_of (rs_results st) d = Some q
      \<and> (nr_status q = SOk \<or> n_on_failure (node_of (r_graph s) d) = Continue)"
    if "d \<in> hard_of (r_graph s) i" for d
    using deps [OF wf_graph_hard_deps [OF wf that]] may that
    unfolding may_dispatch_def blocks_def blocking_def by blast
  then show ?thesis using deps may unfolding may_dispatch_def by blast
qed

text \<open>C2. A run of a built graph never deadlocks, and however it ends (done, aborted, or with a
  cancellation propagating) every node has exactly one recorded result, which its dependencies,
  its override or the environment explain.\<close>

theorem run_accounts_for_every_node:
  assumes "run_start r" and "run_next\<^sup>*\<^sup>* r s"
  shows "r_config s \<noteq> Deadlocked
    \<and> (\<forall>rep. r_config s = Returned rep \<longrightarrow> rr_graph rep = r_graph s \<and> all_accounted (r_graph s) (rr_results rep))
    \<and> (\<forall>c res. r_config s = Propagated c res \<longrightarrow> all_accounted (r_graph s) res)"
proof -
  have "config_inv (r_graph s) (r_config s)"
    using runs.reachable_inv [OF assms] unfolding run_good_def by blast
  then show ?thesis by (cases "r_config s") auto
qed

text \<open>C23. A run makes at most three more configuration changes than the graph has nodes, whatever
  the order and the number of cancellations.\<close>

theorem run_length_bounded:
  assumes "run_start r" and "(run_progress ^^ n) r s"
  shows "n \<le> length (g_nodes (r_graph r)) + 3"
proof -
  have wf: "wf_graph (r_graph r)" and it: "iter_ok (r_iter r)"
    using assms(1) built.yields_wf unfolding run_start_def by blast+
  let ?st = "init_state (r_graph r) [] :: ('b, 'c) run_state"
  have init: "run_inv (r_graph r) ?st" by (rule init_inv [OF wf])
  have "n \<le> config_size (r_config r)"
    using bounded_runs.run_bounded [OF assms] .
  also have "\<dots> \<le> length (rs_running ?st) + length (rs_pending ?st) + 3"
    using start_ready_work [OF it wf init] assms(1)
    by (auto simp: run_start_def execute_def advance_def Let_def)
  also have "\<dots> \<le> length (g_nodes (r_graph r)) + 3"
    using length_remdups_leq [of "rev (node_ids (r_graph r))"] by (simp add: init_state_def dedup_def)
  finally show ?thesis .
qed


text \<open>C27. Once a node with \<open>on_failure="stop"\<close> has failed, nothing more is dispatched: the nodes
  in flight afterwards were in flight before.\<close>

theorem stop_ends_dispatch:
  fixes r s t :: "('p, 'e, 'v, 'c) run"
  assumes "run_start r" and "run_next\<^sup>*\<^sup>* r s" and "run_next s t"
    and "r_config s = Waiting st" and "r_config t = Waiting st'"
    and "map_of (rs_results st') i = Some q" and "nr_status q = SFailed"
    and "n_on_failure (node_of (r_graph s) i) = Stop"
  shows "set (rs_running st') \<subseteq> set (rs_running st) \<and> i \<notin> set (rs_running st')"
proof -
  let ?g = "r_graph s"
  have good: "run_good s" by (rule runs.reachable_inv [OF assms(1,2)])
  then have wf: "wf_graph ?g" and it: "iter_ok (r_iter s)" and inv: "run_inv ?g st"
    using built.yields_wf assms(4) unfolding run_good_def by auto
  obtain ev where ev: "on_event (r_iter s) (r_name s) (r_absorbed s) ?g (Waiting st) ev = Some (Waiting st')"
    and graph: "r_graph t = ?g"
    using assms(3-5) unfolding run_next_def run_step_def by auto
  obtain ends where ends: "ev = Ended ends"
    using ev by (cases ev) (auto simp: drained_def Let_def split: if_splits option.splits)
  let ?u = "fold (record_end ?g) ends st"
  have ok: "distinct (map fst ends)" "set (map fst ends) \<subseteq> set (rs_running st)"
    and adv: "advance (r_iter s) (r_name s) ?g ?u = (Waiting st' :: ('p, 'e, 'v, 'c) config)"
    using ev ends by (auto split: if_splits)
  note U = fold_record_end [OF wf inv ok]
  have st': "st' = start_ready (r_iter s) ?g ?u"
    using adv by (auto simp: advance_def Let_def split: if_splits)
  have u: "run_inv ?g ?u" using U by blast
  note S = start_ready_inv [OF it wf u]
  have inv': "run_inv ?g st'" using S st' by blast
  have "rs_stop st'" using run_invD(5) [OF inv'] assms(6-8) by blast
  then have "rs_running st' = rs_running ?u" using S st' by simp
  then have "set (rs_running st') \<subseteq> set (rs_running st)" using U by auto
  moreover have "i \<in> set (dict_keys (rs_results st'))" by (rule map_of_Some_key [OF assms(6)])
  then have "i \<notin> set (rs_running st')"
    using run_invD(1) [OF inv'] unfolding distinct_append set_append by blast
  ultimately show ?thesis by blast
qed

text \<open>C26. Every skip in a finished run has a root: along hard dependencies one reaches a node that
  failed, was cancelled, or was skipped by its own override.\<close>

theorem skip_root_cause:
  assumes "run_start r" and "run_next\<^sup>*\<^sup>* r s" and "r_config s = Returned rep"
    and "map_of (rr_results rep) i = Some q" and "nr_status q = SSkipped"
  shows "\<exists>d p. (d, i) \<in> (hard_edges (r_graph s))\<^sup>* \<and> map_of (rr_results rep) d = Some p
    \<and> own_account (r_graph s) d p"
proof -
  have good: "run_good s" by (rule runs.reachable_inv [OF assms(1,2)])
  then show ?thesis
    using skip_has_root [OF _ _ assms(4,5)] assms(3) unfolding run_good_def by auto
qed

text \<open>A report that is \<open>ok\<close> says that every node of the graph succeeded: no failures, no
  degraded nodes and no causes.\<close>

theorem ok_report_is_clean:
  assumes "run_start r" and "run_next\<^sup>*\<^sup>* r s" and "r_config s = Returned rep" and "report_ok rep"
  shows "(\<forall>n\<in>set (g_nodes (r_graph s)). \<exists>q. map_of (rr_results rep) (nid n) = Some q \<and> nr_status q = SOk)
    \<and> failures rep = [] \<and> degraded rep = [] \<and> causes rep = [] \<and> \<not> rr_aborted rep"
proof -
  have acc: "all_accounted (r_graph s) (rr_results rep)"
    using runs.reachable_inv [OF assms(1,2)] assms(3) unfolding run_good_def by auto
  have ok: "nr_status q = SOk" if "map_of (rr_results rep) i = Some q" for i q
    using assms(4) map_of_SomeD [OF that] by (auto simp: report_ok_def list_all_iff)
  have "\<exists>q. map_of (rr_results rep) (nid n) = Some q \<and> nr_status q = SOk"
    if "n \<in> set (g_nodes (r_graph s))" for n
  proof -
    have "nid n \<in> set (dict_keys (rr_results rep))"
      using that acc unfolding all_accounted_def by (simp del: list.set_map)
    then show ?thesis using ex_map_of ok by metis
  qed
  moreover have "with_status rep [SFailed, SSkipped] = []" and "with_status rep [SFailed] = []"
    using ok by (auto simp: with_status_def split: option.splits)
  ultimately show ?thesis
    using assms(4) by (auto simp: failures_def degraded_def causes_def report_ok_def)
qed

subsection \<open>A concrete run\<close>

definition trio_builder :: "unit builder" where
  "trio_builder =
    snd (builder_add ''c'' ''g'' () {} {} Skip False 0 None
      (snd (builder_add ''b'' ''g'' () {} {0} Skip False 0 None
        (snd (builder_add ''a'' ''g'' () {} {} Stop False 0 None empty_builder)))))"

definition trio :: "unit graph" where
  "trio = \<lparr>
    g_nodes = [
      \<lparr>nid = 0, n_label = ''a'', n_group = ''g'', n_payload = (), n_on_failure = Stop,
        n_optional = False, n_delay_s = 0, n_override = None\<rparr>,
      \<lparr>nid = 1, n_label = ''b'', n_group = ''g'', n_payload = (), n_on_failure = Skip,
        n_optional = False, n_delay_s = 0, n_override = None\<rparr>,
      \<lparr>nid = 2, n_label = ''c'', n_group = ''g'', n_payload = (), n_on_failure = Skip,
        n_optional = False, n_delay_s = 0, n_override = None\<rparr>],
    g_deps = [(0, {}), (1, {0}), (2, {})],
    g_hard = [(0, {}), (1, {0}), (2, {})]\<rparr>"

lemma trio_built: "built_graph trio"
proof -
  have "build trio_builder = Inr trio"
    by (simp add: trio_builder_def trio_def builder_add_def empty_builder_def Let_def build_def
        topo_order_def frozen_def upt_rec rbind_Inr_iff indegrees_def deps_of_def dedup_def
        dependents_def subtract_def rguard_def)
  moreover have "wf_builder trio_builder"
    by (simp add: trio_builder_def wf_builder_def builder_add_def empty_builder_def Let_def upt_rec)
  ultimately show ?thesis unfolding built_graph_def by blast
qed

type_synonym demo_config = "(unit, string, unit, unit) config"

definition trio_run :: "demo_config \<Rightarrow> (unit, string, unit, unit) run" where
  "trio_run cfg = \<lparr>r_iter = sorted_list_of_set, r_name = ''r'', r_absorbed = None, r_graph = trio, r_config = cfg\<rparr>"

lemma trio_run_simps [simp]:
  "r_iter (trio_run cfg) = sorted_list_of_set" "r_name (trio_run cfg) = ''r''"
  "r_absorbed (trio_run cfg) = None" "r_graph (trio_run cfg) = trio" "r_config (trio_run cfg) = cfg"
  "(trio_run cfg)\<lparr>r_config := cfg'\<rparr> = trio_run cfg'"
  by (simp_all add: trio_run_def)

lemmas run_eval = trio_def advance_def start_ready_def settle.simps resolve_skips.simps
  skip_pass_def override_pass_def take_ready_def init_state_def deps_of_def hard_of_def
  node_of_def find_node_def blockers_def blocking_def ready_def settle_node_def excuse_def
  record_end.simps cancel_pending_def dedup_def Let_def truthy_def result_def

definition trio_0 :: "(string, unit) run_state" where
  "trio_0 = \<lparr>rs_results = [], rs_running = [0, 2], rs_pending = [1], rs_stop = False\<rparr>"

definition trio_failed :: "(string, unit) run_state" where
  "trio_failed = \<lparr>rs_results = [(0, (result SFailed)\<lparr>nr_error := Some ''boom''\<rparr>), (1, result SSkipped)],
    rs_running = [2], rs_pending = [], rs_stop = True\<rparr>"

definition trio_report :: "(unit, string, unit) run_report" where
  "trio_report = \<lparr>rr_name = ''r'', rr_graph = trio,
    rr_results = [(0, (result SFailed)\<lparr>nr_error := Some ''boom''\<rparr>), (1, result SSkipped),
      (2, (result SOk)\<lparr>nr_value := Some ()\<rparr>)], rr_aborted = False\<rparr>"

definition trio_done :: "(string, unit) run_state" where
  "trio_done = \<lparr>rs_results = [(0, (result SOk)\<lparr>nr_value := Some ()\<rparr>), (2, (result SOk)\<lparr>nr_value := Some ()\<rparr>)],
    rs_running = [1], rs_pending = [], rs_stop = False\<rparr>"

definition trio_ok :: "(unit, string, unit) run_report" where
  "trio_ok = \<lparr>rr_name = ''r'', rr_graph = trio,
    rr_results = [(0, (result SOk)\<lparr>nr_value := Some ()\<rparr>), (2, (result SOk)\<lparr>nr_value := Some ()\<rparr>),
      (1, (result SOk)\<lparr>nr_value := Some ()\<rparr>)], rr_aborted = False\<rparr>"

lemma trio_executes: "execute sorted_list_of_set ''r'' trio [] = (Waiting trio_0 :: demo_config)"
  by (simp add: execute_def trio_0_def run_eval)

lemma trio_step_failed: "on_event sorted_list_of_set ''r'' None trio (Waiting trio_0 :: demo_config)
    (Ended [(0, Raised ''boom'')]) = Some (Waiting trio_failed)"
  by (simp add: trio_0_def trio_failed_def run_eval)

lemma trio_step_report: "on_event sorted_list_of_set ''r'' None trio (Waiting trio_failed :: demo_config)
    (Ended [(2, Finished ())]) = Some (Returned trio_report)"
  by (simp add: trio_failed_def trio_report_def run_eval)

lemma trio_step_done: "on_event sorted_list_of_set ''r'' None trio (Waiting trio_0 :: demo_config)
    (Ended [(0, Finished ()), (2, Finished ())]) = Some (Waiting trio_done)"
  by (simp add: trio_0_def trio_done_def run_eval)

lemma trio_step_ok: "on_event sorted_list_of_set ''r'' None trio (Waiting trio_done :: demo_config)
    (Ended [(1, Finished ())]) = Some (Returned trio_ok)"
  by (simp add: trio_done_def trio_ok_def run_eval)

lemma trio_starts: "run_start (trio_run (Waiting trio_0))"
  by (simp add: run_start_def trio_built iter_ok_sorted trio_executes)

lemma trio_nextI:
  "on_event sorted_list_of_set ''r'' None trio cfg ev = Some cfg' \<Longrightarrow> run_next (trio_run cfg) (trio_run cfg')"
  unfolding run_next_def run_step_def by auto

lemma trio_reaches_failed: "run_next\<^sup>*\<^sup>* (trio_run (Waiting trio_0)) (trio_run (Returned trio_report))"
  using trio_nextI [OF trio_step_failed] trio_nextI [OF trio_step_report] by (rule converse_rtranclp_into_rtranclp [OF _ r_into_rtranclp])

lemma trio_reaches_ok: "run_next\<^sup>*\<^sup>* (trio_run (Waiting trio_0)) (trio_run (Returned trio_ok))"
  using trio_nextI [OF trio_step_done] trio_nextI [OF trio_step_ok] by (rule converse_rtranclp_into_rtranclp [OF _ r_into_rtranclp])

lemma trio_progress: "run_progress (trio_run (Waiting trio_0)) (trio_run (Waiting trio_failed))"
  using trio_nextI [OF trio_step_failed] by (simp add: run_progress_def trio_0_def trio_failed_def)

theorem dispatch_after_dependencies_witness:
  "n_override (node_of (r_graph (trio_run (Waiting trio_done))) 1) = None
    \<and> (\<exists>q. map_of (rs_results trio_done) 0 = Some q)"
proof -
  have "run_next\<^sup>*\<^sup>* (trio_run (Waiting trio_0)) (trio_run (Waiting trio_done))"
    using trio_nextI [OF trio_step_done] by blast
  note D = dispatch_after_dependencies [OF trio_starts this, of trio_done undefined undefined undefined 1]
  have "0 \<in> deps_of trio 1" by (simp add: deps_of_def trio_def)
  then show ?thesis using D by (simp add: trio_done_def)
qed

theorem run_accounts_for_every_node_witness: "all_accounted trio (rr_results trio_report)"
  using run_accounts_for_every_node [OF trio_starts trio_reaches_failed] by simp

theorem run_length_bounded_witness: "(1::nat) \<le> length (g_nodes trio) + 3"
proof -
  have "(run_progress ^^ 1) (trio_run (Waiting trio_0)) (trio_run (Waiting trio_failed))"
    using trio_progress by auto
  from run_length_bounded [OF trio_starts this] show ?thesis by simp
qed


theorem stop_ends_dispatch_witness: "set (rs_running trio_failed) \<subseteq> set (rs_running trio_0)"
  using stop_ends_dispatch [OF trio_starts rtranclp.rtrancl_refl trio_nextI [OF trio_step_failed],
      of trio_0 trio_failed 0 "(result SFailed)\<lparr>nr_error := Some ''boom''\<rparr>"]
  by (simp add: trio_failed_def trio_0_def node_of_def find_node_def trio_def)

theorem skip_root_cause_witness: "\<exists>d p. (d, 1) \<in> (hard_edges trio)\<^sup>*
    \<and> map_of (rr_results trio_report) d = Some p \<and> own_account trio d p"
  using skip_root_cause [OF trio_starts trio_reaches_failed, of trio_report 1 "result SSkipped"]
  by (simp add: trio_report_def)

theorem ok_report_is_clean_witness: "failures trio_ok = [] \<and> report_ok trio_ok"
proof -
  have ok: "report_ok trio_ok" by (simp add: report_ok_def trio_ok_def)
  then show ?thesis using ok_report_is_clean [OF trio_starts trio_reaches_ok, of trio_ok] by simp
qed

definition trio_cancelled :: "(unit, string, unit) run_report" where
  "trio_cancelled = \<lparr>rr_name = ''r'', rr_graph = trio,
    rr_results = [(0, result SCancelled), (2, (result SOk)\<lparr>nr_value := Some ()\<rparr>), (1, result SSkipped)],
    rr_aborted = False\<rparr>"


end
