(* ===== verification/Sensor_Dispatch.thy ===== *)
theory Sensor_Dispatch
  imports Dag_Run Sensor_Workflow
begin

section \<open>Dispatch of one operation (core/src/sensorkit/sensor/dispatch.py)\<close>

text \<open>
  \<open>Dispatcher.perform\<close> as a machine over the awaits of its coroutine.  The device call and the
  built-in Abort are tasks the dispatcher owns; the environment decides how a task ends and when
  the awaiting coroutine is woken: by the task, by the wait's timer, by a cancellation of the
  caller, or by a cancellation that finds the task ended already.  \<open>'v\<close> is a command's result,
  \<open>'e\<close> an exception of the transport (\<open>expired\<close> tells its \<open>TimeoutError\<close>s), \<open>'c\<close> a
  cancellation.  What the coroutine changes besides its own frame is the journal: the caller's
  attempts and interruptions, the notified events, and the calls handed to a client.  Logging and
  the observer's queue are not modelled; their failures do not reach dispatch.
\<close>

subsection \<open>Events and outcomes\<close>

datatype ('e, 'v) event_detail = NoDetail | ReturnValue 'v | FailedWith 'e

datatype operation_outcome = OpBegin | OpOk | OpFailed | OpCancelled

record ('e, 'v) operation_event =
  oe_operation :: operation
  oe_node :: "operation option node"
  oe_outcome :: operation_outcome
  oe_detail :: "('e, 'v) event_detail"

datatype interruption_outcome = Acknowledged | NoAbort | AbortFailed | AbortTimedOut

record 'e call_interruption =
  ir_outcome :: interruption_outcome
  ir_error :: "'e option"

definition ABORT_TIMEOUT_S :: real where
  "ABORT_TIMEOUT_S = 5"

datatype 'e sending_error =
    NoClient string
  | NotAnInstrument placement
  | BadHeader kw_error
  | OverDeadline string "seconds option"
  | Remote 'e

datatype message = AsPlanned command | WithHeader command kwdict

datatype device_call = SendCommand message | SendAbort

record ('e, 'v) journal =
  jn_attempted :: "nat set"
  jn_interruptions :: "(nat, 'e call_interruption) dict"
  jn_events :: "('e sending_error, 'v) operation_event list"
  jn_calls :: "(string \<times> device_call) list"

record dispatcher =
  di_sensor :: bound_sensor
  di_clients :: "string set"
  di_base :: "kwsource option"

subsection \<open>The outgoing command\<close>

text \<open>\<open>reported\<close> is what \<open>contexts()\<close> gives when the header is built, nothing without it.\<close>

definition header :: "dispatcher \<Rightarrow> (string, kwsource) dict \<Rightarrow> operation \<Rightarrow> 'e sending_error + kwdict" where
  "header d reported x =
    (case chain_of (bs_topology (di_sensor d)) (op_target x) of
       Inl _ \<Rightarrow> Inl (NotAnInstrument (op_target x))
     | Inr chain \<Rightarrow>
         case merge_contexts (di_base d # map (\<lambda>p. map_of reported (pl_device p)) chain
                @ [map_option (\<lambda>aq. AKeywordDict (aq_keywords aq)) (op_acquisition x)]) of
           Inl e \<Rightarrow> Inl (BadHeader e)
         | Inr h \<Rightarrow> Inr h)"

definition outgoing :: "dispatcher \<Rightarrow> (string, kwsource) dict \<Rightarrow> operation \<Rightarrow> 'e sending_error + message" where
  "outgoing d reported x =
    (case op_acquisition x of
       None \<Rightarrow> Inr (AsPlanned (op_command x))
     | Some _ \<Rightarrow> rbind (header d reported x) (\<lambda>h. Inr (WithHeader (op_command x) h)))"

subsection \<open>Owning a task\<close>

definition first_held :: "'c option \<Rightarrow> 'c option \<Rightarrow> 'c option" where
  "first_held a b = (case a of None \<Rightarrow> b | Some _ \<Rightarrow> a)"

text \<open>What the awaiting coroutine finds when it resumes: whether the task has ended, and how,
  and whether a cancellation was thrown into the wait.  Neither is a timer.\<close>

record ('e, 'v, 'c) wake =
  wk_end :: "('e, 'v) ending option"
  wk_cancel :: "'c option"

text \<open>\<open>_until_stopped\<close> waits in \<open>Until\<close>; after \<open>task.cancel()\<close> the drain of \<open>_owned\<close> waits in \<open>Drain\<close>;
  \<open>Gone\<close> is its return, with the way the task ended.\<close>

datatype ('e, 'v, 'c) owned_wait =
    Until "'c option"
  | Drain bool "'c option"
  | Gone bool "'c option" "('e, 'v) ending"

definition until_stopped :: "bool \<Rightarrow> bool \<Rightarrow> 'c option \<Rightarrow> ('e, 'v, 'c) wake \<Rightarrow> ('e, 'v, 'c) owned_wait option" where
  "until_stopped timed interruptible cancelled w =
    (let cancelled' = first_held cancelled (wk_cancel w) in
     case wk_end w of
       Some en \<Rightarrow> Some (Gone False cancelled' en)
     | None \<Rightarrow>
         if wk_cancel w \<noteq> None then Some (if interruptible then Drain False cancelled' else Until cancelled')
         else if timed then Some (Drain True cancelled')
         else None)"

definition drain_task :: "bool \<Rightarrow> 'c option \<Rightarrow> ('e, 'v, 'c) wake \<Rightarrow> ('e, 'v, 'c) owned_wait option" where
  "drain_task expired cancelled w =
    (let cancelled' = first_held cancelled (wk_cancel w) in
     case wk_end w of
       Some en \<Rightarrow> Some (Gone expired cancelled' en)
     | None \<Rightarrow> if wk_cancel w \<noteq> None then Some (Drain expired cancelled') else None)"

fun owned_step :: "bool \<Rightarrow> bool \<Rightarrow> ('e, 'v, 'c) owned_wait \<Rightarrow> ('e, 'v, 'c) wake \<Rightarrow> ('e, 'v, 'c) owned_wait option" where
  "owned_step timed interruptible (Until cancelled) w = until_stopped timed interruptible cancelled w"
| "owned_step timed interruptible (Drain expired cancelled) w = drain_task expired cancelled w"
| "owned_step timed interruptible (Gone expired cancelled en) w = None"

subsection \<open>perform\<close>

text \<open>\<open>Aborting\<close> holds what is known of the command when its Abort is waited for.\<close>

datatype ('e, 'v, 'c) call =
    Sending "('e, 'v, 'c) owned_wait"
  | Aborting bool "'c option" "('e, 'v) ending" "('e, 'v, 'c) owned_wait"
  | Concluded "('e sending_error, 'v) ending"

definition dropped :: "('e \<Rightarrow> bool) \<Rightarrow> ('e, 'v) ending \<Rightarrow> bool" where
  "dropped is_timeout en = (case en of WasCancelled \<Rightarrow> True | Raised e \<Rightarrow> is_timeout e | Finished _ \<Rightarrow> False)"

definition notify_event :: "operation \<Rightarrow> operation option node \<Rightarrow> operation_outcome \<Rightarrow> ('e sending_error, 'v) event_detail
    \<Rightarrow> ('e, 'v) journal \<Rightarrow> ('e, 'v) journal" where
  "notify_event x n outcome detail jn =
    jn\<lparr>jn_events := jn_events jn @
      [\<lparr>oe_operation = x, oe_node = n, oe_outcome = outcome, oe_detail = detail\<rparr>]\<rparr>"

definition call_device :: "string \<Rightarrow> device_call \<Rightarrow> ('e, 'v) journal \<Rightarrow> ('e, 'v) journal" where
  "call_device device c jn = jn\<lparr>jn_calls := jn_calls jn @ [(device, c)]\<rparr>"

definition record_interruption :: "operation \<Rightarrow> 'e call_interruption \<Rightarrow> ('e, 'v) journal \<Rightarrow> ('e, 'v) journal" where
  "record_interruption x i jn = jn\<lparr>jn_interruptions := dict_set (op_ref x) i (jn_interruptions jn)\<rparr>"

text \<open>The exception \<open>_concluded\<close> works with; \<open>None\<close> in it is a cancellation.\<close>

definition sending_failure :: "operation \<Rightarrow> ('e, 'v) ending \<Rightarrow> bool \<Rightarrow> 'c option \<Rightarrow> 'e sending_error option option" where
  "sending_failure x en expired cancelled =
    (case en of
       WasCancelled \<Rightarrow>
         if expired \<and> cancelled = None then Some (Some (OverDeadline (op_id x) (op_timeout x))) else Some None
     | Raised e \<Rightarrow> Some (Some (Remote e))
     | Finished _ \<Rightarrow> None)"

definition terminal_event :: "('e, 'v) ending \<Rightarrow> 'e sending_error option option
    \<Rightarrow> operation_outcome \<times> ('e sending_error, 'v) event_detail" where
  "terminal_event en error =
    (case error of
       None \<Rightarrow> (OpOk, case en of Finished v \<Rightarrow> ReturnValue v | _ \<Rightarrow> NoDetail)
     | Some None \<Rightarrow> (OpCancelled, NoDetail)
     | Some (Some e) \<Rightarrow> (OpFailed, FailedWith e))"

definition call_result :: "('e, 'v) ending \<Rightarrow> 'e sending_error option option \<Rightarrow> 'c option \<Rightarrow> ('e sending_error, 'v) ending" where
  "call_result en error cancelled =
    (if cancelled \<noteq> None then WasCancelled
     else case error of
       Some None \<Rightarrow> WasCancelled
     | Some (Some e) \<Rightarrow> Raised e
     | None \<Rightarrow> (case en of Finished v \<Rightarrow> Finished v | _ \<Rightarrow> WasCancelled))"

definition concluded :: "operation \<Rightarrow> operation option node \<Rightarrow> ('e, 'v) ending \<Rightarrow> bool \<Rightarrow> 'c option
    \<Rightarrow> ('e, 'v) journal \<Rightarrow> ('e, 'v, 'c) call \<times> ('e, 'v) journal" where
  "concluded x n en expired cancelled jn =
    (let error = sending_failure x en expired cancelled; (outcome, detail) = terminal_event en error in
     (Concluded (call_result en error cancelled), notify_event x n outcome detail jn))"

definition perform :: "dispatcher \<Rightarrow> (string, kwsource) dict \<Rightarrow> operation \<Rightarrow> operation option node
    \<Rightarrow> ('e, 'v) journal \<Rightarrow> ('e, 'v, 'c) call \<times> ('e, 'v) journal" where
  "perform d reported x n jn =
    (let device = pl_device (op_target x) in
     if device \<notin> di_clients d then (Concluded (Raised (NoClient device)), jn)
     else case outgoing d reported x of
       Inl e \<Rightarrow> (Concluded (Raised e), jn)
     | Inr msg \<Rightarrow>
         (Sending (Until None),
          call_device device (SendCommand msg)
            (notify_event x n OpBegin NoDetail
              (jn\<lparr>jn_attempted := insert (op_ref x) (jn_attempted jn)\<rparr>))))"

definition start_abort :: "dispatcher \<Rightarrow> operation \<Rightarrow> operation option node \<Rightarrow> ('e, 'v) ending \<Rightarrow> bool \<Rightarrow> 'c option
    \<Rightarrow> ('e, 'v) journal \<Rightarrow> ('e, 'v, 'c) call \<times> ('e, 'v) journal" where
  "start_abort d x n en expired cancelled jn =
    (let device = pl_device (op_target x) in
     if ''Abort'' \<notin> supported_commands (di_sensor d) device then
       concluded x n en expired cancelled
         (record_interruption x \<lparr>ir_outcome = NoAbort, ir_error = None\<rparr> jn)
     else (Aborting expired cancelled en (Until None), call_device device SendAbort jn))"

definition abort_outcome :: "bool \<Rightarrow> ('e, 'v) ending \<Rightarrow> 'e call_interruption" where
  "abort_outcome expired en =
    (if expired then \<lparr>ir_outcome = AbortTimedOut, ir_error = None\<rparr>
     else case en of
       WasCancelled \<Rightarrow> \<lparr>ir_outcome = AbortFailed, ir_error = None\<rparr>
     | Raised e \<Rightarrow> \<lparr>ir_outcome = AbortFailed, ir_error = Some e\<rparr>
     | Finished _ \<Rightarrow> \<lparr>ir_outcome = Acknowledged, ir_error = None\<rparr>)"

fun perform_step :: "dispatcher \<Rightarrow> ('e \<Rightarrow> bool) \<Rightarrow> operation \<Rightarrow> operation option node
    \<Rightarrow> ('e, 'v, 'c) call \<times> ('e, 'v) journal \<Rightarrow> ('e, 'v, 'c) wake
    \<Rightarrow> (('e, 'v, 'c) call \<times> ('e, 'v) journal) option" where
  "perform_step d is_timeout x n (Sending ow, jn) w =
    (case owned_step (op_timeout x \<noteq> None) True ow w of
       None \<Rightarrow> None
     | Some (Gone expired cancelled en) \<Rightarrow>
         Some (if dropped is_timeout en then start_abort d x n en expired cancelled jn
               else concluded x n en expired cancelled jn)
     | Some ow' \<Rightarrow> Some (Sending ow', jn))"
| "perform_step d is_timeout x n (Aborting expired cancelled en ow, jn) w =
    (case owned_step True False ow w of
       None \<Rightarrow> None
     | Some (Gone late held_c end_a) \<Rightarrow>
         Some (concluded x n en expired (first_held cancelled held_c)
           (record_interruption x (abort_outcome late end_a) jn))
     | Some ow' \<Rightarrow> Some (Aborting expired cancelled en ow', jn))"
| "perform_step d is_timeout x n (Concluded out, jn) w = None"

subsection \<open>The course of a call\<close>

fun perform_wakes :: "dispatcher \<Rightarrow> ('e \<Rightarrow> bool) \<Rightarrow> operation \<Rightarrow> operation option node
    \<Rightarrow> ('e, 'v, 'c) call \<times> ('e, 'v) journal \<Rightarrow> ('e, 'v, 'c) wake list
    \<Rightarrow> (('e, 'v, 'c) call \<times> ('e, 'v) journal) option" where
  "perform_wakes d is_timeout x n s [] = Some s"
| "perform_wakes d is_timeout x n s (w # ws) =
    (case perform_step d is_timeout x n s w of
       None \<Rightarrow> None
     | Some s' \<Rightarrow> perform_wakes d is_timeout x n s' ws)"

definition begun :: "operation \<Rightarrow> operation option node \<Rightarrow> message \<Rightarrow> ('e, 'v) journal \<Rightarrow> ('e, 'v) journal" where
  "begun x n msg jn =
    call_device (pl_device (op_target x)) (SendCommand msg)
      (notify_event x n OpBegin NoDetail (jn\<lparr>jn_attempted := insert (op_ref x) (jn_attempted jn)\<rparr>))"

definition cancelled_in :: "('e, 'v, 'c) wake list \<Rightarrow> bool" where
  "cancelled_in ws \<longleftrightarrow> (\<exists>w\<in>set ws. wk_cancel w \<noteq> None)"

definition can_abort :: "dispatcher \<Rightarrow> operation \<Rightarrow> bool" where
  "can_abort d x \<longleftrightarrow> ''Abort'' \<in> supported_commands (di_sensor d) (pl_device (op_target x))"

abbreviation abort_call :: "operation \<Rightarrow> ('e, 'v) journal \<Rightarrow> ('e, 'v) journal" where
  "abort_call x jn \<equiv> call_device (pl_device (op_target x)) SendAbort jn"

text \<open>What a concluded call leaves, from how its command ended.\<close>

definition settled_call :: "dispatcher \<Rightarrow> ('e \<Rightarrow> bool) \<Rightarrow> operation \<Rightarrow> operation option node \<Rightarrow> ('e, 'v) journal
    \<Rightarrow> ('e, 'v, 'c) wake list \<Rightarrow> ('e sending_error, 'v) ending \<Rightarrow> ('e, 'v) journal \<Rightarrow> bool" where
  "settled_call d is_timeout x n jn0 ws out jn \<longleftrightarrow>
    (\<exists>expired cancelled en i.
       ((cancelled :: 'c option) \<noteq> None \<longleftrightarrow> cancelled_in ws)
     \<and> (expired \<longrightarrow> op_timeout x \<noteq> None)
     \<and> (ir_outcome i = NoAbort \<longleftrightarrow> \<not> can_abort d x)
     \<and> (Concluded out, jn) = (concluded x n en expired cancelled
          (if \<not> dropped is_timeout en then jn0
           else record_interruption x i (if can_abort d x then abort_call x jn0 else jn0)) :: ('e, 'v, 'c) call \<times> _))"

fun call_inv :: "dispatcher \<Rightarrow> ('e \<Rightarrow> bool) \<Rightarrow> operation \<Rightarrow> operation option node \<Rightarrow> ('e, 'v) journal
    \<Rightarrow> ('e, 'v, 'c) wake list \<Rightarrow> ('e, 'v, 'c) call \<times> ('e, 'v) journal \<Rightarrow> bool" where
  "call_inv d is_timeout x n jn0 ws (Sending (Until cancelled), jn) \<longleftrightarrow>
     jn = jn0 \<and> cancelled = None \<and> \<not> cancelled_in ws"
| "call_inv d is_timeout x n jn0 ws (Sending (Drain expired cancelled), jn) \<longleftrightarrow>
     jn = jn0 \<and> (cancelled \<noteq> None \<longleftrightarrow> cancelled_in ws) \<and> (expired \<longrightarrow> op_timeout x \<noteq> None)"
| "call_inv d is_timeout x n jn0 ws (Sending (Gone _ _ _), jn) \<longleftrightarrow> False"
| "call_inv d is_timeout x n jn0 ws (Aborting expired cancelled en (Until kept), jn) \<longleftrightarrow>
     jn = abort_call x jn0 \<and> (first_held cancelled kept \<noteq> None \<longleftrightarrow> cancelled_in ws)
     \<and> (expired \<longrightarrow> op_timeout x \<noteq> None) \<and> dropped is_timeout en \<and> can_abort d x"
| "call_inv d is_timeout x n jn0 ws (Aborting expired cancelled en (Drain late kept), jn) \<longleftrightarrow>
     jn = abort_call x jn0 \<and> (first_held cancelled kept \<noteq> None \<longleftrightarrow> cancelled_in ws)
     \<and> (expired \<longrightarrow> op_timeout x \<noteq> None) \<and> dropped is_timeout en \<and> can_abort d x"
| "call_inv d is_timeout x n jn0 ws (Aborting expired cancelled en (Gone _ _ _), jn) \<longleftrightarrow> False"
| "call_inv d is_timeout x n jn0 ws (Concluded out, jn) \<longleftrightarrow> settled_call d is_timeout x n jn0 ws out jn"

lemma first_held_None [simp]: "first_held a b = None \<longleftrightarrow> a = None \<and> b = None"
  by (cases a) (simp_all add: first_held_def)

lemma first_held_right [simp]: "first_held a None = a"
  by (cases a) (simp_all add: first_held_def)

lemma concluded_eq:
  "concluded x n en expired cancelled jn =
    (Concluded (call_result en (sending_failure x en expired cancelled) cancelled),
     notify_event x n (fst (terminal_event en (sending_failure x en expired cancelled)))
       (snd (terminal_event en (sending_failure x en expired cancelled))) jn)"
  by (simp add: concluded_def Let_def case_prod_beta)

lemma cancelled_in_Nil [simp]: "\<not> cancelled_in []"
  by (simp add: cancelled_in_def)

lemma cancelled_in_snoc [simp]: "cancelled_in (ws @ [w]) \<longleftrightarrow> cancelled_in ws \<or> wk_cancel w \<noteq> None"
  by (auto simp: cancelled_in_def)

lemma until_stopped_Gone:
  "until_stopped t i c w = Some (Gone ex c' en) \<longleftrightarrow> wk_end w = Some en \<and> \<not> ex \<and> c' = first_held c (wk_cancel w)"
  by (auto simp: until_stopped_def Let_def split: option.splits if_splits)

lemma drain_task_Gone:
  "drain_task ex0 c w = Some (Gone ex c' en) \<longleftrightarrow> wk_end w = Some en \<and> ex = ex0 \<and> c' = first_held c (wk_cancel w)"
  by (auto simp: drain_task_def Let_def split: option.splits if_splits)

lemma concluded_settled:
  fixes ws :: "('e, 'v, 'c) wake list"
  assumes "(cancelled :: 'c option) \<noteq> None \<longleftrightarrow> cancelled_in ws" and "expired \<longrightarrow> op_timeout x \<noteq> None"
    and "jn = (if \<not> dropped is_timeout en then jn0
           else record_interruption x i (if can_abort d x then abort_call x jn0 else jn0))"
    and "dropped is_timeout en \<longrightarrow> (ir_outcome i = NoAbort \<longleftrightarrow> \<not> can_abort d x)"
  shows "call_inv d is_timeout x n jn0 ws (concluded x n en expired cancelled jn)"
proof -
  obtain j where j: "dropped is_timeout en \<longrightarrow> j = i" "ir_outcome j = NoAbort \<longleftrightarrow> \<not> can_abort d x"
  proof (cases "dropped is_timeout en")
    case True
    then show ?thesis using that [of i] assms(4) by simp
  next
    case False
    then show ?thesis
      using that [of "\<lparr>ir_outcome = if can_abort d x then AbortFailed else NoAbort, ir_error = None\<rparr>"] by simp
  qed
  have jn: "jn = (if \<not> dropped is_timeout en then jn0
           else record_interruption x j (if can_abort d x then abort_call x jn0 else jn0))"
    using assms(3) j(1) by simp
  obtain out jn' where c: "concluded x n en expired cancelled jn = ((Concluded out, jn') :: ('e, 'v, 'c) call \<times> _)"
    by (simp add: concluded_eq)
  have "settled_call d is_timeout x n jn0 ws out jn'"
    unfolding settled_call_def
    by (rule exI [of _ expired], rule exI [of _ cancelled], rule exI [of _ en], rule exI [of _ j])
      (use assms(1,2) j(2) c jn in simp)
  then show ?thesis using c by simp
qed

lemma perform_step_Sending:
  assumes "call_inv d is_timeout x n jn0 ws (Sending ow, jn)"
    and "owned_step (op_timeout x \<noteq> None) True ow w = Some (Gone expired cancelled en)"
  shows "jn = jn0 \<and> (cancelled \<noteq> None \<longleftrightarrow> cancelled_in (ws @ [w])) \<and> (expired \<longrightarrow> op_timeout x \<noteq> None)"
  using assms by (cases ow) (auto simp: until_stopped_Gone drain_task_Gone)

lemma perform_step_sent:
  assumes "jn = jn0" and "cancelled \<noteq> None \<longleftrightarrow> cancelled_in ws" and "expired \<longrightarrow> op_timeout x \<noteq> None"
  shows "call_inv d is_timeout x n jn0 ws
    (if dropped is_timeout en then start_abort d x n en expired cancelled jn
     else concluded x n en expired cancelled jn)"
proof (cases "dropped is_timeout en")
  case True
  show ?thesis
  proof (cases "can_abort d x")
    case can: True
    then show ?thesis using True assms by (simp add: start_abort_def can_abort_def Let_def)
  next
    case no: False
    then have "start_abort d x n en expired cancelled jn =
        concluded x n en expired cancelled (record_interruption x \<lparr>ir_outcome = NoAbort, ir_error = None\<rparr> jn)"
      by (simp add: start_abort_def can_abort_def Let_def)
    moreover have "call_inv d is_timeout x n jn0 ws (concluded x n en expired cancelled
        (record_interruption x \<lparr>ir_outcome = NoAbort, ir_error = None\<rparr> jn))"
      by (rule concluded_settled [OF assms(2,3), where i = "\<lparr>ir_outcome = NoAbort, ir_error = None\<rparr>"])
        (use True no assms(1) in simp_all)
    ultimately show ?thesis using True by simp
  qed
next
  case False
  then show ?thesis
    using concluded_settled [OF assms(2,3), where d = d and n = n and en = en and jn = jn and is_timeout = is_timeout] assms(1)
    by simp
qed

lemma abort_outcome_sent [simp]: "ir_outcome (abort_outcome late en) \<noteq> NoAbort"
  by (simp add: abort_outcome_def split: ending.split)

lemma perform_step_inv:
  assumes "call_inv d is_timeout x n jn0 ws s" and "perform_step d is_timeout x n s w = Some s'"
  shows "call_inv d is_timeout x n jn0 (ws @ [w]) s'"
proof -
  obtain c jn where s: "s = (c, jn)" by fastforce
  show ?thesis
  proof (cases c)
    case (Sending ow)
    show ?thesis
    proof (cases "owned_step (op_timeout x \<noteq> None) True ow w")
      case None
      then show ?thesis using assms(2) s Sending by simp
    next
      case (Some ow')
      show ?thesis
      proof (cases ow')
        case (Until kept)
        then show ?thesis
          using assms s Sending Some
          by (cases ow) (auto simp: until_stopped_def drain_task_def Let_def split: option.splits if_splits)
      next
        case (Drain expired kept)
        then show ?thesis
          using assms s Sending Some
          by (cases ow) (auto simp: until_stopped_def drain_task_def Let_def split: option.splits if_splits)
      next
        case (Gone expired cancelled en)
        then have "s' = (if dropped is_timeout en then start_abort d x n en expired cancelled jn
            else concluded x n en expired cancelled jn)"
          using assms(2) s Sending Some by simp
        moreover note perform_step_Sending [OF assms(1) [unfolded s Sending] Some [unfolded Gone]]
        ultimately show ?thesis using perform_step_sent by blast
      qed
    qed
  next
    case (Aborting expired cancelled en ow)
    show ?thesis
    proof (cases "owned_step True False ow w")
      case None
      then show ?thesis using assms(2) s Aborting by simp
    next
      case (Some ow')
      show ?thesis
      proof (cases ow')
        case (Until kept)
        then show ?thesis
          using assms s Aborting Some
          by (cases ow) (auto simp: until_stopped_def drain_task_def Let_def split: option.splits if_splits)
      next
        case (Drain late kept)
        then show ?thesis
          using assms s Aborting Some
          by (cases ow) (auto simp: until_stopped_def drain_task_def Let_def split: option.splits if_splits)
      next
        case (Gone late kept fin)
        then have s': "s' = concluded x n en expired (first_held cancelled kept)
            (record_interruption x (abort_outcome late fin) jn)"
          using assms(2) s Aborting Some by simp
        have inv: "jn = abort_call x jn0" "first_held cancelled kept \<noteq> None \<longleftrightarrow> cancelled_in (ws @ [w])"
            "expired \<longrightarrow> op_timeout x \<noteq> None" "dropped is_timeout en" "can_abort d x"
          using assms(1) s Aborting Some Gone by (cases ow; auto simp: until_stopped_Gone drain_task_Gone)+
        show ?thesis
          unfolding s'
          by (rule concluded_settled [OF inv(2,3), where i = "abort_outcome late fin"]) (use inv in simp_all)
      qed
    qed
  next
    case (Concluded out)
    then show ?thesis using assms(2) s by simp
  qed
qed

lemma perform_wakes_inv:
  "call_inv d is_timeout x n jn0 ws s \<Longrightarrow> perform_wakes d is_timeout x n s ws' = Some s'
    \<Longrightarrow> call_inv d is_timeout x n jn0 (ws @ ws') s'"
proof (induction ws' arbitrary: s ws)
  case Nil
  then show ?case by simp
next
  case (Cons w ws')
  then obtain s1 where "perform_step d is_timeout x n s w = Some s1" "perform_wakes d is_timeout x n s1 ws' = Some s'"
    by (auto split: option.splits)
  then show ?case using Cons.IH [of "ws @ [w]" s1] perform_step_inv [OF Cons.prems(1)] by simp
qed

lemma perform_cases:
  fixes jn0 :: "('e, 'v) journal"
  obtains (refused) e where "perform d reported x n jn0 = (Concluded (Raised e), jn0)"
      "pl_device (op_target x) \<notin> di_clients d \<or> outgoing d reported x = Inl e"
  | (sent) msg where "perform d reported x n jn0 = (Sending (Until None), begun x n msg jn0)"
      "pl_device (op_target x) \<in> di_clients d" "(outgoing d reported x :: 'e sending_error + message) = Inr msg"
proof (cases "pl_device (op_target x) \<in> di_clients d")
  case False
  then show ?thesis using refused [of "NoClient (pl_device (op_target x))"] by (simp add: perform_def Let_def)
next
  case True
  show ?thesis
  proof (cases "outgoing d reported x :: 'e sending_error + message")
    case (Inl e)
    then show ?thesis using refused [of e] True by (simp add: perform_def Let_def)
  next
    case (Inr msg)
    then show ?thesis using sent [of msg] True by (simp add: perform_def Let_def begun_def)
  qed
qed

text \<open>A terminal event tells whether its call was dropped.\<close>

definition drop_event :: "('e \<Rightarrow> bool) \<Rightarrow> operation_outcome \<Rightarrow> ('e sending_error, 'v) event_detail \<Rightarrow> bool" where
  "drop_event is_timeout outcome detail \<longleftrightarrow>
    outcome = OpCancelled
    \<or> (case detail of
         FailedWith (OverDeadline _ _) \<Rightarrow> True
       | FailedWith (Remote e) \<Rightarrow> is_timeout e
       | _ \<Rightarrow> False)"

lemma terminal_drop:
  "drop_event is_timeout (fst (terminal_event en (sending_failure x en expired cancelled)))
      (snd (terminal_event en (sending_failure x en expired cancelled))) \<longleftrightarrow> dropped is_timeout en"
  by (cases en) (simp_all add: drop_event_def terminal_event_def sending_failure_def dropped_def)

definition agrees :: "('e sending_error, 'v) ending \<Rightarrow> operation_outcome \<Rightarrow> ('e sending_error, 'v) event_detail \<Rightarrow> bool" where
  "agrees out outcome detail \<longleftrightarrow>
    (case out of
       Finished v \<Rightarrow> outcome = OpOk \<and> detail = ReturnValue v
     | Raised e \<Rightarrow> outcome = OpFailed \<and> detail = FailedWith e
     | WasCancelled \<Rightarrow> outcome = OpCancelled \<and> detail = NoDetail)"

lemma terminal_agrees:
  "agrees (call_result en (sending_failure x en expired None) None)
    (fst (terminal_event en (sending_failure x en expired None)))
    (snd (terminal_event en (sending_failure x en expired None)))"
  by (cases en) (simp_all add: agrees_def call_result_def sending_failure_def terminal_event_def)

lemma terminal_not_begin: "fst (terminal_event en error) \<noteq> OpBegin"
  by (auto simp: terminal_event_def split: option.split)

lemma settled_begun:
  fixes ws :: "('e, 'v, 'c) wake list"
  assumes "settled_call d is_timeout x n (begun x n msg jn0) ws out jn"
  shows "jn_attempted jn = insert (op_ref x) (jn_attempted jn0)
    \<and> (\<exists>outcome detail i.
        jn_events jn = jn_events jn0 @
          [\<lparr>oe_operation = x, oe_node = n, oe_outcome = OpBegin, oe_detail = NoDetail\<rparr>,
           \<lparr>oe_operation = x, oe_node = n, oe_outcome = outcome, oe_detail = detail\<rparr>]
      \<and> outcome \<noteq> OpBegin
      \<and> (if cancelled_in ws then out = WasCancelled else agrees out outcome detail)
      \<and> (ir_outcome i = NoAbort \<longleftrightarrow> \<not> can_abort d x)
      \<and> jn_interruptions jn = (if drop_event is_timeout outcome detail
            then dict_set (op_ref x) i (jn_interruptions jn0) else jn_interruptions jn0)
      \<and> jn_calls jn = jn_calls jn0 @ (pl_device (op_target x), SendCommand msg)
            # (if drop_event is_timeout outcome detail \<and> can_abort d x
               then [(pl_device (op_target x), SendAbort)] else []))"
proof -
  obtain expired cancelled en i where f: "(cancelled :: 'c option) \<noteq> None \<longleftrightarrow> cancelled_in ws"
      "expired \<longrightarrow> op_timeout x \<noteq> None" "ir_outcome i = NoAbort \<longleftrightarrow> \<not> can_abort d x"
      "(Concluded out, jn) = (concluded x n en expired cancelled
          (if \<not> dropped is_timeout en then begun x n msg jn0
           else record_interruption x i (if can_abort d x then abort_call x (begun x n msg jn0) else begun x n msg jn0))
          :: ('e, 'v, 'c) call \<times> _)"
    using assms unfolding settled_call_def by blast
  let ?err = "sending_failure x en expired cancelled"
  let ?t = "terminal_event en ?err"
  have out: "out = call_result en ?err cancelled" and jn: "jn = notify_event x n (fst ?t) (snd ?t)
      (if \<not> dropped is_timeout en then begun x n msg jn0
           else record_interruption x i (if can_abort d x then abort_call x (begun x n msg jn0) else begun x n msg jn0))"
    using f(4) by (simp_all add: concluded_eq)
  have res: "if cancelled_in ws then out = WasCancelled else agrees out (fst ?t) (snd ?t)"
    using f(1) out terminal_agrees [of en x expired] by (auto simp: call_result_def)
  note drop = terminal_drop [of is_timeout en x expired cancelled]
  have "jn_attempted jn = insert (op_ref x) (jn_attempted jn0)"
    by (simp add: jn begun_def notify_event_def record_interruption_def call_device_def)
  moreover have "jn_events jn = jn_events jn0 @
          [\<lparr>oe_operation = x, oe_node = n, oe_outcome = OpBegin, oe_detail = NoDetail\<rparr>,
           \<lparr>oe_operation = x, oe_node = n, oe_outcome = fst ?t, oe_detail = snd ?t\<rparr>]"
    by (simp add: jn begun_def notify_event_def record_interruption_def call_device_def)
  moreover have "jn_interruptions jn = (if drop_event is_timeout (fst ?t) (snd ?t)
            then dict_set (op_ref x) i (jn_interruptions jn0) else jn_interruptions jn0)"
    by (simp add: drop jn begun_def notify_event_def record_interruption_def call_device_def)
  moreover have "jn_calls jn = jn_calls jn0 @ (pl_device (op_target x), SendCommand msg)
            # (if drop_event is_timeout (fst ?t) (snd ?t) \<and> can_abort d x
               then [(pl_device (op_target x), SendAbort)] else [])"
    by (simp add: drop jn begun_def notify_event_def record_interruption_def call_device_def)
  ultimately show ?thesis
    using res f(3) terminal_not_begin by blast
qed

lemma start_abort_cases:
  "(\<exists>expired' cancelled' en' ow. fst (start_abort d x n en expired cancelled jn) = Aborting expired' cancelled' en' ow)
   \<or> (\<exists>out. fst (start_abort d x n en expired cancelled jn) = Concluded out)"
  by (simp add: start_abort_def Let_def concluded_eq)

lemma concluding_wake:
  assumes "call_inv d is_timeout x n jn0 ws s" and "\<nexists>out. fst s = Concluded out"
    and "w = \<lparr>wk_end = Some fin, wk_cancel = None\<rparr>"
  shows "\<exists>s'. perform_step d is_timeout x n s w = Some s'
    \<and> ((\<exists>ow. fst s = Sending ow) \<or> (\<exists>out. fst s' = Concluded out))
    \<and> ((\<exists>expired cancelled en ow. fst s' = Aborting expired cancelled en ow) \<or> (\<exists>out. fst s' = Concluded out))"
proof -
  obtain c jn where s: "s = (c, jn)" by fastforce

  show ?thesis
  proof (cases c)
    case (Sending ow)
    then obtain ex c' where "owned_step (op_timeout x \<noteq> None) True ow w = Some (Gone ex c' fin)"
      using assms(1,3) s by (cases ow) (auto simp: until_stopped_def drain_task_def Let_def)
    then show ?thesis
      using s Sending start_abort_cases [of d x n fin ex c' jn] by (simp add: concluded_eq)
  next
    case (Aborting expired cancelled en ow)
    then obtain ex c' where "owned_step True False ow w = Some (Gone ex c' fin)"
      using assms(1,3) s by (cases ow) (auto simp: until_stopped_def drain_task_def Let_def)
    then show ?thesis
      using s Aborting by (simp add: concluded_eq)
  next
    case (Concluded out)
    then show ?thesis using assms(2) s by simp
  qed
qed

lemma perform_can_conclude:
  assumes "call_inv d is_timeout x n jn0 ws s"
  shows "\<exists>ws' out jn. length ws' \<le> 2 \<and> perform_wakes d is_timeout x n s ws' = Some (Concluded out, jn)"
proof -
  let ?w = "\<lparr>wk_end = Some WasCancelled, wk_cancel = None\<rparr>"
  consider (over) out jn where "s = (Concluded out, jn)" | (busy) "\<nexists>out. fst s = Concluded out"
    by (cases s) auto
  then show ?thesis
  proof cases
    case over
    show ?thesis by (rule exI [of _ "[]"]) (simp add: over)
  next
    case busy
    obtain s1 where s1: "perform_step d is_timeout x n s ?w = Some s1"
      using concluding_wake [OF assms busy refl, where fin = WasCancelled] by blast
    note inv1 = perform_step_inv [OF assms s1]
    show ?thesis
    proof (cases "\<exists>out. fst s1 = Concluded out")
      case True
      then show ?thesis using s1 by (intro exI [of _ "[?w]"]) (cases s1; auto)
    next
      case False
      obtain s2 where s2: "perform_step d is_timeout x n s1 ?w = Some s2"
          "(\<exists>ow. fst s1 = Sending ow) \<or> (\<exists>out. fst s2 = Concluded out)"
        using concluding_wake [OF inv1 False refl, where fin = WasCancelled] by blast
      have "\<not> (\<exists>ow. fst s1 = Sending ow)"
        using concluding_wake [OF assms busy refl, where fin = WasCancelled] s1 False by fastforce
      then show ?thesis using s1 s2 by (intro exI [of _ "[?w, ?w]"]) (cases s2; auto)
    qed
  qed
qed

lemma performed_settled:
  assumes "pl_device (op_target x) \<in> di_clients d" and "(outgoing d reported x :: 'e sending_error + message) = Inr msg"
    and "perform_wakes d is_timeout x n (perform d reported x n jn0) ws = Some (s :: ('e, 'v, 'c) call \<times> ('e, 'v) journal)"
  shows "call_inv d is_timeout x n (begun x n msg jn0) ws s"
proof -
  have "perform d reported x n jn0 = (Sending (Until None) :: ('e, 'v, 'c) call, begun x n msg jn0)"
    using assms(1,2) by (simp add: perform_def Let_def begun_def)
  then show ?thesis using perform_wakes_inv [OF _ assms(3), where ws = "[]"] by simp
qed

subsection \<open>The header of an acquisition\<close>

abbreviation contributed :: "string \<Rightarrow> kwsource option \<Rightarrow> kwobj option" where
  "contributed k c \<equiv> (case c of None \<Rightarrow> None | Some src \<Rightarrow> map_of (entries src) k)"

lemma last_with_last:
  "last_with k cs = (if List.map_filter (contributed k) cs = [] then None else Some (last (List.map_filter (contributed k) cs)))"
proof (induction cs rule: rev_induct)
  case Nil
  then show ?case by (simp add: last_with_def map_filter_def)
next
  case (snoc c cs)
  have "last_with k (cs @ [c]) = (case contributed k c of None \<Rightarrow> last_with k cs | Some v \<Rightarrow> Some v)"
    by (simp add: last_with_def split: option.split)
  then show ?case
    using snoc by (cases "contributed k c") (auto simp: map_filter_def)
qed

definition header_sources :: "dispatcher \<Rightarrow> (string, kwsource) dict \<Rightarrow> placement list \<Rightarrow> acquisition \<Rightarrow> kwsource option list" where
  "header_sources d reported chain aq =
    di_base d # map (\<lambda>p. map_of reported (pl_device p)) chain @ [Some (AKeywordDict (aq_keywords aq))]"

lemma header_merges:
  assumes "chain_of (bs_topology (di_sensor d)) (op_target x) = Inr chain" and "op_acquisition x = Some aq"
    and "merge_contexts (header_sources d reported chain aq) = Inr h"
  shows "header d reported x = Inr h"
  using assms by (simp add: header_def header_sources_def)

lemma last_header_source:
  "last_with k (header_sources d reported chain aq) =
    (case map_of (aq_keywords aq) k of
       Some v \<Rightarrow> Some v
     | None \<Rightarrow> (case List.map_filter (\<lambda>p. contributed k (map_of reported (pl_device p))) chain of
         [] \<Rightarrow> contributed k (di_base d)
       | vs \<Rightarrow> Some (last vs)))"
proof -
  have split: "List.map_filter f (a # ms @ [b]) = (case f a of None \<Rightarrow> [] | Some v \<Rightarrow> [v]) @ List.map_filter f ms
      @ (case f b of None \<Rightarrow> [] | Some v \<Rightarrow> [v])" for f :: "kwsource option \<Rightarrow> kwobj option" and a ms b
    by (simp add: map_filter_def split: option.split)
  have mid: "List.map_filter (contributed k) (map (\<lambda>p. map_of reported (pl_device p)) chain)
      = List.map_filter (\<lambda>p. contributed k (map_of reported (pl_device p))) chain"
    by (simp add: map_filter_def filter_map o_def)
  show ?thesis
    unfolding last_with_last header_sources_def split mid
    by (cases "map_of (aq_keywords aq) k";
        cases "List.map_filter (\<lambda>p. contributed k (map_of reported (pl_device p))) chain";
        cases "contributed k (di_base d)") (auto split: list.split)
qed

subsection \<open>Properties\<close>

text \<open>C10. C. A dispatched call is accounted for however it ends.  Its operation is recorded as
  attempted, and exactly one begin event and one terminal event are notified.  A cancellation that
  reached the caller at any of its waits makes it raise that cancellation, even if the call itself
  ended otherwise; without one the result is what the terminal event says.  The call was dropped
  (cancelled, over its deadline or timed out in transport) exactly when one interruption is
  recorded, and only then, and only on a device that supports it, is one Abort sent.\<close>

theorem call_concludes:
  fixes ws :: "('e, 'v, 'c) wake list"
  assumes "pl_device (op_target x) \<in> di_clients d" and "(outgoing d reported x :: 'e sending_error + message) = Inr msg"
    and "perform_wakes d is_timeout x n (perform d reported x n jn0) ws = Some (Concluded out, jn)"
  shows "jn_attempted jn = insert (op_ref x) (jn_attempted jn0)
    \<and> (\<exists>outcome detail i.
        jn_events jn = jn_events jn0 @
          [\<lparr>oe_operation = x, oe_node = n, oe_outcome = OpBegin, oe_detail = NoDetail\<rparr>,
           \<lparr>oe_operation = x, oe_node = n, oe_outcome = outcome, oe_detail = detail\<rparr>]
      \<and> outcome \<noteq> OpBegin
      \<and> (if cancelled_in ws then out = WasCancelled else agrees out outcome detail)
      \<and> (ir_outcome i = NoAbort \<longleftrightarrow> \<not> can_abort d x)
      \<and> jn_interruptions jn = (if drop_event is_timeout outcome detail
            then dict_set (op_ref x) i (jn_interruptions jn0) else jn_interruptions jn0)
      \<and> jn_calls jn = jn_calls jn0 @ (pl_device (op_target x), SendCommand msg)
            # (if drop_event is_timeout outcome detail \<and> can_abort d x
               then [(pl_device (op_target x), SendAbort)] else []))"
  using performed_settled [OF assms] settled_begun [of d is_timeout x n msg jn0 ws out jn] by simp

text \<open>C. No wait of a dispatched call can hang once its tasks end: whatever happened so far, at
  most two endings, of the command and of its Abort, conclude the call.\<close>

theorem call_can_conclude:
  fixes ws :: "('e, 'v, 'c) wake list"
  assumes "pl_device (op_target x) \<in> di_clients d" and "(outgoing d reported x :: 'e sending_error + message) = Inr msg"
    and "perform_wakes d is_timeout x n (perform d reported x n jn0) ws = Some s"
  shows "\<exists>ws' out jn. length ws' \<le> 2 \<and> perform_wakes d is_timeout x n s ws' = Some (Concluded out, jn)"
  using perform_can_conclude [OF performed_settled [OF assms]] .

text \<open>C21. C. The header of an acquisition exists whenever its instrument is placed, and a key that no
  composite keyword stores has the planned value if there is one, else that of the deepest device on
  the chain that reports it, else that of the run's base context.\<close>

theorem header_precedence:
  assumes "chain_of (bs_topology (di_sensor d)) (op_target x) = Inr chain" and "op_acquisition x = Some aq"
    and "\<forall>src. Some src \<in> set (header_sources d reported chain aq) \<longrightarrow>
          (\<forall>y\<in>set (map snd (entries src)). declared_parts y)"
  shows "\<exists>h. header d reported x = Inr h \<and>
    (\<forall>k. (\<forall>src. Some src \<in> set (header_sources d reported chain aq) \<longrightarrow> plain_at k src) \<longrightarrow>
      map_of h k =
        (case map_of (aq_keywords aq) k of
           Some v \<Rightarrow> Some v
         | None \<Rightarrow> (case List.map_filter (\<lambda>p. contributed k (map_of reported (pl_device p))) chain of
             [] \<Rightarrow> contributed k (di_base d)
           | vs \<Rightarrow> Some (last vs))))"
proof -
  obtain h where "merge_contexts (header_sources d reported chain aq) = Inr h"
    using merge_total [OF assms(3)] by blast
  then show ?thesis
    using header_merges [OF assms(1,2)] merge_lookup last_header_source [of _ d reported chain aq] by metis
qed

subsection \<open>Witnesses\<close>

definition demo_call :: operation where
  "demo_call = (demo_op 0 (demo_step ''a'' ''Capture'' demo_cam1 []))\<lparr>op_timeout := Some (Finite 5)\<rparr>"

definition demo_dispatcher :: dispatcher where
  "demo_dispatcher = \<lparr>di_sensor = demo_sensor, di_clients = {pl_device demo_cam1}, di_base = None\<rparr>"

definition empty_journal :: "('e, 'v) journal" where
  "empty_journal = \<lparr>jn_attempted = {}, jn_interruptions = [], jn_events = [], jn_calls = []\<rparr>"

abbreviation demo_call_node :: "operation option node" where
  "demo_call_node \<equiv> demo_node 0 (demo_step ''a'' ''Capture'' demo_cam1 [])"

text \<open>The timer fires, the cancelled command ends, and the camera has no Abort.\<close>

definition demo_wakes :: "(string, unit, unit) wake list" where
  "demo_wakes = [\<lparr>wk_end = None, wk_cancel = None\<rparr>, \<lparr>wk_end = Some WasCancelled, wk_cancel = None\<rparr>]"

lemma demo_call_sent:
  "pl_device (op_target demo_call) \<in> di_clients demo_dispatcher"
  "(outgoing demo_dispatcher [] demo_call :: string sending_error + message) = Inr (AsPlanned \<lparr>cmd_tag = ''Capture'', cmd_args = []\<rparr>)"
  by (simp_all add: demo_call_def demo_op_def demo_step_def demo_dispatcher_def outgoing_def)

lemma demo_cannot_abort: "\<not> can_abort demo_dispatcher demo_call"
  by (simp add: can_abort_def demo_dispatcher_def demo_supported)

lemma demo_call_ends:
  "\<exists>jn. perform_wakes demo_dispatcher (\<lambda>_. False) demo_call demo_call_node
      (perform demo_dispatcher [] demo_call demo_call_node empty_journal) demo_wakes
    = Some (Concluded (Raised (OverDeadline (op_id demo_call) (Some (Finite 5)))), jn)"
proof -
  have "perform demo_dispatcher [] demo_call demo_call_node (empty_journal :: (string, unit) journal)
      = (Sending (Until None) :: (string, unit, unit) call,
         begun demo_call demo_call_node (AsPlanned \<lparr>cmd_tag = ''Capture'', cmd_args = []\<rparr>) empty_journal)"
    using demo_call_sent by (simp add: perform_def Let_def begun_def)
  moreover have "op_timeout demo_call = Some (Finite 5)" by (simp add: demo_call_def)
  ultimately show ?thesis
    using demo_cannot_abort
    by (simp add: demo_wakes_def until_stopped_def drain_task_def dropped_def start_abort_def can_abort_def
        concluded_eq sending_failure_def call_result_def Let_def first_held_def)
qed

theorem call_concludes_witness:
  "\<exists>jn i. perform_wakes demo_dispatcher (\<lambda>_. False) demo_call demo_call_node
      (perform demo_dispatcher [] demo_call demo_call_node empty_journal) demo_wakes
    = Some (Concluded (Raised (OverDeadline (op_id demo_call) (Some (Finite 5)))), jn)
    \<and> jn_interruptions jn = [(0, i)] \<and> ir_outcome i = NoAbort \<and> length (jn_calls jn) = 1"
proof -
  obtain jn where jn: "perform_wakes demo_dispatcher (\<lambda>_. False) demo_call demo_call_node
      (perform demo_dispatcher [] demo_call demo_call_node empty_journal) demo_wakes
    = Some (Concluded (Raised (OverDeadline (op_id demo_call) (Some (Finite 5)))), jn)"
    using demo_call_ends by blast
  have "\<not> cancelled_in demo_wakes" by (simp add: cancelled_in_def demo_wakes_def)
  then have "\<exists>outcome detail i.
      agrees (Raised (OverDeadline (op_id demo_call) (Some (Finite 5))) :: (string sending_error, unit) ending) outcome detail
      \<and> ir_outcome i = NoAbort
      \<and> jn_interruptions jn = (if drop_event (\<lambda>_. False) outcome detail
            then dict_set (op_ref demo_call) i (jn_interruptions (empty_journal :: (string, unit) journal))
            else jn_interruptions (empty_journal :: (string, unit) journal))
      \<and> jn_calls jn = jn_calls (empty_journal :: (string, unit) journal)
        @ [(pl_device (op_target demo_call), SendCommand (AsPlanned \<lparr>cmd_tag = ''Capture'', cmd_args = []\<rparr>))]"
    using conjunct2 [OF call_concludes [OF demo_call_sent jn]] demo_cannot_abort by (simp del: ex_simps split del: if_split) blast
  then obtain outcome detail i where r:
      "agrees (Raised (OverDeadline (op_id demo_call) (Some (Finite 5))) :: (string sending_error, unit) ending) outcome detail"
      "ir_outcome i = NoAbort"
      "jn_interruptions jn = (if drop_event (\<lambda>_. False) outcome detail
            then dict_set (op_ref demo_call) i (jn_interruptions (empty_journal :: (string, unit) journal))
            else jn_interruptions (empty_journal :: (string, unit) journal))"
      "jn_calls jn = jn_calls (empty_journal :: (string, unit) journal)
        @ [(pl_device (op_target demo_call), SendCommand (AsPlanned \<lparr>cmd_tag = ''Capture'', cmd_args = []\<rparr>))]"
    by blast
  have "drop_event (\<lambda>_. False) outcome detail" using r(1) by (simp add: agrees_def drop_event_def)
  moreover have "op_ref demo_call = 0" by (simp add: demo_call_def demo_op_def)
  ultimately show ?thesis using jn r by (auto simp: empty_journal_def)
qed

theorem call_can_conclude_witness:
  "\<exists>ws' out jn. length ws' \<le> 2 \<and> perform_wakes demo_dispatcher (\<lambda>_. False) demo_call demo_call_node
      (perform demo_dispatcher [] demo_call demo_call_node (empty_journal :: (string, unit) journal))
      (ws' :: (string, unit, unit) wake list) = Some (Concluded out, jn)"
  using call_can_conclude [OF demo_call_sent, where ws = "[] :: (string, unit, unit) wake list"] by simp

definition demo_exposure :: acquisition where
  "demo_exposure = \<lparr>aq_request = ''r'', aq_index = 0, aq_frame_number = 1,
    aq_keywords = [(''frame_num'', KwObj 0 None (VInt 1) None)]\<rparr>"

definition demo_reported :: "(string, kwsource) dict" where
  "demo_reported = map (\<lambda>k. (k, AContext [(''gain'', KwObj 1 (Some ''gain'') (VInt 7) None)])) (dict_keys demo_details)"

lemma demo_exposure_keys [simp]: "aq_keywords demo_exposure = [(''frame_num'', KwObj 0 None (VInt 1) None)]"
  by (simp add: demo_exposure_def)

definition demo_shot :: operation where
  "demo_shot = demo_call\<lparr>op_acquisition := Some demo_exposure\<rparr>"

lemma demo_shot_simps [simp]:
  "op_target demo_shot = demo_cam1" "op_acquisition demo_shot = Some demo_exposure"
  "bs_topology (di_sensor demo_dispatcher) = demo_topology" "di_base demo_dispatcher = None"
  by (simp_all add: demo_shot_def demo_call_def demo_op_def demo_step_def demo_dispatcher_def demo_sensor_def bound_def)

text \<open>The focuser below the wheel is the deepest device that reports a gain besides the camera
  itself, whose report wins.\<close>

theorem header_precedence_witness:
  "\<exists>h. header demo_dispatcher demo_reported demo_shot = (Inr h :: string sending_error + kwdict)
    \<and> map_of h ''gain'' = Some (KwObj 1 (Some ''gain'') (VInt 7) None)"
proof -
  obtain chain where chain: "chain_of demo_topology demo_cam1 = Inr chain" "chain = [\<lparr>pl_device = ''mount'', pl_path = []\<rparr>,
     \<lparr>pl_device = ''wheel'', pl_path = [''bench'']\<rparr>, \<lparr>pl_device = ''focuser'', pl_path = [''bench'', ''a'']\<rparr>, demo_cam1]"
    using demo_chain by blast
  have src: "set (header_sources demo_dispatcher demo_reported chain demo_exposure)
      = {None, Some (AContext [(''gain'', KwObj 1 (Some ''gain'') (VInt 7) None)]), Some (AKeywordDict (aq_keywords demo_exposure))}"
    by (auto simp: header_sources_def chain(2) demo_reported_def demo_details_def)
  have gain: "contributed ''gain'' (map_of demo_reported k) = Some (KwObj 1 (Some ''gain'') (VInt 7) None)"
    if "k \<in> {''mount'', ''wheel'', ''focuser'', ''cam1''}" for k
    using that by (auto simp: demo_reported_def demo_details_def)
  have "\<exists>h. header demo_dispatcher demo_reported demo_shot = (Inr h :: string sending_error + kwdict) \<and>
    (\<forall>k. (\<forall>src. Some src \<in> set (header_sources demo_dispatcher demo_reported chain demo_exposure) \<longrightarrow> plain_at k src) \<longrightarrow>
      map_of h k =
        (case map_of (aq_keywords demo_exposure) k of
           Some v \<Rightarrow> Some v
         | None \<Rightarrow> (case List.map_filter (\<lambda>p. contributed k (map_of demo_reported (pl_device p))) chain of
             [] \<Rightarrow> contributed k (di_base demo_dispatcher)
           | vs \<Rightarrow> Some (last vs))))"
    by (rule header_precedence) (auto simp: chain(1) src)
  then obtain h where h: "header demo_dispatcher demo_reported demo_shot = (Inr h :: string sending_error + kwdict)"
      "map_of h ''gain'' = (case map_of (aq_keywords demo_exposure) ''gain'' of
           Some v \<Rightarrow> Some v
         | None \<Rightarrow> (case List.map_filter (\<lambda>p. contributed ''gain'' (map_of demo_reported (pl_device p))) chain of
             [] \<Rightarrow> contributed ''gain'' (di_base demo_dispatcher)
           | vs \<Rightarrow> Some (last vs)))"
    using src by auto
  show ?thesis
    using h gain by (auto simp: chain(2) map_filter_simps)
qed

end
