(* ===== verification/Sensor_Execution.thy ===== *)
theory Sensor_Execution
  imports Sensor_Dispatch
begin

section \<open>Workflow execution (core/src/sensorkit/sensor/execution.py)\<close>

text \<open>
  \<open>WorkflowExecutor.execute\<close> with \<open>ExecutionState\<close>, \<open>_dispatching\<close>, \<open>_cleaned_up\<close> and
  \<open>_bounded\<close>: the runner of \<open>Dag_Run\<close> over the graphs of a workflow of \<open>Sensor_Workflow\<close>, one
  \<open>Dispatcher.perform\<close> of \<open>Sensor_Dispatch\<close> per dispatched operation.  The scheduler of the event
  loop is the environment.  An event is one resumption: a node's task begins, is dropped before it
  dispatches, or is woken; the runner sees tasks that ended; the caller cancels; a cleanup's task
  begins, its total deadline expires, its owner sees it done.  Between two events the code is
  deterministic.  Tasks may be cancelled at any moment, which covers the cancellations the runner
  forwards.  The text of a \<open>WorkflowError\<close> and log summaries are not modelled.
\<close>

subsection \<open>Reports and state\<close>

type_synonym ('e, 'v) op_report = "(operation option, 'e sending_error, 'v option) run_report"

type_synonym ('e, 'v, 'c) op_config = "(operation option, 'e sending_error, 'v option, 'c) config"

record ('e, 'v) cleanup_report =
  cr_cleanup :: cleanup
  cr_run :: "('e, 'v) op_report"
  cr_expired :: bool

definition cleanup_failed :: "('e, 'v) cleanup_report \<Rightarrow> bool" where
  "cleanup_failed r \<longleftrightarrow> cr_expired r \<or> failures (cr_run r) \<noteq> []"

record ('e, 'v) execution_state =
  es_journal :: "('e, 'v) journal"
  es_run :: "('e, 'v) op_report option"
  es_cleanup :: "('e, 'v) cleanup_report list"
  es_used :: bool

definition begin_state :: "workflow \<Rightarrow> ('e, 'v) execution_state \<Rightarrow> string + ('e, 'v) execution_state" where
  "begin_state w s =
    (if es_used s then Inl (ew_name w)
     else Inr (s\<lparr>es_used := True,
       es_run := Some \<lparr>rr_name = ew_name w, rr_graph = ew_graph w, rr_results = [], rr_aborted = False\<rparr>\<rparr>))"

datatype workflow_outcome = Completed | Aborted

record ('e, 'v) workflow_report =
  wr_name :: string
  wr_run :: "('e, 'v) op_report"
  wr_cleanup :: "('e, 'v) cleanup_report list"
  wr_attempted :: "nat set"
  wr_interruptions :: "(nat, 'e call_interruption) dict"
  wr_outcome :: workflow_outcome
  wr_reason :: "string option"

subsection \<open>Tasks of dispatched nodes\<close>

datatype ('e, 'v, 'c) node_task =
    Scheduled
  | Calling "('e, 'v, 'c) call"
  | TaskOver "('e sending_error, 'v option) ending"

fun task_of_call :: "('e, 'v, 'c) call \<Rightarrow> ('e, 'v, 'c) node_task" where
  "task_of_call (Concluded out) = TaskOver (map_ending id Some out)"
| "task_of_call c = Calling c"

text \<open>The dispatch that \<open>_dispatching\<close> builds: an ordering node resolves at once.\<close>

definition dispatch_node :: "dispatcher \<Rightarrow> (string, kwsource) dict \<Rightarrow> operation option node \<Rightarrow> ('e, 'v) journal
    \<Rightarrow> ('e, 'v, 'c) node_task \<times> ('e, 'v) journal" where
  "dispatch_node d reported n jn =
    (case n_payload n of
       None \<Rightarrow> (TaskOver (Finished None), jn)
     | Some x \<Rightarrow> (let (c, jn') = perform d reported x n jn in (task_of_call c, jn')))"

definition wake_task :: "dispatcher \<Rightarrow> ('e \<Rightarrow> bool) \<Rightarrow> operation option node \<Rightarrow> ('e, 'v, 'c) call \<Rightarrow> ('e, 'v, 'c) wake
    \<Rightarrow> ('e, 'v) journal \<Rightarrow> (('e, 'v, 'c) node_task \<times> ('e, 'v) journal) option" where
  "wake_task d is_timeout n c w jn =
    (case n_payload n of
       None \<Rightarrow> None
     | Some x \<Rightarrow> map_option (\<lambda>(c, jn). (task_of_call c, jn)) (perform_step d is_timeout x n (c, jn) w))"

fun in_flight :: "('p, 'e, 'v, 'c) config \<Rightarrow> nat list" where
  "in_flight (Waiting st) = rs_running st"
| "in_flight (Draining st hard declined ended) = filter (\<lambda>i. i \<notin> set (map fst ended)) (rs_running st)"
| "in_flight _ = []"

definition keep_tasks :: "('p, 'e, 'v, 'c) config \<Rightarrow> (nat, ('e2, 'v2, 'c2) node_task) dict
    \<Rightarrow> (nat, ('e2, 'v2, 'c2) node_task) dict" where
  "keep_tasks cfg tasks =
    map (\<lambda>i. (i, case map_of tasks i of Some t \<Rightarrow> t | None \<Rightarrow> Scheduled)) (in_flight cfg)"

subsection \<open>The execution\<close>

text \<open>\<open>NeverRan\<close> is a cleanup task cancelled before its first step.\<close>

datatype ('e, 'v) cleanup_run = NotStarted | Going "('e, 'v, unit) op_config" | NeverRan

record ('e, 'v, 'c) bounded_run =
  bd_run :: "('e, 'v) cleanup_run"
  bd_expired :: bool
  bd_cancelled :: bool
  bd_declined :: "'c option"

datatype ('e, 'v, 'c) exec_phase =
    Running "('e, 'v, 'c) op_config"
  | CleaningUp "cleanup list" cleanup "('e, 'v, 'c) bounded_run"
  | Reported "('e, 'v) workflow_report"
  | WorkflowFailed "('e, 'v) workflow_report"
  | HardCancelled 'c
  | RunnerCrashed

record ('e, 'v, 'c) workflow_execution =
  ex_state :: "('e, 'v) execution_state"
  ex_tasks :: "(nat, ('e, 'v, 'c) node_task) dict"
  ex_reasons :: "string list"
  ex_phase :: "('e, 'v, 'c) exec_phase"

record ('e, 'c) setting =
  sg_iter :: "nat set \<Rightarrow> nat list"
  sg_dispatcher :: dispatcher
  sg_is_timeout :: "'e \<Rightarrow> bool"
  sg_in_domain :: "('c \<Rightarrow> bool) option"
  sg_str :: "'c \<Rightarrow> string"

text \<open>\<open>claimed\<close> with its side effect on the reasons.\<close>

definition claimed :: "('e, 'c) setting \<Rightarrow> 'c \<Rightarrow> bool" where
  "claimed sg c = claims (sg_in_domain sg) c"

definition noted :: "('e, 'c) setting \<Rightarrow> 'c \<Rightarrow> string list \<Rightarrow> string list" where
  "noted sg c reasons =
    (if claimed sg c then reasons @ [if sg_str sg c \<noteq> [] then sg_str sg c else ''cancelled''] else reasons)"

text \<open>Whether the runner classifies a cancellation that reaches it now.\<close>

fun asks :: "('p, 'e, 'v, 'c) config \<Rightarrow> bool" where
  "asks (Waiting st) = True"
| "asks (Draining st hard declined ended) \<longleftrightarrow> hard = None \<and> declined = None"
| "asks _ = False"

definition conclude_execution :: "workflow \<Rightarrow> ('e, 'v) op_report \<Rightarrow> bool \<Rightarrow> ('e, 'v, 'c) workflow_execution \<Rightarrow> ('e, 'v, 'c) workflow_execution" where
  "conclude_execution w run ended ex =
    (let s = ex_state ex;
         aborted = rr_aborted run \<or> ended;
         report = \<lparr>wr_name = ew_name w, wr_run = run, wr_cleanup = es_cleanup s,
           wr_attempted = jn_attempted (es_journal s), wr_interruptions = jn_interruptions (es_journal s),
           wr_outcome = (if aborted then Aborted else Completed),
           wr_reason = (if aborted \<and> ex_reasons ex \<noteq> [] then Some (hd (ex_reasons ex)) else None)\<rparr>
     in ex\<lparr>ex_tasks := [],
         ex_phase := (if failures run \<noteq> [] \<or> \<not> aborted \<and> list_ex cleanup_failed (wr_cleanup report)
                      then WorkflowFailed report else Reported report)\<rparr>)"

fun next_cleanup :: "workflow \<Rightarrow> ('e, 'v) op_report \<Rightarrow> cleanup list \<Rightarrow> ('e, 'v, 'c) workflow_execution \<Rightarrow> ('e, 'v, 'c) workflow_execution" where
  "next_cleanup w run [] ex = conclude_execution w run False ex"
| "next_cleanup w run (c # cs) ex =
    (if cleanup_selected (cl_when c) (failures run \<noteq> []) (rr_aborted run)
        \<and> cleanup_armed c (jn_attempted (es_journal (ex_state ex)))
     then ex\<lparr>ex_tasks := [], ex_phase := CleaningUp cs c
       \<lparr>bd_run = NotStarted, bd_expired = False, bd_cancelled = False, bd_declined = None\<rparr>\<rparr>
     else next_cleanup w run cs ex)"

text \<open>What follows the runner's next await or return in the main run.\<close>

definition after_main :: "workflow \<Rightarrow> ('e, 'v, 'c) op_config \<Rightarrow> ('e, 'v, 'c) workflow_execution \<Rightarrow> ('e, 'v, 'c) workflow_execution" where
  "after_main w cfg ex =
    (case cfg of
       Returned rep \<Rightarrow> next_cleanup w rep (ew_cleanup w) (ex\<lparr>ex_state := (ex_state ex)\<lparr>es_run := Some rep\<rparr>\<rparr>)
     | Propagated c res \<Rightarrow>
         ex\<lparr>ex_state := (ex_state ex)\<lparr>es_run := Some \<lparr>rr_name = ew_name w, rr_graph = ew_graph w,
              rr_results = res, rr_aborted = False\<rparr>\<rparr>,
            ex_tasks := [], ex_phase := HardCancelled c\<rparr>
     | Deadlocked \<Rightarrow> ex\<lparr>ex_tasks := [], ex_phase := RunnerCrashed\<rparr>
     | _ \<Rightarrow> ex\<lparr>ex_tasks := keep_tasks cfg (ex_tasks ex), ex_phase := Running cfg\<rparr>)"

definition start_execution :: "('e, 'c) setting \<Rightarrow> workflow \<Rightarrow> ('e, 'v) execution_state \<Rightarrow> string + ('e, 'v, 'c) workflow_execution" where
  "start_execution sg w s =
    rbind (begin_state w s) (\<lambda>s.
      Inr (after_main w (execute (sg_iter sg) (ew_name w) (ew_graph w) [])
        \<lparr>ex_state = s, ex_tasks = [], ex_reasons = [], ex_phase = RunnerCrashed\<rparr>))"

text \<open>The graph whose nodes are dispatched, and the tasks that ended.\<close>

fun current_graph :: "workflow \<Rightarrow> ('e, 'v, 'c) exec_phase \<Rightarrow> operation option graph option" where
  "current_graph w (Running cfg) = Some (ew_graph w)"
| "current_graph w (CleaningUp cs c b) = Some (cl_graph c)"
| "current_graph w _ = None"

definition endings :: "(nat, ('e, 'v, 'c) node_task) dict \<Rightarrow> nat list \<Rightarrow> (nat \<times> ('e sending_error, 'v option) ending) list option" where
  "endings tasks is =
    those (map (\<lambda>i. case map_of tasks i of Some (TaskOver en) \<Rightarrow> Some (i, en) | _ \<Rightarrow> None) is)"

definition set_task :: "nat \<Rightarrow> ('e, 'v, 'c) node_task \<times> ('e, 'v) journal \<Rightarrow> ('e, 'v, 'c) workflow_execution \<Rightarrow> ('e, 'v, 'c) workflow_execution" where
  "set_task i tj ex =
    ex\<lparr>ex_tasks := dict_set i (fst tj) (ex_tasks ex),
       ex_state := (ex_state ex)\<lparr>es_journal := snd tj\<rparr>\<rparr>"

datatype ('e, 'v, 'c) exec_event =
    TaskStarts nat "(string, kwsource) dict"
  | TaskDropped nat
  | TaskWakes nat "('e, 'v, 'c) wake"
  | RunnerWakes "nat list"
  | CallerCancels 'c
  | CleanupStarts
  | CleanupExpires
  | CleanupSeenDone

text \<open>The cleanup task's own steps.\<close>

definition cleanup_config :: "('e, 'v, 'c) workflow_execution \<Rightarrow> ('e, 'v, 'c) bounded_run \<Rightarrow> ('e, 'v, unit) op_config
    \<Rightarrow> cleanup list \<Rightarrow> cleanup \<Rightarrow> ('e, 'v, 'c) workflow_execution" where
  "cleanup_config ex b cfg cs c =
    ex\<lparr>ex_tasks := keep_tasks cfg (ex_tasks ex), ex_phase := CleaningUp cs c (b\<lparr>bd_run := Going cfg\<rparr>)\<rparr>"

fun cleanup_done :: "('e, 'v) cleanup_run \<Rightarrow> bool" where
  "cleanup_done NotStarted = False"
| "cleanup_done NeverRan = True"
| "cleanup_done (Going cfg) = (case cfg of Waiting st \<Rightarrow> False | Draining st h d en \<Rightarrow> False | _ \<Rightarrow> True)"

text \<open>\<open>running.cancel()\<close>.\<close>

fun cancel_cleanup :: "(nat set \<Rightarrow> nat list) \<Rightarrow> cleanup \<Rightarrow> ('e, 'v) cleanup_run \<Rightarrow> ('e, 'v) cleanup_run" where
  "cancel_cleanup iter c NotStarted = NeverRan"
| "cancel_cleanup iter c NeverRan = NeverRan"
| "cancel_cleanup iter c (Going cfg) =
    (case on_event iter (origin_str (cl_origin c)) (Some (\<lambda>_. True)) (cl_graph c) cfg (Interrupt ()) of
       None \<Rightarrow> Going cfg | Some cfg' \<Rightarrow> Going cfg')"

definition cleanup_result :: "cleanup \<Rightarrow> ('e, 'v) cleanup_run \<Rightarrow> ('e, 'v) op_report option" where
  "cleanup_result c r =
    (case r of
       NeverRan \<Rightarrow> Some \<lparr>rr_name = origin_str (cl_origin c), rr_graph = cl_graph c, rr_results = [], rr_aborted = True\<rparr>
     | Going (Returned rep) \<Rightarrow> Some rep
     | Going (Propagated _ res) \<Rightarrow>
         Some \<lparr>rr_name = origin_str (cl_origin c), rr_graph = cl_graph c, rr_results = res, rr_aborted = True\<rparr>
     | _ \<Rightarrow> None)"

definition cancel_bounded :: "('e, 'c) setting \<Rightarrow> 'c option \<Rightarrow> cleanup list \<Rightarrow> cleanup \<Rightarrow> ('e, 'v, 'c) bounded_run
    \<Rightarrow> ('e, 'v, 'c) workflow_execution \<Rightarrow> ('e, 'v, 'c) workflow_execution" where
  "cancel_bounded sg cancellation cs c b ex =
    (let r = cancel_cleanup (sg_iter sg) c (bd_run b);
         kept = (case r of Going cfg \<Rightarrow> keep_tasks cfg (ex_tasks ex) | _ \<Rightarrow> []) in
     case cancellation of
       None \<Rightarrow> ex\<lparr>ex_tasks := kept, ex_phase := CleaningUp cs c (b\<lparr>bd_run := r, bd_expired := True\<rparr>)\<rparr>
     | Some e \<Rightarrow>
         ex\<lparr>ex_tasks := kept,
            ex_reasons := (if bd_declined b = None then noted sg e (ex_reasons ex) else ex_reasons ex),
            ex_phase := CleaningUp cs c (b\<lparr>bd_run := r, bd_cancelled := True,
              bd_declined := (if bd_declined b = None \<and> \<not> claimed sg e then Some e else bd_declined b)\<rparr>)\<rparr>)"

definition seen_done :: "workflow \<Rightarrow> ('e, 'v) op_report \<Rightarrow> cleanup list \<Rightarrow> cleanup \<Rightarrow> ('e, 'v, 'c) bounded_run
    \<Rightarrow> ('e, 'v) op_report \<Rightarrow> ('e, 'v, 'c) workflow_execution \<Rightarrow> ('e, 'v, 'c) workflow_execution" where
  "seen_done w main cs c b rep ex =
    (let ex = ex\<lparr>ex_tasks := [], ex_state := (ex_state ex)\<lparr>es_cleanup := es_cleanup (ex_state ex)
           @ [\<lparr>cr_cleanup = c, cr_run = rep, cr_expired = bd_expired b\<rparr>]\<rparr>\<rparr> in
     case bd_declined b of
       Some e \<Rightarrow> ex\<lparr>ex_phase := HardCancelled e\<rparr>
     | None \<Rightarrow> if bd_cancelled b then conclude_execution w main True ex else next_cleanup w main cs ex)"

fun exec_step :: "('e, 'c) setting \<Rightarrow> workflow \<Rightarrow> ('e, 'v, 'c) workflow_execution \<Rightarrow> ('e, 'v, 'c) exec_event
    \<Rightarrow> ('e, 'v, 'c) workflow_execution option" where
  "exec_step sg w ex (TaskStarts i reported) =
    (case (current_graph w (ex_phase ex), map_of (ex_tasks ex) i) of
       (Some g, Some Scheduled) \<Rightarrow>
         Some (set_task i (dispatch_node (sg_dispatcher sg) reported (node_of g i) (es_journal (ex_state ex))) ex)
     | _ \<Rightarrow> None)"
| "exec_step sg w ex (TaskDropped i) =
    (case map_of (ex_tasks ex) i of
       Some Scheduled \<Rightarrow> Some (set_task i (TaskOver WasCancelled, es_journal (ex_state ex)) ex)
     | _ \<Rightarrow> None)"
| "exec_step sg w ex (TaskWakes i wake) =
    (case (current_graph w (ex_phase ex), map_of (ex_tasks ex) i) of
       (Some g, Some (Calling c)) \<Rightarrow>
         map_option (\<lambda>tj. set_task i tj ex)
           (wake_task (sg_dispatcher sg) (sg_is_timeout sg) (node_of g i) c wake (es_journal (ex_state ex)))
     | _ \<Rightarrow> None)"
| "exec_step sg w ex (RunnerWakes is) =
    (case (ex_phase ex, endings (ex_tasks ex) is) of
       (Running cfg, Some ends) \<Rightarrow>
         map_option (\<lambda>cfg'. after_main w cfg' ex)
           (on_event (sg_iter sg) (ew_name w) (Some (claimed sg)) (ew_graph w) cfg (Ended ends))
     | (CleaningUp cs c b, Some ends) \<Rightarrow>
         (case bd_run b of
            Going cfg \<Rightarrow>
              map_option (\<lambda>cfg'. cleanup_config ex b cfg' cs c)
                (on_event (sg_iter sg) (origin_str (cl_origin c)) (Some (\<lambda>_. True)) (cl_graph c) cfg (Ended ends))
          | _ \<Rightarrow> None)
     | _ \<Rightarrow> None)"
| "exec_step sg w ex (CallerCancels e) =
    (case ex_phase ex of
       Running cfg \<Rightarrow>
         map_option (\<lambda>cfg'. after_main w cfg'
             (ex\<lparr>ex_reasons := if asks cfg then noted sg e (ex_reasons ex) else ex_reasons ex\<rparr>))
           (on_event (sg_iter sg) (ew_name w) (Some (claimed sg)) (ew_graph w) cfg (Interrupt e))
     | CleaningUp cs c b \<Rightarrow> Some (cancel_bounded sg (Some e) cs c b ex)
     | _ \<Rightarrow> None)"
| "exec_step sg w ex CleanupStarts =
    (case ex_phase ex of
       CleaningUp cs c b \<Rightarrow>
         if bd_run b = NotStarted
         then Some (cleanup_config ex b (execute (sg_iter sg) (origin_str (cl_origin c)) (cl_graph c) []) cs c)
         else None
     | _ \<Rightarrow> None)"
| "exec_step sg w ex CleanupExpires =
    (case ex_phase ex of
       CleaningUp cs c b \<Rightarrow>
         if \<not> bd_expired b \<and> \<not> bd_cancelled b \<and> \<not> cleanup_done (bd_run b)
         then Some (cancel_bounded sg None cs c b ex) else None
     | _ \<Rightarrow> None)"
| "exec_step sg w ex CleanupSeenDone =
    (case (ex_phase ex, es_run (ex_state ex)) of
       (CleaningUp cs c b, Some main) \<Rightarrow>
         if cleanup_done (bd_run b)
         then Some (case cleanup_result c (bd_run b) of
             None \<Rightarrow> ex\<lparr>ex_tasks := [], ex_phase := RunnerCrashed\<rparr>
           | Some rep \<Rightarrow> seen_done w main cs c b rep ex)
         else None
     | _ \<Rightarrow> None)"

subsection \<open>What the runner does with the tasks it holds\<close>

lemma in_flight_start: "set (rs_running st) \<subseteq> set (rs_running (start_ready iter g st)) \<Longrightarrow>
  set (rs_running st) \<subseteq> set (in_flight (advance iter name g st)) \<or> rs_running st = []"
  by (auto simp: advance_def Let_def)

lemma in_flight_drained:
  "i \<in> set (rs_running st) \<Longrightarrow> i \<notin> set (map fst ended)
    \<Longrightarrow> i \<in> set (in_flight (drained name g st hard declined ended))"
  by (auto simp: drained_def list_all_iff Let_def)

lemma in_flight_event:
  assumes "built_graph g" and "iter_ok iter" and "config_inv g cfg"
    and "on_event iter name absorbed g cfg (Ended ends) = Some cfg'" and "i \<in> set (in_flight cfg)"
  shows "i \<in> set (map fst ends) \<or> i \<in> set (in_flight cfg')"
proof -
  have wf: "wf_graph g" by (rule built.yields_wf [OF assms(1)])
  show ?thesis
  proof (cases cfg)
    case (Waiting st)
    then have st: "run_inv g st" "distinct (map fst ends)" "set (map fst ends) \<subseteq> set (rs_running st)"
      and eq: "cfg' = advance iter name g (fold (record_end g) ends st)"
      using assms(3,4) by (auto split: if_splits)
    note F = fold_record_end [OF wf st]
    show ?thesis
    proof (cases "i \<in> set (map fst ends)")
      case False
      then have i: "i \<in> set (rs_running (fold (record_end g) ends st))"
        using F assms(5) Waiting by simp
      let ?t = "fold (record_end g) ends st"
      have "set (rs_running ?t) \<subseteq> set (rs_running (start_ready iter g ?t))"
        using start_ready_inv [OF assms(2) wf conjunct1 [OF F]] by (elim conjE)
      from in_flight_start [OF this, of name] have "set (rs_running ?t) \<subseteq> set (in_flight cfg')"
        using i unfolding eq by (metis empty_iff empty_set)
      then show ?thesis using i by blast
    qed simp
  next
    case (Draining st hard declined ended)
    then have eq: "cfg' = drained name g st hard declined (ended @ ends)"
      using assms(4) by (auto split: if_splits)
    have i: "i \<in> set (rs_running st)" "i \<notin> set (map fst ended)" using assms(5) Draining by simp_all
    show ?thesis
    proof (cases "i \<in> set (map fst ends)")
      case False
      then have "i \<notin> set (map fst (ended @ ends))" using i(2) by simp
      from in_flight_drained [OF i(1) this] show ?thesis unfolding eq by blast
    qed simp
  qed (use assms(4) in simp_all)
qed

text \<open>Only a classified cancellation leads out of waiting; what a drain ends in depends on it.\<close>

fun classified :: "('c \<Rightarrow> bool) \<Rightarrow> bool \<Rightarrow> ('p, 'e, 'v, 'c) config \<Rightarrow> bool" where
  "classified own noted_one (Waiting st) \<longleftrightarrow> True"
| "classified own noted_one (Draining st hard declined ended) \<longleftrightarrow>
    (case hard of Some e \<Rightarrow> \<not> own e
     | None \<Rightarrow> noted_one \<and> (\<forall>e. declined = Some e \<longrightarrow> \<not> own e))"
| "classified own noted_one (Returned rep) \<longleftrightarrow> (rr_aborted rep \<longrightarrow> noted_one)"
| "classified own noted_one (Propagated e res) \<longleftrightarrow> \<not> own e"
| "classified own noted_one Deadlocked \<longleftrightarrow> True"

lemma classified_mono: "classified own b cfg \<Longrightarrow> (b \<longrightarrow> b') \<Longrightarrow> classified own b' cfg"
  by (cases cfg) (auto split: option.splits)

lemma classified_drained:
  "classified own b (Draining st hard declined ended) \<Longrightarrow> classified own b (drained name g st hard declined ended')"
  by (auto simp: drained_def Let_def split: option.splits)

lemma classified_advance: "classified own b (advance iter name g st)"
  by (simp add: advance_def Let_def)

lemma classified_ended:
  assumes "classified own b cfg" and "on_event iter name absorbed g cfg (Ended ends) = Some cfg'"
  shows "classified own b cfg'"
proof (cases cfg)
  case (Waiting st)
  then show ?thesis using assms(2) classified_advance by (auto split: if_splits)
next
  case (Draining st hard declined ended)
  then have "cfg' = drained name g st hard declined (ended @ ends)"
    using assms(2) by (auto split: if_splits)
  then show ?thesis using classified_drained assms(1) Draining by blast
qed (use assms(2) in simp_all)

lemma claims_Some [simp]: "claims (Some f) e = f e" "\<not> claims None e"
  by (simp_all add: claims_def)

lemma interrupt_waiting:
  assumes "rs_running st \<noteq> []"
  shows "on_event iter name absorbed g (Waiting st) (Interrupt e)
    = Some (Draining st (if claims absorbed e then None else Some e) None [])"
  using assms by (cases "rs_running st") (auto simp: drained_def)

lemma classified_interrupt:
  assumes "classified own b cfg" and "config_inv g cfg"
    and "on_event iter name (Some own) g cfg (Interrupt e) = Some cfg'"
  shows "classified own (b \<or> asks cfg \<and> own e) cfg' \<and> in_flight cfg' = in_flight cfg"
proof (cases cfg)
  case (Waiting st)
  then have "cfg' = Draining st (if own e then None else Some e) None []"
    using assms(2,3) interrupt_waiting [of st iter name "Some own" g e] by simp
  then show ?thesis using Waiting by simp
next
  case (Draining st hard declined ended)
  then have "cfg' = Draining st hard
      (if declined = None \<and> \<not> claims (if hard = None then Some own else None) e then Some e else declined) ended"
    using assms(3) by simp
  then show ?thesis using assms(1) Draining by (auto split: option.splits)
qed (use assms(3) in simp_all)

lemma config_in_flight_distinct: "config_inv g cfg \<Longrightarrow> distinct (in_flight cfg)"
  using run_invD(1) by (cases cfg) fastforce+

subsection \<open>The calls of the dispatched nodes\<close>

text \<open>A call that has not concluded, as \<open>perform\<close> leaves it between two resumptions.\<close>

fun call_live :: "('e \<Rightarrow> bool) \<Rightarrow> ('e, 'v, 'c) call \<Rightarrow> bool" where
  "call_live is_timeout (Sending ow) \<longleftrightarrow> (\<forall>ex ca en. ow \<noteq> Gone ex ca en)"
| "call_live is_timeout (Aborting expired cancelled sent ow) \<longleftrightarrow>
    dropped is_timeout sent \<and> (\<forall>ex ca en. ow \<noteq> Gone ex ca en)"
| "call_live is_timeout (Concluded out) \<longleftrightarrow> False"

text \<open>One more terminal event, with an interruption recorded exactly if it tells of a drop.\<close>

definition ends_call :: "('e \<Rightarrow> bool) \<Rightarrow> operation \<Rightarrow> ('e, 'v) journal \<Rightarrow> ('e, 'v) journal \<Rightarrow> bool" where
  "ends_call is_timeout x jn jn' \<longleftrightarrow> jn_attempted jn' = jn_attempted jn \<and>
    (\<exists>n outcome detail i. outcome \<noteq> OpBegin
      \<and> jn_events jn' = jn_events jn @ [\<lparr>oe_operation = x, oe_node = n, oe_outcome = outcome, oe_detail = detail\<rparr>]
      \<and> jn_interruptions jn' = (if drop_event is_timeout outcome detail
          then dict_set (op_ref x) i (jn_interruptions jn) else jn_interruptions jn))"

definition same_record :: "('e, 'v) journal \<Rightarrow> ('e, 'v) journal \<Rightarrow> bool" where
  "same_record jn jn' \<longleftrightarrow> jn_attempted jn' = jn_attempted jn \<and> jn_events jn' = jn_events jn
    \<and> jn_interruptions jn' = jn_interruptions jn"

definition call_progress :: "('e \<Rightarrow> bool) \<Rightarrow> operation \<Rightarrow> ('e, 'v) journal \<Rightarrow> ('e, 'v, 'c) call \<times> ('e, 'v) journal \<Rightarrow> bool" where
  "call_progress is_timeout x jn s \<longleftrightarrow>
    (case fst s of Concluded out \<Rightarrow> ends_call is_timeout x jn (snd s)
     | c \<Rightarrow> call_live is_timeout c \<and> same_record jn (snd s))"

lemma concluded_progress:
  assumes "same_record jn jn1 \<and> \<not> dropped is_timeout en
      \<or> dropped is_timeout en \<and> same_record (record_interruption x i jn) jn1"
  shows "call_progress is_timeout x jn (concluded x n en expired cancelled jn1)"
proof -
  let ?t = "terminal_event en (sending_failure x en expired cancelled)"
  have "jn_interruptions jn1 = (if drop_event is_timeout (fst ?t) (snd ?t)
      then dict_set (op_ref x) i (jn_interruptions jn) else jn_interruptions jn)"
    using assms by (auto simp: terminal_drop same_record_def record_interruption_def)
  moreover have "jn_attempted jn1 = jn_attempted jn" "jn_events jn1 = jn_events jn"
    using assms by (auto simp: same_record_def record_interruption_def)
  ultimately have "ends_call is_timeout x jn (notify_event x n (fst ?t) (snd ?t) jn1)"
    unfolding ends_call_def
    using terminal_not_begin [of en "sending_failure x en expired cancelled"]
    by (auto simp: notify_event_def intro!: exI [of _ n] exI [of _ "fst ?t"] exI [of _ "snd ?t"] exI [of _ i])
  then show ?thesis by (simp add: call_progress_def concluded_eq)
qed

lemma same_record_refl [simp]: "same_record jn jn"
  by (simp add: same_record_def)

lemma same_record_call [simp]: "same_record jn (call_device k c jn)"
  by (simp add: same_record_def call_device_def)

lemma start_abort_progress:
  assumes "dropped is_timeout en"
  shows "call_progress is_timeout x jn (start_abort d x n en expired cancelled jn)"
proof (cases "''Abort'' \<in> supported_commands (di_sensor d) (pl_device (op_target x))")
  case True
  then show ?thesis using assms by (simp add: start_abort_def Let_def call_progress_def)
next
  case False
  have "call_progress is_timeout x jn (concluded x n en expired cancelled
      (record_interruption x \<lparr>ir_outcome = NoAbort, ir_error = None\<rparr> jn))"
    by (rule concluded_progress [where i = "\<lparr>ir_outcome = NoAbort, ir_error = None\<rparr>"]) (use assms in auto)
  then show ?thesis using False by (simp add: start_abort_def Let_def)
qed

lemma perform_step_progress:
  assumes "perform_step d is_timeout x n (c, jn) w = Some s" and "call_live is_timeout c"
  shows "call_progress is_timeout x jn s"
proof (cases c)
  case (Sending ow)
  then obtain ow' where o: "owned_step (op_timeout x \<noteq> None) True ow w = Some ow'"
    using assms(1) by (auto split: option.splits)
  show ?thesis
  proof (cases ow')
    case (Gone expired cancelled en)
    then have s: "s = (if dropped is_timeout en then start_abort d x n en expired cancelled jn
        else concluded x n en expired cancelled jn)"
      using assms(1) Sending o by simp
    show ?thesis
    proof (cases "dropped is_timeout en")
      case True
      then show ?thesis using s start_abort_progress by simp
    next
      case False
      have "call_progress is_timeout x jn (concluded x n en expired cancelled jn)"
        by (rule concluded_progress) (use False in auto)
      then show ?thesis using s False by simp
    qed
  qed (use assms(1) Sending o in \<open>auto simp: call_progress_def\<close>)
next
  case (Aborting expired cancelled en ow)
  then obtain ow' where o: "owned_step True False ow w = Some ow'"
    using assms(1) by (auto split: option.splits)
  show ?thesis
  proof (cases ow')
    case (Gone late kept fin)
    have "call_progress is_timeout x jn (concluded x n en expired (first_held cancelled kept)
        (record_interruption x (abort_outcome late fin) jn))"
      by (rule concluded_progress [where i = "abort_outcome late fin"]) (use assms(2) Aborting in auto)
    then show ?thesis using assms(1) Aborting o Gone by simp
  qed (use assms Aborting o in \<open>auto simp: call_progress_def\<close>)
next
  case (Concluded out)
  then show ?thesis using assms(2) by simp
qed

subsection \<open>The journal against the tasks in flight\<close>

definition begins :: "('e, 'v) journal \<Rightarrow> operation \<Rightarrow> nat" where
  "begins jn x = length (filter (\<lambda>e. oe_operation e = x \<and> oe_outcome e = OpBegin) (jn_events jn))"

definition finals :: "('e, 'v) journal \<Rightarrow> operation \<Rightarrow> nat" where
  "finals jn x = length (filter (\<lambda>e. oe_operation e = x \<and> oe_outcome e \<noteq> OpBegin) (jn_events jn))"

definition callers :: "operation option graph \<Rightarrow> (nat, ('e, 'v, 'c) node_task) dict \<Rightarrow> operation \<Rightarrow> nat set" where
  "callers g tasks x = {i. (\<exists>c. map_of tasks i = Some (Calling c)) \<and> n_payload (node_of g i) = Some x}"

definition balanced :: "operation option graph \<Rightarrow> (nat, ('e, 'v, 'c) node_task) dict \<Rightarrow> ('e, 'v) journal \<Rightarrow> bool" where
  "balanced g tasks jn \<longleftrightarrow> (\<forall>x. begins jn x = finals jn x + card (callers g tasks x))"

definition event_refs :: "(('e, 'v) operation_event \<Rightarrow> bool) \<Rightarrow> ('e, 'v) operation_event list \<Rightarrow> nat set" where
  "event_refs P es = (\<lambda>e. op_ref (oe_operation e)) ` set (filter P es)"

definition journal_ok :: "('e \<Rightarrow> bool) \<Rightarrow> ('e, 'v) journal \<Rightarrow> bool" where
  "journal_ok is_timeout jn \<longleftrightarrow>
     jn_attempted jn = event_refs (\<lambda>e. oe_outcome e = OpBegin) (jn_events jn)
   \<and> set (dict_keys (jn_interruptions jn))
       = event_refs (\<lambda>e. drop_event is_timeout (oe_outcome e) (oe_detail e)) (jn_events jn)"

lemma event_refs_snoc [simp]:
  "event_refs P (es @ [e]) = (if P e then insert (op_ref (oe_operation e)) (event_refs P es) else event_refs P es)"
  by (simp add: event_refs_def)

lemma finite_callers: "finite (callers g tasks x)"
  by (rule finite_subset [of _ "set (dict_keys tasks)"]) (auto simp: callers_def dest: map_of_Some_key)

lemma callers_set:
  "callers g (dict_set i t tasks) x =
    (if (\<exists>c. t = Calling c) \<and> n_payload (node_of g i) = Some x then insert i (callers g tasks x)
     else callers g tasks x - {i})"
  by (auto simp: callers_def)

lemma same_record_counts:
  "same_record jn jn' \<Longrightarrow> begins jn' x = begins jn x \<and> finals jn' x = finals jn x
    \<and> journal_ok is_timeout jn' = journal_ok is_timeout jn \<and> jn_attempted jn' = jn_attempted jn"
  by (simp add: same_record_def begins_def finals_def journal_ok_def)

lemma drop_event_begin [simp]: "\<not> drop_event is_timeout OpBegin NoDetail"
  by (simp add: drop_event_def)

lemma ends_call_counts:
  assumes "ends_call is_timeout x jn jn'"
  shows "begins jn' y = begins jn y \<and> finals jn' y = finals jn y + (if y = x then 1 else 0)"
proof -
  obtain n outcome detail where "outcome \<noteq> OpBegin"
      "jn_events jn' = jn_events jn @ [\<lparr>oe_operation = x, oe_node = n, oe_outcome = outcome, oe_detail = detail\<rparr>]"
    using assms unfolding ends_call_def by blast
  then show ?thesis by (simp add: begins_def finals_def)
qed

lemma ends_call_ok:
  assumes "ends_call is_timeout x jn jn'" and "journal_ok is_timeout jn"
  shows "journal_ok is_timeout jn' \<and> jn_attempted jn' = jn_attempted jn"
proof -
  obtain n outcome detail i where e: "outcome \<noteq> OpBegin" "jn_attempted jn' = jn_attempted jn"
      "jn_events jn' = jn_events jn @ [\<lparr>oe_operation = x, oe_node = n, oe_outcome = outcome, oe_detail = detail\<rparr>]"
      "jn_interruptions jn' = (if drop_event is_timeout outcome detail
          then dict_set (op_ref x) i (jn_interruptions jn) else jn_interruptions jn)"
    using assms(1) unfolding ends_call_def by blast
  show ?thesis
    using assms(2) e dict_keys_set [of "op_ref x" i "jn_interruptions jn"]
    unfolding journal_ok_def by (simp del: set_map list.set_map dict_keys_image)
qed

lemma dispatch_effect:
  assumes "dispatch_node d reported n jn = (t, jn')"
  shows "(\<exists>en. t = TaskOver en \<and> jn' = jn)
    \<or> (\<exists>x c. n_payload n = Some x \<and> t = Calling c \<and> call_live is_timeout c
        \<and> jn_attempted jn' = insert (op_ref x) (jn_attempted jn)
        \<and> jn_events jn' = jn_events jn @ [\<lparr>oe_operation = x, oe_node = n, oe_outcome = OpBegin, oe_detail = NoDetail\<rparr>]
        \<and> jn_interruptions jn' = jn_interruptions jn)"
proof (cases "n_payload n")
  case None
  then show ?thesis using assms by (auto simp: dispatch_node_def)
next
  case (Some x)
  show ?thesis
  proof (rule perform_cases [of d reported x n jn])
    fix e
    assume "perform d reported x n jn = (Concluded (Raised e) :: (_, _, 'c) call, jn)"
    then show ?thesis using assms Some by (auto simp: dispatch_node_def)
  next
    fix msg
    assume "perform d reported x n jn = (Sending (Until None) :: (_, _, 'c) call, begun x n msg jn)"
    then show ?thesis
      using assms Some by (auto simp: dispatch_node_def begun_def notify_event_def call_device_def)
  qed
qed

lemma wake_effect:
  assumes "wake_task d is_timeout n c w jn = Some (t, jn')" and "call_live is_timeout c"
  shows "\<exists>x. n_payload n = Some x \<and>
    ((\<exists>c'. t = Calling c' \<and> call_live is_timeout c' \<and> same_record jn jn')
     \<or> (\<exists>en. t = TaskOver en \<and> ends_call is_timeout x jn jn'))"
proof -
  obtain x c1 where x: "n_payload n = Some x" "perform_step d is_timeout x n (c, jn) w = Some (c1, jn')"
      "t = task_of_call c1"
    using assms(1) by (auto simp: wake_task_def split: option.splits)
  have "call_progress is_timeout x jn (c1, jn')" using perform_step_progress [OF x(2) assms(2)] .
  then show ?thesis using x by (cases c1) (auto simp: call_progress_def)
qed

definition task_ok :: "('e \<Rightarrow> bool) \<Rightarrow> operation option graph \<Rightarrow> nat \<Rightarrow> ('e, 'v, 'c) node_task \<Rightarrow> bool" where
  "task_ok is_timeout g i t \<longleftrightarrow>
    (\<forall>c. t = Calling c \<longrightarrow> call_live is_timeout c \<and> n_payload (node_of g i) \<noteq> None)"

definition tasks_ok :: "('e \<Rightarrow> bool) \<Rightarrow> operation option graph \<Rightarrow> (nat, ('e, 'v, 'c) node_task) dict \<Rightarrow> bool" where
  "tasks_ok is_timeout g tasks \<longleftrightarrow> (\<forall>i t. map_of tasks i = Some t \<longrightarrow> task_ok is_timeout g i t)"

text \<open>The journal accounts for the tasks of the graph that runs.\<close>

definition accounted :: "('e \<Rightarrow> bool) \<Rightarrow> operation option graph \<Rightarrow> (nat, ('e, 'v, 'c) node_task) dict \<Rightarrow> ('e, 'v) journal \<Rightarrow> bool" where
  "accounted is_timeout g tasks jn \<longleftrightarrow> tasks_ok is_timeout g tasks \<and> balanced g tasks jn \<and> journal_ok is_timeout jn"

lemma tasks_ok_set:
  "tasks_ok is_timeout g tasks \<Longrightarrow> task_ok is_timeout g i t \<Longrightarrow> tasks_ok is_timeout g (dict_set i t tasks)"
  by (auto simp: tasks_ok_def)

lemma accounted_dispatch:
  assumes "accounted is_timeout g tasks jn" and "map_of tasks i = Some Scheduled"
    and "dispatch_node d reported (node_of g i) jn = (t, jn')"
  shows "accounted is_timeout g (dict_set i t tasks) jn'
    \<and> (jn_attempted jn' = jn_attempted jn
       \<or> (\<exists>x. n_payload (node_of g i) = Some x \<and> jn_attempted jn' = insert (op_ref x) (jn_attempted jn)))"
  using dispatch_effect [OF assms(3), of is_timeout]
proof (elim disjE exE conjE)
  fix en
  assume t: "t = TaskOver en" "jn' = jn"
  have "i \<notin> callers g tasks x" for x using assms(2) by (simp add: callers_def)
  then have "balanced g (dict_set i t tasks) jn'"
    using assms(1) t by (simp add: accounted_def balanced_def callers_set)
  moreover have "tasks_ok is_timeout g (dict_set i t tasks)"
    using assms(1) t by (intro tasks_ok_set) (simp_all add: accounted_def task_ok_def)
  ultimately show ?thesis using assms(1) t by (simp add: accounted_def)
next
  fix x c
  assume s: "n_payload (node_of g i) = Some x" "t = Calling c" "call_live is_timeout c"
    "jn_attempted jn' = insert (op_ref x) (jn_attempted jn)"
    "jn_events jn' = jn_events jn @
       [\<lparr>oe_operation = x, oe_node = node_of g i, oe_outcome = OpBegin, oe_detail = NoDetail\<rparr>]"
    "jn_interruptions jn' = jn_interruptions jn"
  have out: "i \<notin> callers g tasks y" for y using assms(2) by (simp add: callers_def)
  have "balanced g (dict_set i t tasks) jn'"
    unfolding balanced_def
  proof
    fix y
    have b: "begins jn' y = begins jn y + (if y = x then 1 else 0)" "finals jn' y = finals jn y"
      using s(5) by (simp_all add: begins_def finals_def)
    have "begins jn y = finals jn y + card (callers g tasks y)"
      using assms(1) by (simp add: accounted_def balanced_def)
    then show "begins jn' y = finals jn' y + card (callers g (dict_set i t tasks) y)"
      using b s(1,2) out [of y] finite_callers [of g tasks y] by (auto simp: callers_set)
  qed
  moreover have "tasks_ok is_timeout g (dict_set i t tasks)"
    using assms(1) s(1-3) by (intro tasks_ok_set) (simp_all add: accounted_def task_ok_def)
  moreover have "journal_ok is_timeout jn'"
  proof -
    show ?thesis
      using assms(1) s(4-6) unfolding accounted_def journal_ok_def by (simp del: set_map list.set_map)
  qed
  ultimately show ?thesis using s(1,4) by (simp add: accounted_def)
qed

lemma accounted_wake:
  assumes "accounted is_timeout g tasks jn" and "map_of tasks i = Some (Calling c)"
    and "wake_task d is_timeout (node_of g i) c w jn = Some (t, jn')"
  shows "accounted is_timeout g (dict_set i t tasks) jn' \<and> jn_attempted jn' = jn_attempted jn"
proof -
  have "call_live is_timeout c" using assms(1,2) by (auto simp: accounted_def tasks_ok_def task_ok_def)
  from wake_effect [OF assms(3) this] obtain x where x: "n_payload (node_of g i) = Some x"
    and or: "(\<exists>c'. t = Calling c' \<and> call_live is_timeout c' \<and> same_record jn jn')
     \<or> (\<exists>en. t = TaskOver en \<and> ends_call is_timeout x jn jn')" by blast
  have inx: "i \<in> callers g tasks x" using assms(2) x by (simp add: callers_def)
  have notin: "i \<notin> callers g tasks y" if "y \<noteq> x" for y using x that by (auto simp: callers_def)
  have bal: "begins jn y = finals jn y + card (callers g tasks y)" for y
    using assms(1) by (simp add: accounted_def balanced_def)
  show ?thesis
    using or
  proof (elim disjE exE conjE)
    fix c'
    assume s: "t = Calling c'" "call_live is_timeout c'" "same_record jn jn'"
    have "callers g (dict_set i t tasks) y = callers g tasks y" for y
      using inx notin [of y] s(1) x by (auto simp: callers_set)
    then have "balanced g (dict_set i t tasks) jn'"
      unfolding balanced_def using bal same_record_counts [OF s(3)] by simp
    moreover have "tasks_ok is_timeout g (dict_set i t tasks)"
      using assms(1) s(1,2) x by (intro tasks_ok_set) (simp_all add: accounted_def task_ok_def)
    ultimately show ?thesis
      using assms(1) same_record_counts [OF s(3)] by (simp add: accounted_def)
  next
    fix en
    assume s: "t = TaskOver en" "ends_call is_timeout x jn jn'"
    have "balanced g (dict_set i t tasks) jn'"
      unfolding balanced_def
    proof
      fix y
      have "card (callers g tasks x - {i}) + 1 = card (callers g tasks x)"
        using card_Suc_Diff1 [OF finite_callers inx] by simp
      then show "begins jn' y = finals jn' y + card (callers g (dict_set i t tasks) y)"
        using ends_call_counts [OF s(2), of y] bal [of y] s(1) notin [of y] by (cases "y = x") (simp_all add: callers_set)
    qed
    moreover have "tasks_ok is_timeout g (dict_set i t tasks)"
      using assms(1) s(1) by (intro tasks_ok_set) (simp_all add: accounted_def task_ok_def)
    ultimately show ?thesis
      using assms(1) ends_call_ok [OF s(2)] by (simp add: accounted_def)
  qed
qed

lemma accounted_drop:
  assumes "accounted is_timeout g tasks jn" and "map_of tasks i = Some Scheduled"
  shows "accounted is_timeout g (dict_set i (TaskOver en) tasks) jn"
proof -
  have "i \<notin> callers g tasks x" for x using assms(2) by (simp add: callers_def)
  then show ?thesis
    using assms(1) by (auto simp: accounted_def balanced_def callers_set tasks_ok_def task_ok_def)
qed

lemma map_of_keep: "map_of (keep_tasks cfg tasks) i =
    (if i \<in> set (in_flight cfg) then Some (case map_of tasks i of Some t \<Rightarrow> t | None \<Rightarrow> Scheduled) else None)"
  by (simp add: keep_tasks_def map_of_map_restrict restrict_map_def)

lemma accounted_keep:
  assumes "accounted is_timeout g tasks jn"
    and "\<forall>i c. map_of tasks i = Some (Calling c) \<longrightarrow> i \<in> set (in_flight cfg)"
  shows "accounted is_timeout g (keep_tasks cfg tasks) jn"
proof -
  have "callers g (keep_tasks cfg tasks) x = callers g tasks x" for x
    using assms(2) by (auto simp: callers_def map_of_keep split: option.splits)
  then show ?thesis
    using assms(1) unfolding accounted_def balanced_def
    by (auto simp: tasks_ok_def task_ok_def map_of_keep split: option.splits if_splits)
qed

end
