(* ===== verification/Sensor_Outcome.thy ===== *)
theory Sensor_Outcome
  imports Sensor_Execution
begin

section \<open>How executions end\<close>

text \<open>
  The invariant of \<open>exec_step\<close> over every order of resumptions, and what it gives for the states
  an execution can end in: the cleanup graphs that ran, the outcome reported or raised, and the
  journal of the calls.  A workflow is well compiled when its graphs come from \<open>GraphBuilder\<close> and
  its cleanups are armed by operations of the run alone, as \<open>lower\<close> guarantees.
\<close>

subsection \<open>The invariant\<close>

definition refs_of :: "operation option graph \<Rightarrow> nat set" where
  "refs_of g = op_ref ` set (operations_of g)"

definition well_compiled :: "workflow \<Rightarrow> bool" where
  "well_compiled w \<longleftrightarrow> built_graph (ew_graph w) \<and>
    (\<forall>c\<in>set (ew_cleanup w). built_graph (cl_graph c) \<and> refs_of (cl_graph c) \<inter> refs_of (ew_graph w) = {}
      \<and> (\<forall>xs. cl_armed_by c = Some xs \<longrightarrow> op_ref ` set xs \<subseteq> refs_of (ew_graph w)))"

definition eligible_cleanup :: "('e, 'v) op_report \<Rightarrow> nat set \<Rightarrow> cleanup \<Rightarrow> bool" where
  "eligible_cleanup main att c \<longleftrightarrow>
    cleanup_selected (cl_when c) (failures main \<noteq> []) (rr_aborted main) \<and> cleanup_armed c att"

definition reason_of :: "('e, 'c) setting \<Rightarrow> 'c \<Rightarrow> string" where
  "reason_of sg e = (if sg_str sg e \<noteq> [] then sg_str sg e else ''cancelled'')"

definition reasons_ok :: "('e, 'c) setting \<Rightarrow> string list \<Rightarrow> bool" where
  "reasons_ok sg reasons \<longleftrightarrow> (\<forall>r\<in>set reasons. \<exists>e. claimed sg e \<and> r = reason_of sg e)"

definition main_ok :: "workflow \<Rightarrow> string list \<Rightarrow> ('e, 'v) op_report \<Rightarrow> bool" where
  "main_ok w reasons main \<longleftrightarrow> rr_graph main = ew_graph w \<and> all_accounted (ew_graph w) (rr_results main)
    \<and> (rr_aborted main \<longrightarrow> reasons \<noteq> [])"

definition cleanup_run_ok :: "('e, 'v) cleanup_report \<Rightarrow> bool" where
  "cleanup_run_ok r \<longleftrightarrow> rr_graph (cr_run r) = cl_graph (cr_cleanup r)
    \<and> (all_accounted (cl_graph (cr_cleanup r)) (rr_results (cr_run r))
       \<or> rr_results (cr_run r) = [] \<and> rr_aborted (cr_run r))"

text \<open>The cleanups behind the reports are the eligible ones among those passed, in order.\<close>

definition cleaned :: "('e, 'v) op_report \<Rightarrow> nat set \<Rightarrow> cleanup list \<Rightarrow> ('e, 'v) cleanup_report list \<Rightarrow> bool" where
  "cleaned main att passed reps \<longleftrightarrow>
    map cr_cleanup reps = filter (eligible_cleanup main att) passed \<and> list_all cleanup_run_ok reps"

definition bounded_ok :: "('e, 'c) setting \<Rightarrow> cleanup \<Rightarrow> ('e, 'v, 'c) bounded_run
    \<Rightarrow> (nat, ('e, 'v, 'c) node_task) dict \<Rightarrow> string list \<Rightarrow> bool" where
  "bounded_ok sg c b tasks reasons \<longleftrightarrow>
    (case bd_run b of
       Going cfg \<Rightarrow> config_inv (cl_graph c) cfg \<and> classified (\<lambda>_. True) True cfg \<and> dict_keys tasks = in_flight cfg
     | _ \<Rightarrow> tasks = [])
    \<and> (\<forall>e. bd_declined b = Some e \<longrightarrow> \<not> claimed sg e)
    \<and> (bd_cancelled b \<and> bd_declined b = None \<longrightarrow> reasons \<noteq> [])"

abbreviation attempted_in :: "('e, 'v) execution_state \<Rightarrow> nat set" where
  "attempted_in st \<equiv> jn_attempted (es_journal st)"

text \<open>The part of a final state that all three ends share.\<close>

definition ended_ok :: "workflow \<Rightarrow> ('e, 'v) execution_state \<Rightarrow> string list \<Rightarrow> ('e, 'v) op_report \<Rightarrow> cleanup list \<Rightarrow> bool" where
  "ended_ok w st reasons main rest \<longleftrightarrow>
    es_run st = Some main \<and> main_ok w reasons main
    \<and> (\<exists>passed. ew_cleanup w = passed @ rest \<and> cleaned main (attempted_in st) passed (es_cleanup st))"

definition report_of :: "('e, 'v) execution_state \<Rightarrow> string list \<Rightarrow> cleanup list \<Rightarrow> ('e, 'v) workflow_report \<Rightarrow> bool" where
  "report_of st reasons rest r \<longleftrightarrow>
    wr_cleanup r = es_cleanup st \<and> wr_attempted r = attempted_in st
    \<and> wr_interruptions r = jn_interruptions (es_journal st)
    \<and> (case wr_outcome r of
         Completed \<Rightarrow> rest = [] \<and> \<not> rr_aborted (wr_run r) \<and> wr_reason r = None
       | Aborted \<Rightarrow> reasons \<noteq> [] \<and> wr_reason r = Some (hd reasons))"

definition raises :: "('e, 'v) workflow_report \<Rightarrow> bool" where
  "raises r \<longleftrightarrow> failures (wr_run r) \<noteq> [] \<or> wr_outcome r = Completed \<and> list_ex cleanup_failed (wr_cleanup r)"

text \<open>Every call that began has ended.\<close>

definition settled_journal :: "('e \<Rightarrow> bool) \<Rightarrow> ('e, 'v) journal \<Rightarrow> bool" where
  "settled_journal is_timeout jn \<longleftrightarrow> journal_ok is_timeout jn \<and> (\<forall>x. begins jn x = finals jn x)"

fun phase_ok :: "('e, 'c) setting \<Rightarrow> workflow \<Rightarrow> ('e, 'v) execution_state \<Rightarrow> (nat, ('e, 'v, 'c) node_task) dict
    \<Rightarrow> string list \<Rightarrow> ('e, 'v, 'c) exec_phase \<Rightarrow> bool" where
  "phase_ok sg w st tasks reasons (Running cfg) \<longleftrightarrow>
     config_inv (ew_graph w) cfg \<and> classified (claimed sg) (reasons \<noteq> []) cfg \<and> dict_keys tasks = in_flight cfg
     \<and> in_flight cfg \<noteq> []
     \<and> accounted (sg_is_timeout sg) (ew_graph w) tasks (es_journal st)
     \<and> es_cleanup st = [] \<and> attempted_in st \<subseteq> refs_of (ew_graph w)"
| "phase_ok sg w st tasks reasons (CleaningUp cs c b) \<longleftrightarrow>
     (\<exists>main. ended_ok w st reasons main (c # cs) \<and> eligible_cleanup main (attempted_in st) c)
     \<and> bounded_ok sg c b tasks reasons
     \<and> accounted (sg_is_timeout sg) (cl_graph c) tasks (es_journal st)"
| "phase_ok sg w st tasks reasons (Reported r) \<longleftrightarrow>
     (\<exists>rest. ended_ok w st reasons (wr_run r) rest \<and> report_of st reasons rest r) \<and> \<not> raises r
     \<and> settled_journal (sg_is_timeout sg) (es_journal st) \<and> tasks = []"
| "phase_ok sg w st tasks reasons (WorkflowFailed r) \<longleftrightarrow>
     (\<exists>rest. ended_ok w st reasons (wr_run r) rest \<and> report_of st reasons rest r) \<and> raises r
     \<and> settled_journal (sg_is_timeout sg) (es_journal st) \<and> tasks = []"
| "phase_ok sg w st tasks reasons (HardCancelled e) \<longleftrightarrow>
     (\<exists>main rest. ended_ok w st reasons main rest) \<and> \<not> claimed sg e
     \<and> settled_journal (sg_is_timeout sg) (es_journal st) \<and> tasks = []"
| "phase_ok sg w st tasks reasons RunnerCrashed \<longleftrightarrow> False"

definition exec_ok :: "('e, 'c) setting \<Rightarrow> workflow \<Rightarrow> ('e, 'v, 'c) workflow_execution \<Rightarrow> bool" where
  "exec_ok sg w ex \<longleftrightarrow> reasons_ok sg (ex_reasons ex)
    \<and> phase_ok sg w (ex_state ex) (ex_tasks ex) (ex_reasons ex) (ex_phase ex)"

lemma reasons_noted:
  "reasons_ok sg reasons \<Longrightarrow> reasons_ok sg (noted sg e reasons)"
  "noted sg e reasons = [] \<longleftrightarrow> reasons = [] \<and> \<not> claimed sg e"
  by (auto simp: reasons_ok_def noted_def reason_of_def)

lemma accounted_none: "accounted is_timeout g [] jn \<longleftrightarrow> settled_journal is_timeout jn"
  by (auto simp: accounted_def balanced_def callers_def tasks_ok_def settled_journal_def)

lemma keep_tasks_keys: "dict_keys (keep_tasks cfg tasks) = in_flight cfg"
  by (simp add: keep_tasks_def comp_def)

lemma main_ok_mono: "main_ok w reasons main \<Longrightarrow> (reasons \<noteq> [] \<Longrightarrow> reasons' \<noteq> []) \<Longrightarrow> main_ok w reasons' main"
  by (auto simp: main_ok_def)

lemma ended_ok_mono:
  "ended_ok w st reasons main rest \<Longrightarrow> (reasons \<noteq> [] \<Longrightarrow> reasons' \<noteq> []) \<Longrightarrow> ended_ok w st reasons' main rest"
  using main_ok_mono by (auto simp: ended_ok_def)

subsection \<open>From the end of the run to the next cleanup\<close>

lemma conclude_ok:
  assumes "reasons_ok sg (ex_reasons ex)" and "ended_ok w (ex_state ex) (ex_reasons ex) main rest"
    and "settled_journal (sg_is_timeout sg) (es_journal (ex_state ex))"
    and "ended \<longrightarrow> ex_reasons ex \<noteq> []" and "\<not> ended \<longrightarrow> rest = []"
  shows "exec_ok sg w (conclude_execution w main ended ex)"
proof -
  let ?ab = "rr_aborted main \<or> ended"
  let ?r = "\<lparr>wr_name = ew_name w, wr_run = main, wr_cleanup = es_cleanup (ex_state ex),
     wr_attempted = jn_attempted (es_journal (ex_state ex)),
     wr_interruptions = jn_interruptions (es_journal (ex_state ex)),
     wr_outcome = (if ?ab then Aborted else Completed),
     wr_reason = (if ?ab \<and> ex_reasons ex \<noteq> [] then Some (hd (ex_reasons ex)) else None)\<rparr>"
  have "?ab \<longrightarrow> ex_reasons ex \<noteq> []"
    using assms(2,4) by (auto simp: ended_ok_def main_ok_def)
  then have "report_of (ex_state ex) (ex_reasons ex) rest ?r"
    using assms(5) by (auto simp: report_of_def)
  moreover have "raises ?r \<longleftrightarrow> failures main \<noteq> [] \<or> \<not> ?ab \<and> list_ex cleanup_failed (es_cleanup (ex_state ex))"
    by (simp add: raises_def)
  ultimately show ?thesis
    using assms(1-3) unfolding exec_ok_def conclude_execution_def Let_def by auto
qed

lemma cleaned_snoc:
  "cleaned main att passed reps \<Longrightarrow> \<not> eligible_cleanup main att c \<Longrightarrow> cleaned main att (passed @ [c]) reps"
  by (simp add: cleaned_def)

lemma next_cleanup_ok:
  "reasons_ok sg (ex_reasons ex) \<Longrightarrow> ended_ok w (ex_state ex) (ex_reasons ex) main cs
    \<Longrightarrow> settled_journal (sg_is_timeout sg) (es_journal (ex_state ex))
    \<Longrightarrow> exec_ok sg w (next_cleanup w main cs ex)"
proof (induction cs)
  case Nil
  then show ?case using conclude_ok by fastforce
next
  case (Cons c cs)
  show ?case
  proof (cases "eligible_cleanup main (attempted_in (ex_state ex)) c")
    case True
    then have eq: "next_cleanup w main (c # cs) ex = ex\<lparr>ex_tasks := [], ex_phase := CleaningUp cs c
       \<lparr>bd_run = NotStarted, bd_expired = False, bd_cancelled = False, bd_declined = None\<rparr>\<rparr>"
      by (simp add: eligible_cleanup_def)
    show ?thesis
      unfolding eq exec_ok_def
      using Cons.prems True 
      by (auto simp: bounded_ok_def accounted_none)
  next
    case False
    then have eq: "next_cleanup w main (c # cs) ex = next_cleanup w main cs ex"
      by (auto simp: eligible_cleanup_def)
    obtain passed where p: "ew_cleanup w = passed @ c # cs"
        "cleaned main (attempted_in (ex_state ex)) passed (es_cleanup (ex_state ex))"
      using Cons.prems(2) unfolding ended_ok_def by blast
    have "ew_cleanup w = (passed @ [c]) @ cs" using p(1) by simp
    then have "ended_ok w (ex_state ex) (ex_reasons ex) main cs"
      using Cons.prems(2) cleaned_snoc [OF p(2) False] unfolding ended_ok_def by blast
    then show ?thesis unfolding eq using Cons.IH Cons.prems(1,3) by blast
  qed
qed

lemma keep_tasks_final: "in_flight cfg = [] \<Longrightarrow> keep_tasks cfg tasks = []"
  by (simp add: keep_tasks_def)

lemma after_main_ok:
  assumes "reasons_ok sg (ex_reasons ex)" and "config_inv (ew_graph w) cfg"
    and "classified (claimed sg) (ex_reasons ex \<noteq> []) cfg"
    and "accounted (sg_is_timeout sg) (ew_graph w) (keep_tasks cfg (ex_tasks ex)) (es_journal (ex_state ex))"
    and "es_cleanup (ex_state ex) = []" and "attempted_in (ex_state ex) \<subseteq> refs_of (ew_graph w)"
  shows "exec_ok sg w (after_main w cfg ex)"
proof (cases cfg)
  case (Waiting st)
  then have "in_flight cfg \<noteq> []" using assms(2) by simp
  then show ?thesis using Waiting assms keep_tasks_keys [of cfg "ex_tasks ex"] by (simp add: after_main_def exec_ok_def)
next
  case (Draining st hard declined ended)
  then obtain i where "i \<in> set (rs_running st)" "i \<notin> set (map fst ended)" using assms(2) by auto
  then have "in_flight cfg \<noteq> []" using Draining by (auto simp: filter_empty_conv)
  then show ?thesis
    using Draining assms keep_tasks_keys [of cfg "ex_tasks ex"] by (simp add: after_main_def exec_ok_def)
next
  case (Returned rep)
  let ?ex = "ex\<lparr>ex_state := (ex_state ex)\<lparr>es_run := Some rep\<rparr>\<rparr>"
  have "ended_ok w (ex_state ?ex) (ex_reasons ?ex) rep (ew_cleanup w)"
    using assms(2,3,5) Returned by (auto simp: ended_ok_def main_ok_def cleaned_def)
  moreover have "settled_journal (sg_is_timeout sg) (es_journal (ex_state ?ex))"
    using assms(4) Returned by (simp add: keep_tasks_final accounted_none)
  ultimately show ?thesis
    using next_cleanup_ok [of sg ?ex w rep] assms(1) Returned by (simp add: after_main_def)
next
  case (Propagated e res)
  let ?main = "\<lparr>rr_name = ew_name w, rr_graph = ew_graph w, rr_results = res, rr_aborted = False\<rparr>"
  have "ended_ok w ((ex_state ex)\<lparr>es_run := Some ?main\<rparr>) (ex_reasons ex) ?main (ew_cleanup w)"
    using assms(2,5) Propagated by (auto simp: ended_ok_def main_ok_def cleaned_def)
  moreover have "settled_journal (sg_is_timeout sg) (es_journal (ex_state ex))"
    using assms(4) Propagated by (simp add: keep_tasks_final accounted_none)
  ultimately show ?thesis
    using assms(1,3) Propagated by (auto simp: after_main_def exec_ok_def)
next
  case Deadlocked
  then show ?thesis using assms(2) by simp
qed

subsection \<open>A task's own resumptions\<close>

lemma config_payload:
  assumes "config_inv g cfg" and "i \<in> set (in_flight cfg)" and "n_payload (node_of g i) = Some x"
  shows "op_ref x \<in> refs_of g"
proof -
  have "i \<in> set (node_ids g)"
    using assms(1,2) run_invD(2) by (cases cfg) fastforce+
  then obtain n where "find_node g i = Some n" "n \<in> set (g_nodes g)" using find_node_id by blast
  then have "x \<in> set (operations_of g)"
    using assms(3) by (auto simp: node_of_def operations_of_def map_filter_def image_iff intro!: bexI [of _ n])
  then show ?thesis by (simp add: refs_of_def)
qed

lemma eligible_stable:
  assumes "well_compiled w" and "c \<in> set (ew_cleanup w)" and "r \<notin> refs_of (ew_graph w)"
  shows "eligible_cleanup main (insert r att) c = eligible_cleanup main att c"
proof -
  have "op_ref x \<noteq> r" if "cl_armed_by c = Some xs" "x \<in> set xs" for xs x
    using assms that unfolding well_compiled_def by (metis (no_types, lifting) image_subset_iff)
  then have "cleanup_armed c (insert r att) = cleanup_armed c att"
    by (auto simp: cleanup_armed_def split: option.splits)
  then show ?thesis by (simp add: eligible_cleanup_def)
qed

lemma cleaned_stable:
  assumes "well_compiled w" and "set passed \<subseteq> set (ew_cleanup w)" and "r \<notin> refs_of (ew_graph w)"
    and "cleaned main att passed reps"
  shows "cleaned main (insert r att) passed reps"
proof -
  have "filter (eligible_cleanup main (insert r att)) passed = filter (eligible_cleanup main att) passed"
    by (rule filter_cong [OF refl]) (use eligible_stable [OF assms(1) _ assms(3)] assms(2) in blast)
  then show ?thesis using assms(4) by (simp add: cleaned_def)
qed

lemma ended_ok_journal:
  assumes "well_compiled w" and "ended_ok w st reasons main rest"
    and "jn_attempted jn' = attempted_in st \<or> (\<exists>r. r \<notin> refs_of (ew_graph w) \<and> jn_attempted jn' = insert r (attempted_in st))"
  shows "ended_ok w (st\<lparr>es_journal := jn'\<rparr>) reasons main rest"
proof -
  obtain passed where p: "ew_cleanup w = passed @ rest" "cleaned main (attempted_in st) passed (es_cleanup st)"
    using assms(2) unfolding ended_ok_def by blast
  have "cleaned main (jn_attempted jn') passed (es_cleanup st)"
    using assms(3) cleaned_stable [OF assms(1) _ _ p(2)] p by auto
  then show ?thesis using assms(2) p(1) by (auto simp: ended_ok_def)
qed

lemma keys_set: "k \<in> set (dict_keys d) \<Longrightarrow> dict_keys (dict_set k v d) = dict_keys d"
  by (simp add: update_keys)

lemma set_task_ok:
  assumes "well_compiled w" and "exec_ok sg w ex" and "map_of (ex_tasks ex) i = Some t0"
    and "current_graph w (ex_phase ex) = Some g"
    and "accounted (sg_is_timeout sg) g (dict_set i t (ex_tasks ex)) jn'"
    and "jn_attempted jn' = attempted_in (ex_state ex)
      \<or> (\<exists>x. n_payload (node_of g i) = Some x \<and> jn_attempted jn' = insert (op_ref x) (attempted_in (ex_state ex)))"
  shows "exec_ok sg w (set_task i (t, jn') ex)"
proof -
  let ?st = "ex_state ex"
  have key: "i \<in> set (dict_keys (ex_tasks ex))" using assms(3) by (rule map_of_Some_key)
  note keys = keys_set [OF key, of t]
  show ?thesis
  proof (cases "ex_phase ex")
    case (Running cfg)
    then have inv: "config_inv (ew_graph w) cfg" "dict_keys (ex_tasks ex) = in_flight cfg" "g = ew_graph w"
        "attempted_in ?st \<subseteq> refs_of (ew_graph w)"
      using assms(2,4) by (simp_all add: exec_ok_def)
    have "i \<in> set (in_flight cfg)" using key unfolding inv(2) .
    then have "jn_attempted jn' \<subseteq> refs_of (ew_graph w)"
      using assms(6) inv config_payload [OF inv(1)] by auto
    then show ?thesis
      using assms(2,5) Running inv(3) keys by (simp add: exec_ok_def set_task_def)
  next
    case (CleaningUp cs c b)
    then have g: "g = cl_graph c" and bd: "bounded_ok sg c b (ex_tasks ex) (ex_reasons ex)"
      using assms(2,4) by (simp_all add: exec_ok_def)
    obtain main where m: "ended_ok w ?st (ex_reasons ex) main (c # cs)" "eligible_cleanup main (attempted_in ?st) c"
      using assms(2) CleaningUp by (auto simp: exec_ok_def)
    have cin: "c \<in> set (ew_cleanup w)" using m(1) unfolding ended_ok_def by auto
    obtain cfg where cfg: "bd_run b = Going cfg" "config_inv (cl_graph c) cfg" "dict_keys (ex_tasks ex) = in_flight cfg"
      using bd key unfolding bounded_ok_def by (cases "bd_run b") auto
    have inf: "i \<in> set (in_flight cfg)" using key unfolding cfg(3) .
    have fresh: "jn_attempted jn' = attempted_in ?st
        \<or> (\<exists>r. r \<notin> refs_of (ew_graph w) \<and> jn_attempted jn' = insert r (attempted_in ?st))"
      using assms(6)
    proof
      assume "\<exists>x. n_payload (node_of g i) = Some x \<and> jn_attempted jn' = insert (op_ref x) (attempted_in ?st)"
      then obtain x where x: "n_payload (node_of (cl_graph c) i) = Some x" "jn_attempted jn' = insert (op_ref x) (attempted_in ?st)"
        unfolding g by blast
      have "op_ref x \<in> refs_of (cl_graph c)" by (rule config_payload [OF cfg(2) inf x(1)])
      then have "op_ref x \<notin> refs_of (ew_graph w)" using assms(1) cin unfolding well_compiled_def by blast
      then show ?thesis using x(2) by blast
    qed simp
    have "eligible_cleanup main (jn_attempted jn') c"
      using fresh m(2) eligible_stable [OF assms(1) cin, where main = main] by auto
    moreover have "bounded_ok sg c b (dict_set i t (ex_tasks ex)) (ex_reasons ex)"
      using bd cfg(1) keys by (simp add: bounded_ok_def)
    ultimately show ?thesis
      using assms(2,5) CleaningUp g ended_ok_journal [OF assms(1) m(1) fresh]
      by (auto simp: exec_ok_def set_task_def)
  qed (use assms(4) in simp_all)
qed

lemma tasks_have_graph:
  assumes "exec_ok sg w ex" and "map_of (ex_tasks ex) i = Some t"
  shows "\<exists>g. current_graph w (ex_phase ex) = Some g
    \<and> accounted (sg_is_timeout sg) g (ex_tasks ex) (es_journal (ex_state ex))"
  using assms by (cases "ex_phase ex") (auto simp: exec_ok_def)

lemma task_step_ok:
  fixes ex :: "('e, 'v, 'c) workflow_execution"
  assumes "well_compiled w" and "exec_ok sg w ex" and "exec_step sg w ex ev = Some ex'"
    and "(\<exists>i reported. ev = TaskStarts i reported) \<or> (\<exists>i. ev = TaskDropped i) \<or> (\<exists>i wake. ev = TaskWakes i wake)"
  shows "exec_ok sg w ex'"
  using assms(4)
proof (elim disjE exE)
  fix i reported
  assume ev: "ev = TaskStarts i reported"
  then obtain g where g: "current_graph w (ex_phase ex) = Some g" "map_of (ex_tasks ex) i = Some Scheduled"
    and ex': "ex' = set_task i (dispatch_node (sg_dispatcher sg) reported (node_of g i) (es_journal (ex_state ex))) ex"
    using assms(3) by (auto split: option.splits node_task.splits)
  have acc: "accounted (sg_is_timeout sg) g (ex_tasks ex) (es_journal (ex_state ex))"
    using tasks_have_graph [OF assms(2) g(2)] g(1) by simp
  obtain t :: "('e, 'v, 'c) node_task" and jn'
    where d: "dispatch_node (sg_dispatcher sg) reported (node_of g i) (es_journal (ex_state ex)) = (t, jn')"
    by fastforce
  note D = accounted_dispatch [OF acc g(2) d]
  show ?thesis
    unfolding ex' d by (rule set_task_ok [OF assms(1,2) g(2,1) conjunct1 [OF D] conjunct2 [OF D]])
next
  fix i
  assume ev: "ev = TaskDropped i"
  then have sch: "map_of (ex_tasks ex) i = Some Scheduled"
    and ex': "ex' = set_task i (TaskOver WasCancelled, es_journal (ex_state ex)) ex"
    using assms(3) by (auto split: option.splits node_task.splits)
  obtain g where g: "current_graph w (ex_phase ex) = Some g"
      "accounted (sg_is_timeout sg) g (ex_tasks ex) (es_journal (ex_state ex))"
    using tasks_have_graph [OF assms(2) sch] by blast
  show ?thesis
    unfolding ex' by (rule set_task_ok [OF assms(1,2) sch g(1) accounted_drop [OF g(2) sch]]) simp
next
  fix i wake
  assume ev: "ev = TaskWakes i wake"
  then obtain g c t jn' where g: "current_graph w (ex_phase ex) = Some g" "map_of (ex_tasks ex) i = Some (Calling c)"
    and wt: "wake_task (sg_dispatcher sg) (sg_is_timeout sg) (node_of g i) c wake (es_journal (ex_state ex)) = Some (t, jn')"
    and ex': "ex' = set_task i (t, jn') ex"
    using assms(3) by (auto split: option.splits node_task.splits)
  have acc: "accounted (sg_is_timeout sg) g (ex_tasks ex) (es_journal (ex_state ex))"
    using tasks_have_graph [OF assms(2) g(2)] g(1) by simp
  note D = accounted_wake [OF acc g(2) wt]
  show ?thesis
    unfolding ex' by (rule set_task_ok [OF assms(1,2) g(2,1) conjunct1 [OF D]]) (use D in simp)
qed

subsection \<open>The runner's and the caller's resumptions\<close>

lemma endings_over:
  "endings tasks is = Some ends \<Longrightarrow> i \<in> set (map fst ends) \<Longrightarrow> \<exists>en. map_of tasks i = Some (TaskOver en)"
proof (induction "is" arbitrary: ends)
  case Nil
  then show ?case by (simp add: endings_def)
next
  case (Cons j js)
  then obtain en es where e: "map_of tasks j = Some (TaskOver en)" "endings tasks js = Some es" "ends = (j, en) # es"
    by (auto simp: endings_def split: option.splits node_task.splits)
  then show ?case using Cons by (cases "i = j") auto
qed

lemma runner_keeps_calls:
  assumes "built_graph g" and "iter_ok iter" and "config_inv g cfg" and "dict_keys tasks = in_flight cfg"
    and "on_event iter name absorbed g cfg (Ended ends) = Some cfg'" and "endings tasks is = Some ends"
  shows "\<forall>i c. map_of tasks i = Some (Calling c) \<longrightarrow> i \<in> set (in_flight cfg')"
proof (intro allI impI)
  fix i c
  assume c: "map_of tasks i = Some (Calling c)"
  then have "i \<in> set (in_flight cfg)" using map_of_Some_key assms(4) by metis
  moreover have "i \<notin> set (map fst ends)" using endings_over [OF assms(6)] c by fastforce
  ultimately show "i \<in> set (in_flight cfg')" using in_flight_event [OF assms(1-3,5)] by blast
qed

lemma runner_step_ok:
  fixes ex :: "('e, 'v, 'c) workflow_execution"
  assumes "well_compiled w" and "iter_ok (sg_iter sg)" and "exec_ok sg w ex"
    and "exec_step sg w ex (RunnerWakes is) = Some ex'"
  shows "exec_ok sg w ex'"
proof -
  obtain ends where ends: "endings (ex_tasks ex) is = Some ends"
    using assms(4) by (auto split: exec_phase.splits option.splits)
  consider (main) cfg cfg' where "ex_phase ex = Running cfg" "ex' = after_main w cfg' ex"
      "on_event (sg_iter sg) (ew_name w) (Some (claimed sg)) (ew_graph w) cfg (Ended ends) = Some cfg'"
    | (cleanup) cs c b cfg cfg' where "ex_phase ex = CleaningUp cs c b" "bd_run b = Going cfg"
      "ex' = cleanup_config ex b cfg' cs c"
      "on_event (sg_iter sg) (origin_str (cl_origin c)) (Some (\<lambda>_. True)) (cl_graph c) cfg (Ended ends) = Some cfg'"
    using assms(4) ends by (auto split: exec_phase.splits cleanup_run.splits)
  then show ?thesis
  proof cases
    case main
    have built: "built_graph (ew_graph w)" using assms(1) unfolding well_compiled_def by blast
    have inv: "reasons_ok sg (ex_reasons ex)" "config_inv (ew_graph w) cfg"
        "classified (claimed sg) (ex_reasons ex \<noteq> []) cfg" "dict_keys (ex_tasks ex) = in_flight cfg"
        "accounted (sg_is_timeout sg) (ew_graph w) (ex_tasks ex) (es_journal (ex_state ex))"
        "es_cleanup (ex_state ex) = []" "attempted_in (ex_state ex) \<subseteq> refs_of (ew_graph w)"
      using assms(3) main(1) by (simp_all add: exec_ok_def)
    note calls = runner_keeps_calls [OF built assms(2) inv(2,4) main(3) ends]
    show ?thesis
      unfolding main(2)
      using inv(6,7)
      by (intro after_main_ok [OF inv(1) built.config_inv_event [OF built assms(2) inv(2) main(3)]
            classified_ended [OF inv(3) main(3)] accounted_keep [OF inv(5) calls]])
  next
    case cleanup
    obtain m where m: "ended_ok w (ex_state ex) (ex_reasons ex) m (c # cs)"
        "eligible_cleanup m (attempted_in (ex_state ex)) c"
      using assms(3) cleanup(1) by (auto simp: exec_ok_def)
    have built: "built_graph (cl_graph c)"
      using assms(1) m(1) unfolding well_compiled_def ended_ok_def by auto
    have inv: "reasons_ok sg (ex_reasons ex)" "bounded_ok sg c b (ex_tasks ex) (ex_reasons ex)"
        "accounted (sg_is_timeout sg) (cl_graph c) (ex_tasks ex) (es_journal (ex_state ex))"
      using assms(3) cleanup(1) by (simp_all add: exec_ok_def)
    have cfg: "config_inv (cl_graph c) cfg" "classified (\<lambda>_. True) True cfg" "dict_keys (ex_tasks ex) = in_flight cfg"
      using inv(2) cleanup(2) by (simp_all add: bounded_ok_def)
    note calls = runner_keeps_calls [OF built assms(2) cfg(1,3) cleanup(4) ends]
    have "bounded_ok sg c (b\<lparr>bd_run := Going cfg'\<rparr>) (keep_tasks cfg' (ex_tasks ex)) (ex_reasons ex)"
      using inv(2) built.config_inv_event [OF built assms(2) cfg(1) cleanup(4)]
        classified_ended [OF cfg(2) cleanup(4)] keep_tasks_keys [of cfg' "ex_tasks ex"]
      by (simp add: bounded_ok_def)
    then show ?thesis
      using m inv(1) accounted_keep [OF inv(3) calls] unfolding cleanup(3)
      by (auto simp: exec_ok_def cleanup_config_def)
  qed
qed

lemma accounted_same_keys:
  assumes "accounted is_timeout g tasks jn" and "dict_keys tasks = in_flight cfg'"
  shows "accounted is_timeout g (keep_tasks cfg' tasks) jn"
  by (rule accounted_keep [OF assms(1)]) (metis assms(2) map_of_Some_key)

lemma cancel_cleanup_ok:
  assumes "built_graph (cl_graph c)" and "iter_ok iter"
    and "case r of Going cfg \<Rightarrow> config_inv (cl_graph c) cfg \<and> classified (\<lambda>_. True) True cfg
         \<and> dict_keys tasks = in_flight cfg | _ \<Rightarrow> tasks = []"
    and "accounted is_timeout (cl_graph c) tasks jn"
  shows "case cancel_cleanup iter c r of
      Going cfg \<Rightarrow> config_inv (cl_graph c) cfg \<and> classified (\<lambda>_. True) True cfg
        \<and> dict_keys (keep_tasks cfg tasks) = in_flight cfg
        \<and> accounted is_timeout (cl_graph c) (keep_tasks cfg tasks) jn
    | _ \<Rightarrow> accounted is_timeout (cl_graph c) ([] :: (nat, ('e, 'v, 'c) node_task) dict) jn"
proof (cases r)
  case (Going cfg)
  then have cfg: "config_inv (cl_graph c) cfg" "classified (\<lambda>_. True) True cfg" "dict_keys tasks = in_flight cfg"
    using assms(3) by simp_all
  show ?thesis
  proof (cases "on_event iter (origin_str (cl_origin c)) (Some (\<lambda>_. True)) (cl_graph c) cfg (Interrupt ())")
    case None
    then show ?thesis
      using Going cfg accounted_same_keys [OF assms(4) cfg(3)] keep_tasks_keys [of cfg tasks] by simp
  next
    case (Some cfg')
    have "classified (\<lambda>_. True) True cfg' \<and> in_flight cfg' = in_flight cfg"
      using classified_interrupt [OF cfg(2,1) Some] by simp
    then show ?thesis
      using Going Some cfg(3) built.config_inv_event [OF assms(1,2) cfg(1) Some]
        accounted_same_keys [OF assms(4), of cfg'] keep_tasks_keys [of cfg' tasks] by simp
  qed
qed (use assms(3,4) in \<open>simp_all add: accounted_none\<close>)

lemma cancel_bounded_ok:
  fixes ex :: "('e, 'v, 'c) workflow_execution"
  assumes "well_compiled w" and "iter_ok (sg_iter sg)" and "exec_ok sg w ex" and "ex_phase ex = CleaningUp cs c b"
  shows "exec_ok sg w (cancel_bounded sg cancellation cs c b ex)"
proof -
  obtain m where m: "ended_ok w (ex_state ex) (ex_reasons ex) m (c # cs)"
      "eligible_cleanup m (attempted_in (ex_state ex)) c"
    using assms(3,4) by (auto simp: exec_ok_def)
  have built: "built_graph (cl_graph c)"
    using assms(1) m(1) unfolding well_compiled_def ended_ok_def by auto
  have inv: "reasons_ok sg (ex_reasons ex)" "bounded_ok sg c b (ex_tasks ex) (ex_reasons ex)"
      "accounted (sg_is_timeout sg) (cl_graph c) (ex_tasks ex) (es_journal (ex_state ex))"
    using assms(3,4) by (simp_all add: exec_ok_def)
  let ?r = "cancel_cleanup (sg_iter sg) c (bd_run b)"
  let ?kept = "case ?r of Going cfg \<Rightarrow> keep_tasks cfg (ex_tasks ex) | _ \<Rightarrow> []"
  have run: "case bd_run b of Going cfg \<Rightarrow> config_inv (cl_graph c) cfg \<and> classified (\<lambda>_. True) True cfg
         \<and> dict_keys (ex_tasks ex) = in_flight cfg | _ \<Rightarrow> ex_tasks ex = []"
    using inv(2) by (simp add: bounded_ok_def)
  note cc = cancel_cleanup_ok [OF built assms(2) run inv(3)]
  have acc: "accounted (sg_is_timeout sg) (cl_graph c) ?kept (es_journal (ex_state ex))"
    using cc by (cases ?r) simp_all
  have bnd: "bounded_ok sg c b' ?kept reasons"
    if "bd_run b' = ?r" "\<forall>e. bd_declined b' = Some e \<longrightarrow> \<not> claimed sg e"
      "bd_cancelled b' \<and> bd_declined b' = None \<longrightarrow> reasons \<noteq> []" for b' reasons
    using cc that by (cases ?r) (simp_all add: bounded_ok_def)
  show ?thesis
  proof (cases cancellation)
    case None
    have "bounded_ok sg c (b\<lparr>bd_run := ?r, bd_expired := True\<rparr>) ?kept (ex_reasons ex)"
      by (rule bnd) (use inv(2) in \<open>simp_all add: bounded_ok_def\<close>)
    then show ?thesis
      using m inv(1) acc None by (auto simp: exec_ok_def cancel_bounded_def Let_def)
  next
    case (Some e)
    let ?reasons = "if bd_declined b = None then noted sg e (ex_reasons ex) else ex_reasons ex"
    let ?b = "b\<lparr>bd_run := ?r, bd_cancelled := True,
        bd_declined := (if bd_declined b = None \<and> \<not> claimed sg e then Some e else bd_declined b)\<rparr>"
    have rs: "reasons_ok sg ?reasons" "ex_reasons ex \<noteq> [] \<Longrightarrow> ?reasons \<noteq> []"
      using reasons_noted(1) [OF inv(1)] inv(1) by (auto simp: reasons_noted(2) split: if_splits)
    have "bounded_ok sg c ?b ?kept ?reasons"
      by (rule bnd) (use inv(2) in \<open>auto simp: bounded_ok_def reasons_noted(2) split: if_splits\<close>)
    then show ?thesis
      using ended_ok_mono [OF m(1) rs(2)] m(2) rs(1) acc Some
      by (auto simp: exec_ok_def cancel_bounded_def Let_def)
  qed
qed

lemma cancel_step_ok:
  fixes ex :: "('e, 'v, 'c) workflow_execution"
  assumes "well_compiled w" and "iter_ok (sg_iter sg)" and "exec_ok sg w ex"
    and "exec_step sg w ex (CallerCancels e) = Some ex'"
  shows "exec_ok sg w ex'"
proof (cases "ex_phase ex")
  case (Running cfg)
  let ?reasons = "if asks cfg then noted sg e (ex_reasons ex) else ex_reasons ex"
  let ?ex = "ex\<lparr>ex_reasons := ?reasons\<rparr>"
  obtain cfg' where ev: "on_event (sg_iter sg) (ew_name w) (Some (claimed sg)) (ew_graph w) cfg (Interrupt e) = Some cfg'"
    and ex': "ex' = after_main w cfg' ?ex"
    using assms(4) Running by auto
  have built: "built_graph (ew_graph w)" using assms(1) unfolding well_compiled_def by blast
  have inv: "reasons_ok sg (ex_reasons ex)" "config_inv (ew_graph w) cfg"
      "classified (claimed sg) (ex_reasons ex \<noteq> []) cfg" "dict_keys (ex_tasks ex) = in_flight cfg"
      "accounted (sg_is_timeout sg) (ew_graph w) (ex_tasks ex) (es_journal (ex_state ex))"
      "es_cleanup (ex_state ex) = []" "attempted_in (ex_state ex) \<subseteq> refs_of (ew_graph w)"
    using assms(3) Running by (simp_all add: exec_ok_def)
  have CI: "classified (claimed sg) (ex_reasons ex \<noteq> [] \<or> asks cfg \<and> claimed sg e) cfg'"
      "in_flight cfg' = in_flight cfg"
    using classified_interrupt [OF inv(3,2) ev] by blast+
  have "classified (claimed sg) (?reasons \<noteq> []) cfg'"
    by (rule classified_mono [OF CI(1)]) (auto simp: reasons_noted(2))
  moreover have "reasons_ok sg ?reasons" using reasons_noted(1) [OF inv(1)] inv(1) by simp
  ultimately show ?thesis
    unfolding ex'
    using inv(6,7) built.config_inv_event [OF built assms(2) inv(2) ev]
      accounted_same_keys [OF inv(5), of cfg'] CI(2) inv(4)
    by (intro after_main_ok) simp_all
next
  case (CleaningUp cs c b)
  then have "ex' = cancel_bounded sg (Some e) cs c b ex" using assms(4) by simp
  then show ?thesis using cancel_bounded_ok [OF assms(1-3) CleaningUp] by (simp only:)
qed (use assms(4) in simp_all)

lemma cleanup_start_ok:
  fixes ex :: "('e, 'v, 'c) workflow_execution"
  assumes "well_compiled w" and "iter_ok (sg_iter sg)" and "exec_ok sg w ex"
    and "exec_step sg w ex CleanupStarts = Some ex'"
  shows "exec_ok sg w ex'"
proof -
  obtain cs c b where p: "ex_phase ex = CleaningUp cs c b" "bd_run b = NotStarted"
    and ex': "ex' = cleanup_config ex b (execute (sg_iter sg) (origin_str (cl_origin c)) (cl_graph c) []) cs c"
    using assms(4) by (auto split: exec_phase.splits if_splits)
  let ?cfg = "execute (sg_iter sg) (origin_str (cl_origin c)) (cl_graph c) [] :: ('e, 'v, unit) op_config"
  obtain m where m: "ended_ok w (ex_state ex) (ex_reasons ex) m (c # cs)"
      "eligible_cleanup m (attempted_in (ex_state ex)) c"
    using assms(3) p(1) by (auto simp: exec_ok_def)
  have built: "built_graph (cl_graph c)"
    using assms(1) m(1) unfolding well_compiled_def ended_ok_def by auto
  have inv: "reasons_ok sg (ex_reasons ex)" "bounded_ok sg c b (ex_tasks ex) (ex_reasons ex)"
      "accounted (sg_is_timeout sg) (cl_graph c) (ex_tasks ex) (es_journal (ex_state ex))"
    using assms(3) p(1) by (simp_all add: exec_ok_def)
  have none: "ex_tasks ex = []" using inv(2) p(2) by (simp add: bounded_ok_def)
  have "config_inv (cl_graph c) ?cfg"
    unfolding execute_def
    by (rule built.advance_inv [OF built assms(2) init_inv [OF built.yields_wf [OF built]]])
  moreover have "classified (\<lambda>_. True) True ?cfg" unfolding execute_def by (rule classified_advance)
  ultimately have "bounded_ok sg c (b\<lparr>bd_run := Going ?cfg\<rparr>) (keep_tasks ?cfg (ex_tasks ex)) (ex_reasons ex)"
    using inv(2) keep_tasks_keys [of ?cfg "ex_tasks ex"] by (simp add: bounded_ok_def)
  moreover have "accounted (sg_is_timeout sg) (cl_graph c) (keep_tasks ?cfg (ex_tasks ex)) (es_journal (ex_state ex))"
    by (rule accounted_keep [OF inv(3)]) (simp add: none)
  ultimately show ?thesis
    using m inv(1) unfolding ex' by (auto simp: exec_ok_def cleanup_config_def)
qed

lemma cleanup_done_ok:
  fixes ex :: "('e, 'v, 'c) workflow_execution"
  assumes "well_compiled w" and "exec_ok sg w ex" and "exec_step sg w ex CleanupSeenDone = Some ex'"
  shows "exec_ok sg w ex'"
proof -
  obtain cs c b m where p: "ex_phase ex = CleaningUp cs c b" "es_run (ex_state ex) = Some m" "cleanup_done (bd_run b)"
    using assms(3) by (auto split: exec_phase.splits option.splits if_splits)
  have m: "ended_ok w (ex_state ex) (ex_reasons ex) m (c # cs)" "eligible_cleanup m (attempted_in (ex_state ex)) c"
    using assms(2) p(1,2) by (auto simp: exec_ok_def ended_ok_def)
  have inv: "reasons_ok sg (ex_reasons ex)" "bounded_ok sg c b (ex_tasks ex) (ex_reasons ex)"
      "accounted (sg_is_timeout sg) (cl_graph c) (ex_tasks ex) (es_journal (ex_state ex))"
    using assms(2) p(1) by (simp_all add: exec_ok_def)
  obtain rep where rep: "cleanup_result c (bd_run b) = Some rep" "rr_graph rep = cl_graph c"
      "all_accounted (cl_graph c) (rr_results rep) \<or> rr_results rep = [] \<and> rr_aborted rep"
      "ex_tasks ex = []"
  proof (cases "bd_run b")
    case (Going cfg)
    then have "config_inv (cl_graph c) cfg" "classified (\<lambda>_. True) True cfg" "dict_keys (ex_tasks ex) = in_flight cfg"
      using inv(2) by (simp_all add: bounded_ok_def)
    then show ?thesis using that p(3) Going by (cases cfg) (auto simp: cleanup_result_def)
  qed (use that p(3) inv(2) in \<open>auto simp: cleanup_result_def bounded_ok_def\<close>)
  let ?cr = "\<lparr>cr_cleanup = c, cr_run = rep, cr_expired = bd_expired b\<rparr>"
  let ?st = "(ex_state ex)\<lparr>es_cleanup := es_cleanup (ex_state ex) @ [?cr]\<rparr>"
  obtain passed where pd: "ew_cleanup w = passed @ c # cs"
      "cleaned m (attempted_in (ex_state ex)) passed (es_cleanup (ex_state ex))"
    using m(1) unfolding ended_ok_def by blast
  have "ew_cleanup w = (passed @ [c]) @ cs" using pd(1) by simp
  moreover have "cleaned m (attempted_in ?st) (passed @ [c]) (es_cleanup ?st)"
    using pd(2) m(2) rep(2,3) by (auto simp: cleaned_def cleanup_run_ok_def)
  ultimately have e: "ended_ok w ?st (ex_reasons ex) m cs"
    using m(1) unfolding ended_ok_def by (auto intro!: exI [of _ "passed @ [c]"])
  have sj: "settled_journal (sg_is_timeout sg) (es_journal ?st)"
    using inv(3) rep(4) by (simp add: accounted_none)
  have ex': "ex' = seen_done w m cs c b rep ex" using assms(3) p rep(1) by simp
  show ?thesis
  proof (cases "bd_declined b")
    case (Some x)
    then have "\<not> claimed sg x" using inv(2) by (simp add: bounded_ok_def)
    then show ?thesis
      using e sj inv(1) Some unfolding ex' by (auto simp: exec_ok_def seen_done_def Let_def)
  next
    case None
    show ?thesis
    proof (cases "bd_cancelled b")
      case True
      then have "ex_reasons ex \<noteq> []" using inv(2) None by (simp add: bounded_ok_def)
      then show ?thesis
        using e sj inv(1) None True unfolding ex'
        by (auto simp: seen_done_def Let_def intro: conclude_ok)
    next
      case False
      then show ?thesis
        using e sj inv(1) None unfolding ex'
        by (auto simp: seen_done_def Let_def intro: next_cleanup_ok)
    qed
  qed
qed

subsection \<open>Executions as a step system\<close>

record ('e, 'v, 'c) session =
  se_setting :: "('e, 'c) setting"
  se_workflow :: workflow
  se_execution :: "('e, 'v, 'c) workflow_execution"

definition fresh_state :: "('e, 'v) execution_state" where
  "fresh_state = \<lparr>es_journal = empty_journal, es_run = None, es_cleanup = [], es_used = False\<rparr>"

definition session_start :: "('e, 'v, 'c) session \<Rightarrow> bool" where
  "session_start s \<longleftrightarrow> iter_ok (sg_iter (se_setting s)) \<and> well_compiled (se_workflow s)
    \<and> start_execution (se_setting s) (se_workflow s) fresh_state = Inr (se_execution s)"

definition session_next :: "('e, 'v, 'c) session \<Rightarrow> ('e, 'v, 'c) session \<Rightarrow> bool" where
  "session_next s t \<longleftrightarrow> (\<exists>ev ex. exec_step (se_setting s) (se_workflow s) (se_execution s) ev = Some ex
    \<and> t = s\<lparr>se_execution := ex\<rparr>)"

definition session_good :: "('e, 'v, 'c) session \<Rightarrow> bool" where
  "session_good s \<longleftrightarrow> iter_ok (sg_iter (se_setting s)) \<and> well_compiled (se_workflow s)
    \<and> exec_ok (se_setting s) (se_workflow s) (se_execution s)"

lemma exec_step_ok:
  assumes "well_compiled w" and "iter_ok (sg_iter sg)" and "exec_ok sg w ex" and "exec_step sg w ex ev = Some ex'"
  shows "exec_ok sg w ex'"
proof (cases ev)
  case (RunnerWakes "is")
  then show ?thesis using runner_step_ok [OF assms(1-3)] assms(4) by blast
next
  case (CallerCancels e)
  then show ?thesis using cancel_step_ok [OF assms(1-3)] assms(4) by blast
next
  case CleanupStarts
  then show ?thesis using cleanup_start_ok [OF assms(1-3)] assms(4) by blast
next
  case CleanupExpires
  then obtain cs c b where p: "ex_phase ex = CleaningUp cs c b" and ex': "ex' = cancel_bounded sg None cs c b ex"
    using assms(4) by (auto split: exec_phase.splits if_splits)
  show ?thesis unfolding ex' by (rule cancel_bounded_ok [OF assms(1-3) p])
next
  case CleanupSeenDone
  then show ?thesis using cleanup_done_ok [OF assms(1,3)] assms(4) by blast
qed (use task_step_ok [OF assms(1,3,4)] in blast)+

lemma session_good_start: "session_start s \<Longrightarrow> session_good s"
proof -
  assume s: "session_start s"
  let ?sg = "se_setting s" and ?w = "se_workflow s"
  let ?st = "fresh_state\<lparr>es_used := True, es_run := Some \<lparr>rr_name = ew_name ?w, rr_graph = ew_graph ?w,
      rr_results = [], rr_aborted = False\<rparr>\<rparr>"
  let ?cfg = "execute (sg_iter ?sg) (ew_name ?w) (ew_graph ?w) [] :: ('a, 'b, 'c) op_config"
  let ?ex = "\<lparr>ex_state = ?st, ex_tasks = [], ex_reasons = [], ex_phase = RunnerCrashed\<rparr> :: ('a, 'b, 'c) workflow_execution"
  have it: "iter_ok (sg_iter ?sg)" and wc: "well_compiled ?w" and ex: "se_execution s = after_main ?w ?cfg ?ex"
    using s by (simp_all add: session_start_def start_execution_def begin_state_def fresh_state_def)
  have built: "built_graph (ew_graph ?w)" using wc unfolding well_compiled_def by blast
  have "config_inv (ew_graph ?w) ?cfg"
    unfolding execute_def by (rule built.advance_inv [OF built it init_inv [OF built.yields_wf [OF built]]])
  moreover have "classified (claimed ?sg) False ?cfg" unfolding execute_def by (rule classified_advance)
  moreover have "accounted (sg_is_timeout ?sg) (ew_graph ?w) (keep_tasks ?cfg []) (es_journal ?st)"
    by (rule accounted_keep)
      (simp_all add: accounted_none settled_journal_def journal_ok_def begins_def finals_def fresh_state_def
        empty_journal_def event_refs_def)
  ultimately have "exec_ok ?sg ?w (after_main ?w ?cfg ?ex)"
    by (intro after_main_ok) (simp_all add: reasons_ok_def fresh_state_def empty_journal_def)
  then show "session_good s" using it wc ex by (simp add: session_good_def)
qed

lemma session_good_next: "session_good s \<Longrightarrow> session_next s t \<Longrightarrow> session_good t"
  unfolding session_good_def session_next_def using exec_step_ok by fastforce

interpretation sessions: step_invariant session_start session_next session_good
  by (rule step_invariant.intro) (blast intro: session_good_start session_good_next)+

lemma session_same:
  "session_next\<^sup>*\<^sup>* s t \<Longrightarrow> se_setting t = se_setting s \<and> se_workflow t = se_workflow s"
  by (induction rule: rtranclp_induct) (auto simp: session_next_def)

text \<open>A lowered workflow is well compiled: its graphs are built, cleanups are armed by operations of
  the run, and the operations of a cleanup are allocated after those of the run.\<close>

lemma compile_refs:
  "compile_steps steps facts deadlines rules next0 = Inr ((g, operations, omissions), next1)
    \<Longrightarrow> refs_of g = {next0..<next1}"
proof -
  assume c: "compile_steps steps facts deadlines rules next0 = Inr ((g, operations, omissions), next1)"
  have "map op_ref (operations_of g) = [next0..<next1]"
    using compile_ok(7) [OF c] compile_operations(1) [OF c] by (metis list.map_comp)
  then show ?thesis unfolding refs_of_def by (metis list.set_map set_upt)
qed

lemma lower_cleanup_refs:
  "lower_cleanup plans steps operations facts deadlines rules nxt = Inr ((cs, oms), nxt')
    \<Longrightarrow> c \<in> set cs \<Longrightarrow> built_graph (cl_graph c) \<and> (\<forall>r\<in>refs_of (cl_graph c). nxt \<le> r)"
proof (induction plans arbitrary: nxt cs oms)
  case (Cons plan plans)
  then obtain g ops om k armed cs' oms' where comp: "compile_steps (cpl_steps plan) facts deadlines rules nxt = Inr ((g, ops, om), k)"
    and rest: "lower_cleanup plans steps operations facts deadlines rules k = Inr ((cs', oms'), nxt')"
    and cs: "cs = \<lparr>cl_graph = g, cl_when = cpl_when plan, cl_timeout = cpl_timeout plan,
             cl_origin = cpl_origin plan, cl_armed_by = armed\<rparr> # cs'"
    by (auto simp: rbind_Inr_iff)
  show ?case
  proof (cases "c \<in> set cs'")
    case True
    then show ?thesis using Cons.IH [OF rest] compile_ok(12) [OF comp] by fastforce
  next
    case False
    then have "cl_graph c = g" using Cons.prems(2) cs by auto
    then show ?thesis using compile_ok(11) [OF comp] compile_refs [OF comp] by simp
  qed
qed simp

lemma lower_well_compiled:
  assumes "lower name steps facts plans deadlines rules next0 = Inr (w, next2)"
  shows "well_compiled w"
proof -
  obtain operations omissions refused next1 where
    main: "compile_steps steps facts deadlines rules next0 = Inr ((ew_graph w, operations, omissions), next1)"
    and cleanup: "lower_cleanup plans steps operations facts deadlines rules next1 = Inr ((ew_cleanup w, refused), next2)"
    by (rule lower_ok [OF assms])
  have "\<forall>xs. cl_armed_by c = Some xs \<longrightarrow> op_ref ` set xs \<subseteq> refs_of (ew_graph w)" if c: "c \<in> set (ew_cleanup w)" for c
  proof -
    obtain plan where arm: "arming plan steps operations = Inr (cl_armed_by c)"
      using lower_cleanup_ok [OF cleanup] c by (auto simp: in_set_conv_nth dest: list_all2_nthD2)
    show ?thesis
    proof (intro allI impI)
      fix xs
      assume "cl_armed_by c = Some xs"
      then show "op_ref ` set xs \<subseteq> refs_of (ew_graph w)"
        using armed_from_main [OF main, of plan xs] arm by (simp add: refs_of_def)
    qed
  qed
  moreover have "built_graph (cl_graph c) \<and> refs_of (cl_graph c) \<inter> refs_of (ew_graph w) = {}"
    if c: "c \<in> set (ew_cleanup w)" for c
    using lower_cleanup_refs [OF cleanup c] compile_refs [OF main] by auto
  ultimately show ?thesis using compile_ok(11) [OF main] unfolding well_compiled_def by blast
qed

subsection \<open>Every execution can end\<close>

abbreviation cancelled_end :: "('e, 'v, 'c) wake" where
  "cancelled_end \<equiv> \<lparr>wk_end = Some WasCancelled, wk_cancel = None\<rparr>"

lemma live_call_wakes:
  assumes "call_live is_timeout c"
  shows "\<exists>c' jn'. perform_step d is_timeout x n (c, jn) cancelled_end = Some (c', jn')
    \<and> ((\<exists>out. c' = Concluded out) \<or> (\<exists>ow. c = Sending ow) \<and> (\<nexists>ow. c' = Sending ow))"
proof (cases c)
  case (Sending ow)
  then obtain ex ca where "owned_step (op_timeout x \<noteq> None) True ow cancelled_end = Some (Gone ex ca WasCancelled)"
    using assms by (cases ow) (auto simp: until_stopped_def drain_task_def Let_def)
  then show ?thesis
    using Sending by (auto simp: dropped_def start_abort_def Let_def concluded_eq)
next
  case (Aborting expired cancelled en ow)
  then obtain ex ca where "owned_step True False ow cancelled_end = Some (Gone ex ca WasCancelled)"
    using assms by (cases ow) (auto simp: until_stopped_def drain_task_def Let_def)
  then show ?thesis using Aborting by (simp add: concluded_eq)
next
  case (Concluded out)
  then show ?thesis using assms by simp
qed

lemma session_step: "exec_step (se_setting s) (se_workflow s) (se_execution s) ev = Some ex
    \<Longrightarrow> session_next s (s\<lparr>se_execution := ex\<rparr>)"
  unfolding session_next_def by blast

abbreviation phase_of :: "('e, 'v, 'c) session \<Rightarrow> ('e, 'v, 'c) exec_phase" where
  "phase_of s \<equiv> ex_phase (se_execution s)"

abbreviation task_of :: "('e, 'v, 'c) session \<Rightarrow> nat \<Rightarrow> ('e, 'v, 'c) node_task option" where
  "task_of s i \<equiv> map_of (ex_tasks (se_execution s)) i"

lemma task_wakes:
  assumes "session_good s" and "task_of s i = Some (Calling c)"
  shows "\<exists>t. session_next s t \<and> phase_of t = phase_of s \<and>
    ((\<exists>en. task_of t i = Some (TaskOver en))
     \<or> (\<exists>c'. task_of t i = Some (Calling c') \<and> (\<exists>ow. c = Sending ow) \<and> (\<nexists>ow. c' = Sending ow)))"
proof -
  let ?ex = "se_execution s" and ?sg = "se_setting s"
  have "exec_ok ?sg (se_workflow s) ?ex" using assms(1) by (simp add: session_good_def)
  from tasks_have_graph [OF this assms(2)] obtain g where g: "current_graph (se_workflow s) (ex_phase ?ex) = Some g"
      "accounted (sg_is_timeout ?sg) g (ex_tasks ?ex) (es_journal (ex_state ?ex))" by blast
  then have "task_ok (sg_is_timeout ?sg) g i (Calling c)"
    using assms(2) unfolding accounted_def tasks_ok_def by blast
  then obtain x where x: "call_live (sg_is_timeout ?sg) c" "n_payload (node_of g i) = Some x"
    unfolding task_ok_def by blast
  obtain c' jn' where st: "perform_step (sg_dispatcher ?sg) (sg_is_timeout ?sg) x (node_of g i)
        (c, es_journal (ex_state ?ex)) cancelled_end = Some (c', jn')"
    and c': "(\<exists>out. c' = Concluded out) \<or> (\<exists>ow. c = Sending ow) \<and> (\<nexists>ow. c' = Sending ow)"
    using live_call_wakes [OF x(1)] by blast
  let ?ex' = "set_task i (task_of_call c', jn') ?ex"
  have "exec_step ?sg (se_workflow s) ?ex (TaskWakes i cancelled_end) = Some ?ex'"
    using assms(2) g(1) x(2) st by (simp add: wake_task_def)
  then have "session_next s (s\<lparr>se_execution := ?ex'\<rparr>)" by (rule session_step)
  moreover have "(\<exists>en. task_of_call c' = TaskOver en)
      \<or> (\<exists>c1. task_of_call c' = Calling c1 \<and> (\<exists>ow. c = Sending ow) \<and> (\<nexists>ow. c1 = Sending ow))"
    using c' by (cases c') auto
  ultimately show ?thesis
    by (intro exI [of _ "s\<lparr>se_execution := ?ex'\<rparr>"]) (auto simp: set_task_def)
qed

lemma task_can_end:
  assumes "session_good s" and "task_of s i \<noteq> None"
  shows "\<exists>t en. session_next\<^sup>*\<^sup>* s t \<and> phase_of t = phase_of s \<and> task_of t i = Some (TaskOver en)"
proof -
  obtain t0 where t0: "task_of s i = Some t0" using assms(2) by blast
  show ?thesis
  proof (cases t0)
    case Scheduled
    let ?ex = "set_task i (TaskOver WasCancelled, es_journal (ex_state (se_execution s))) (se_execution s)"
    have "exec_step (se_setting s) (se_workflow s) (se_execution s) (TaskDropped i) = Some ?ex"
      using t0 Scheduled by simp
    from session_step [OF this] show ?thesis
      by (intro exI [of _ "s\<lparr>se_execution := ?ex\<rparr>"] exI [of _ WasCancelled]) (auto simp: set_task_def)
  next
    case (TaskOver en)
    then show ?thesis using t0 by blast
  next
    case (Calling c)
    then have c: "task_of s i = Some (Calling c)" using t0 by simp
    obtain s1 where s1: "session_next s s1" "phase_of s1 = phase_of s"
      and or: "(\<exists>en. task_of s1 i = Some (TaskOver en))
        \<or> (\<exists>c'. task_of s1 i = Some (Calling c') \<and> (\<exists>ow. c = Sending ow) \<and> (\<nexists>ow. c' = Sending ow))"
      using task_wakes [OF assms(1) c] by blast
    show ?thesis
      using or
    proof
      assume "\<exists>en. task_of s1 i = Some (TaskOver en)"
      then show ?thesis using s1 by blast
    next
      assume "\<exists>c'. task_of s1 i = Some (Calling c') \<and> (\<exists>ow. c = Sending ow) \<and> (\<nexists>ow. c' = Sending ow)"
      then obtain c' where c': "task_of s1 i = Some (Calling c')" "\<nexists>ow. c' = Sending ow" by blast
      obtain s2 where s2: "session_next s1 s2" "phase_of s2 = phase_of s1" "\<exists>en. task_of s2 i = Some (TaskOver en)"
        using task_wakes [OF session_good_next [OF assms(1) s1(1)] c'(1)] c'(2) by blast
      have "session_next\<^sup>*\<^sup>* s s2" using s1(1) s2(1) by (meson converse_rtranclp_into_rtranclp r_into_rtranclp)
      then show ?thesis using s1(2) s2(2,3) by auto
    qed
  qed
qed

lemma ended_enabled:
  assumes "config_inv g cfg" and "i \<in> set (in_flight cfg)"
  shows "\<exists>cfg'. on_event iter name absorbed g cfg (Ended [(i, en)]) = Some cfg'"
  using assms by (cases cfg) auto

lemma after_main_phase:
  "(\<exists>cfg'. ex_phase (after_main w cfg ex) = Running cfg' \<and> cfg' = cfg)
   \<or> (\<exists>main ex'. after_main w cfg ex = next_cleanup w main (ew_cleanup w) ex')
   \<or> (\<exists>e. ex_phase (after_main w cfg ex) = HardCancelled e) \<or> ex_phase (after_main w cfg ex) = RunnerCrashed"
  by (cases cfg) (auto simp: after_main_def)

definition exec_over :: "('e, 'v, 'c) exec_phase \<Rightarrow> bool" where
  "exec_over p \<longleftrightarrow> (case p of Running _ \<Rightarrow> False | CleaningUp _ _ _ \<Rightarrow> False | RunnerCrashed \<Rightarrow> False | _ \<Rightarrow> True)"

lemma conclude_over: "exec_over (ex_phase (conclude_execution w main ended ex))"
  by (simp add: conclude_execution_def Let_def exec_over_def)

lemma next_cleanup_phase:
  "exec_over (ex_phase (next_cleanup w main cs ex))
   \<or> (\<exists>cs' c b. ex_phase (next_cleanup w main cs ex) = CleaningUp cs' c b \<and> length cs' < length cs)"
proof (induction cs)
  case Nil
  then show ?case using conclude_over by simp
next
  case (Cons c cs)
  then show ?case by (auto intro: less_SucI)
qed

lemma seen_done_phase:
  "exec_over (ex_phase (seen_done w main cs c b rep ex)) \<or> (\<exists>ex'. seen_done w main cs c b rep ex = next_cleanup w main cs ex')"
  unfolding seen_done_def Let_def
  by (cases "bd_declined b"; cases "bd_cancelled b") (auto simp: conclude_over exec_over_def [of "HardCancelled _"])

text \<open>What is left: cleanups, whether the current one has begun, and the runner's own work.\<close>

fun stages_left :: "workflow \<Rightarrow> ('e, 'v, 'c) exec_phase \<Rightarrow> nat" where
  "stages_left w (Running cfg) = Suc (length (ew_cleanup w))"
| "stages_left w (CleaningUp cs c b) = Suc (length cs)"
| "stages_left w _ = 0"

fun start_left :: "('e, 'v, 'c) exec_phase \<Rightarrow> nat" where
  "start_left (CleaningUp cs c b) = (if bd_run b = NotStarted then 1 else 0)"
| "start_left _ = 0"

fun work_left :: "('e, 'v, 'c) exec_phase \<Rightarrow> nat" where
  "work_left (Running cfg) = config_size cfg"
| "work_left (CleaningUp cs c b) = (case bd_run b of Going cfg \<Rightarrow> config_size cfg | _ \<Rightarrow> 0)"
| "work_left _ = 0"

abbreviation closer :: "workflow \<Rightarrow> (('e, 'v, 'c) exec_phase \<times> ('e, 'v, 'c) exec_phase) set" where
  "closer w \<equiv> measures [stages_left w, start_left, work_left]"

lemma next_cleanup_closer:
  assumes "stages_left w p = Suc (length cs)" and "\<not> exec_over (ex_phase (next_cleanup w main cs ex))"
  shows "(ex_phase (next_cleanup w main cs ex), p) \<in> closer w"
proof -
  obtain cs' c b where "ex_phase (next_cleanup w main cs ex) = CleaningUp cs' c b" "length cs' < length cs"
    using next_cleanup_phase [of w main cs ex] assms(2) by blast
  then show ?thesis using assms(1) by simp
qed

lemma session_gets_closer:
  assumes good: "session_good s" and "\<not> exec_over (phase_of s)"
  shows "\<exists>t. session_next\<^sup>*\<^sup>* s t \<and> (exec_over (phase_of t) \<or> (phase_of t, phase_of s) \<in> closer (se_workflow s))"
proof -
  let ?w = "se_workflow s" and ?sg = "se_setting s"
  have ok: "exec_ok ?sg ?w (se_execution s)" and wc: "well_compiled ?w" and it: "iter_ok (sg_iter ?sg)"
    using good by (simp_all add: session_good_def)
  show ?thesis
  proof (cases "phase_of s")
    case (Running cfg)
    have wf: "wf_graph (ew_graph ?w)" using wc built.yields_wf unfolding well_compiled_def by blast
    have inv: "config_inv (ew_graph ?w) cfg" "dict_keys (ex_tasks (se_execution s)) = in_flight cfg" "in_flight cfg \<noteq> []"
      using ok Running by (simp_all add: exec_ok_def)
    obtain i where i: "i \<in> set (in_flight cfg)" using inv(3) by (cases "in_flight cfg") auto
    then have "task_of s i \<noteq> None" unfolding inv(2) [symmetric] by (metis map_of_None_key)
    then obtain t en where t: "session_next\<^sup>*\<^sup>* s t" "phase_of t = phase_of s" "task_of t i = Some (TaskOver en)"
      using task_can_end [OF good] by blast
    note same = session_same [OF t(1)]
    obtain cfg' where ev: "on_event (sg_iter ?sg) (ew_name ?w) (Some (claimed ?sg)) (ew_graph ?w) cfg (Ended [(i, en)]) = Some cfg'"
      using ended_enabled [OF inv(1) i] by blast
    let ?ex = "after_main ?w cfg' (se_execution t)"
    have "exec_step (se_setting t) (se_workflow t) (se_execution t) (RunnerWakes [i]) = Some ?ex"
      using t(2,3) Running ev same by (simp add: endings_def)
    from session_step [OF this] have step: "session_next t (t\<lparr>se_execution := ?ex\<rparr>)" .
    have "exec_over (ex_phase ?ex) \<or> (ex_phase ?ex, phase_of s) \<in> closer ?w"
    proof -
      have "ex_phase ?ex \<noteq> RunnerCrashed"
        using session_good_next [OF sessions.inv_steps [OF t(1) good] step] by (auto simp: session_good_def exec_ok_def)
      then consider "ex_phase ?ex = Running cfg'"
        | main ex' where "?ex = next_cleanup ?w main (ew_cleanup ?w) ex'"
        | e where "ex_phase ?ex = HardCancelled e"
        using after_main_phase [of ?w cfg' "se_execution t"] by blast
      then show ?thesis
      proof cases
        case 1
        then show ?thesis using Running ended_size [OF it wf inv(1) ev] by simp
      next
        case 2
        then show ?thesis using next_cleanup_closer [of ?w "phase_of s" "ew_cleanup ?w"] Running by auto
      next
        case 3
        then show ?thesis by (simp add: exec_over_def)
      qed
    qed
    then show ?thesis
      using t(1) step by (intro exI [of _ "t\<lparr>se_execution := ?ex\<rparr>"]) (auto intro: rtranclp.rtrancl_into_rtrancl)
  next
    case (CleaningUp cs c b)
    obtain main where main: "ended_ok ?w (ex_state (se_execution s)) (ex_reasons (se_execution s)) main (c # cs)"
      using ok CleaningUp by (auto simp: exec_ok_def)
    have bd: "bounded_ok ?sg c b (ex_tasks (se_execution s)) (ex_reasons (se_execution s))"
      using ok CleaningUp by (simp add: exec_ok_def)
    have wf: "wf_graph (cl_graph c)"
      using wc main built.yields_wf unfolding well_compiled_def ended_ok_def by auto
    consider (fresh) "bd_run b = NotStarted" | (over) "cleanup_done (bd_run b)"
      | (going) cfg where "bd_run b = Going cfg" "\<not> cleanup_done (bd_run b)"
      by (cases "bd_run b") auto
    then show ?thesis
    proof cases
      case fresh
      let ?ex = "cleanup_config (se_execution s) b (execute (sg_iter ?sg) (origin_str (cl_origin c)) (cl_graph c) []) cs c"
      have "exec_step ?sg ?w (se_execution s) CleanupStarts = Some ?ex" using CleaningUp fresh by simp
      from session_step [OF this] show ?thesis
        using CleaningUp fresh
        by (intro exI [of _ "s\<lparr>se_execution := ?ex\<rparr>"]) (auto simp: cleanup_config_def)
    next
      case over
      obtain ex where ex: "exec_step ?sg ?w (se_execution s) CleanupSeenDone = Some ex"
        using CleaningUp over main by (auto simp: ended_ok_def)
      from session_step [OF ex] have step: "session_next s (s\<lparr>se_execution := ex\<rparr>)" .
      have "ex_phase ex \<noteq> RunnerCrashed"
        using session_good_next [OF good step] by (auto simp: session_good_def exec_ok_def)
      then obtain rep where rep: "ex = seen_done ?w main cs c b rep (se_execution s)"
        using ex CleaningUp over main by (auto simp: ended_ok_def split: option.splits)
      have left: "stages_left ?w (phase_of s) = Suc (length cs)" using CleaningUp by simp
      have "exec_over (ex_phase ex) \<or> (ex_phase ex, phase_of s) \<in> closer ?w"
        using seen_done_phase [of ?w main cs c b rep "se_execution s"] next_cleanup_closer [OF left]
        unfolding rep by metis
      then show ?thesis using step by (intro exI [of _ "s\<lparr>se_execution := ex\<rparr>"]) auto
    next
      case going
      have inv: "config_inv (cl_graph c) cfg" "dict_keys (ex_tasks (se_execution s)) = in_flight cfg"
        using bd going(1) by (simp_all add: bounded_ok_def)
      obtain i where i: "i \<in> set (in_flight cfg)"
        using inv(1) going by (cases cfg) (force simp: neq_Nil_conv)+
      then have "task_of s i \<noteq> None" unfolding inv(2) [symmetric] by (metis map_of_None_key)
      then obtain t en where t: "session_next\<^sup>*\<^sup>* s t" "phase_of t = phase_of s" "task_of t i = Some (TaskOver en)"
        using task_can_end [OF good] by blast
      note same = session_same [OF t(1)]
      obtain cfg' where ev: "on_event (sg_iter ?sg) (origin_str (cl_origin c)) (Some (\<lambda>_. True)) (cl_graph c) cfg
          (Ended [(i, en)]) = Some cfg'"
        using ended_enabled [OF inv(1) i] by blast
      let ?ex = "cleanup_config (se_execution t) b cfg' cs c"
      have "exec_step (se_setting t) (se_workflow t) (se_execution t) (RunnerWakes [i]) = Some ?ex"
        using t(2,3) CleaningUp going(1) ev same by (simp add: endings_def)
      from session_step [OF this] have step: "session_next t (t\<lparr>se_execution := ?ex\<rparr>)" .
      have "(ex_phase ?ex, phase_of s) \<in> closer ?w"
        using CleaningUp going(1) ended_size [OF it wf inv(1) ev] by (simp add: cleanup_config_def)
      then show ?thesis
        using t(1) step by (intro exI [of _ "t\<lparr>se_execution := ?ex\<rparr>"]) (auto intro: rtranclp.rtrancl_into_rtrancl)
    qed
  next
    case RunnerCrashed
    then show ?thesis using ok by (simp add: exec_ok_def)
  qed (use assms(2) in \<open>simp_all add: exec_over_def\<close>)
qed

lemma session_reaches_end:
  "session_good s \<Longrightarrow> se_workflow s = w \<Longrightarrow> \<exists>t. session_next\<^sup>*\<^sup>* s t \<and> exec_over (phase_of t)"
proof (induction "phase_of s" arbitrary: s rule: wf_induct_rule [OF wf_measures [of "[stages_left w, start_left, work_left]"], case_names less])
  case less
  show ?case
  proof (cases "exec_over (phase_of s)")
    case False
    obtain t where t: "session_next\<^sup>*\<^sup>* s t"
        "exec_over (phase_of t) \<or> (phase_of t, phase_of s) \<in> closer (se_workflow s)"
      using session_gets_closer [OF less.prems(1) False] by blast
    show ?thesis
      using t(2)
    proof
      assume "(phase_of t, phase_of s) \<in> closer (se_workflow s)"
      then have "\<exists>u. session_next\<^sup>*\<^sup>* t u \<and> exec_over (phase_of u)"
        using less.hyps [of t] sessions.inv_steps [OF t(1) less.prems(1)] session_same [OF t(1)] less.prems(2)
        by simp
      then show ?thesis using t(1) by (meson rtranclp_trans)
    qed (use t(1) in blast)
  qed blast
qed

subsection \<open>Properties\<close>

lemma reachable_ok:
  assumes "session_start s" and "session_next\<^sup>*\<^sup>* s t"
  shows "exec_ok (se_setting s) (se_workflow s) (se_execution t)"
  using sessions.reachable_inv [OF assms] session_same [OF assms(2)] by (simp add: session_good_def)

text \<open>C4. C. How an execution ends.  The runner never crashes.  An execution that returns a report has
  no required failure in its run, and none in its cleanup unless it was aborted; one that raises a
  \<open>WorkflowError\<close> has one.  Either way every node of the run has one explained result, and the
  report is marked aborted exactly when it carries the reason of a cancellation that the caller's
  predicate claimed.  A cancellation that propagates is one the predicate declined.\<close>

theorem execution_outcome:
  assumes "session_start s" and "session_next\<^sup>*\<^sup>* s t"
  shows "case ex_phase (se_execution t) of
      Reported r \<Rightarrow> failures (wr_run r) = []
        \<and> (list_ex cleanup_failed (wr_cleanup r) \<longrightarrow> wr_outcome r = Aborted)
        \<and> all_accounted (ew_graph (se_workflow s)) (rr_results (wr_run r))
        \<and> (case wr_reason r of
             None \<Rightarrow> wr_outcome r = Completed \<and> \<not> rr_aborted (wr_run r)
           | Some why \<Rightarrow> wr_outcome r = Aborted \<and> (\<exists>e. claimed (se_setting s) e \<and> why = reason_of (se_setting s) e))
    | WorkflowFailed r \<Rightarrow> (failures (wr_run r) \<noteq> [] \<or> wr_outcome r = Completed \<and> list_ex cleanup_failed (wr_cleanup r))
        \<and> all_accounted (ew_graph (se_workflow s)) (rr_results (wr_run r))
        \<and> (case wr_reason r of
             None \<Rightarrow> wr_outcome r = Completed \<and> \<not> rr_aborted (wr_run r)
           | Some why \<Rightarrow> wr_outcome r = Aborted \<and> (\<exists>e. claimed (se_setting s) e \<and> why = reason_of (se_setting s) e))
    | HardCancelled e \<Rightarrow> \<not> claimed (se_setting s) e
    | RunnerCrashed \<Rightarrow> False
    | _ \<Rightarrow> True"
proof -
  let ?ex = "se_execution t" and ?sg = "se_setting s" and ?w = "se_workflow s"
  note ok = reachable_ok [OF assms]
  have rs: "reasons_ok ?sg (ex_reasons ?ex)" using ok by (simp add: exec_ok_def)
  have why: "case wr_reason r of
       None \<Rightarrow> wr_outcome r = Completed \<and> \<not> rr_aborted (wr_run r)
     | Some why \<Rightarrow> wr_outcome r = Aborted \<and> (\<exists>e. claimed ?sg e \<and> why = reason_of ?sg e)"
    if "report_of (ex_state ?ex) (ex_reasons ?ex) rest r" for rest and r :: "('a, 'b) workflow_report"
    using that rs by (cases "wr_outcome r") (auto simp: report_of_def reasons_ok_def)
  show ?thesis
  proof (cases "ex_phase ?ex")
    case (Reported r)
    then obtain rest where r: "ended_ok ?w (ex_state ?ex) (ex_reasons ?ex) (wr_run r) rest"
        "report_of (ex_state ?ex) (ex_reasons ?ex) rest r" "\<not> raises r"
      using ok by (auto simp: exec_ok_def)
    have "all_accounted (ew_graph ?w) (rr_results (wr_run r))" using r(1) by (simp add: ended_ok_def main_ok_def)
    moreover have "list_ex cleanup_failed (wr_cleanup r) \<longrightarrow> wr_outcome r = Aborted"
      using r(3) by (cases "wr_outcome r") (simp_all add: raises_def)
    ultimately show ?thesis using Reported r(3) why [OF r(2)] by (simp add: raises_def)
  next
    case (WorkflowFailed r)
    then obtain rest where r: "ended_ok ?w (ex_state ?ex) (ex_reasons ?ex) (wr_run r) rest"
        "report_of (ex_state ?ex) (ex_reasons ?ex) rest r" "raises r"
      using ok by (auto simp: exec_ok_def)
    have "all_accounted (ew_graph ?w) (rr_results (wr_run r))" using r(1) by (simp add: ended_ok_def main_ok_def)
    then show ?thesis using WorkflowFailed r(3) why [OF r(2)] by (simp add: raises_def)
  qed (use ok in \<open>simp_all add: exec_ok_def\<close>)
qed

text \<open>C5. C. Cleanup comes after the run and misses nothing.  While the run is in progress no cleanup
  has been reported; once it is over, the reported cleanups are, in order, exactly those selected by
  its outcome and armed by an attempted operation among the graphs passed so far; an execution that
  was not aborted and not cancelled has passed them all.\<close>

theorem cleanup_sequence:
  assumes "session_start s" and "session_next\<^sup>*\<^sup>* s t"
  shows "case ex_phase (se_execution t) of
      Running _ \<Rightarrow> es_cleanup (ex_state (se_execution t)) = []
    | RunnerCrashed \<Rightarrow> False
    | p \<Rightarrow> \<exists>main passed rest. es_run (ex_state (se_execution t)) = Some main
        \<and> ew_cleanup (se_workflow s) = passed @ rest
        \<and> map cr_cleanup (es_cleanup (ex_state (se_execution t)))
            = filter (eligible_cleanup main (attempted_in (ex_state (se_execution t)))) passed
        \<and> (\<forall>r. p = Reported r \<or> p = WorkflowFailed r \<longrightarrow> wr_run r = main \<and> wr_cleanup r = es_cleanup (ex_state (se_execution t))
             \<and> (wr_outcome r = Completed \<longrightarrow> rest = []))"
proof -
  let ?ex = "se_execution t" and ?sg = "se_setting s" and ?w = "se_workflow s"
  note ok = reachable_ok [OF assms]
  have ended: "\<exists>passed. es_run (ex_state ?ex) = Some main \<and> ew_cleanup ?w = passed @ rest
      \<and> map cr_cleanup (es_cleanup (ex_state ?ex)) = filter (eligible_cleanup main (attempted_in (ex_state ?ex))) passed"
    if "ended_ok ?w (ex_state ?ex) (ex_reasons ?ex) main rest" for main rest
    using that by (auto simp: ended_ok_def cleaned_def)
  show ?thesis
  proof (cases "ex_phase ?ex")
    case (CleaningUp cs c b)
    then obtain main where "ended_ok ?w (ex_state ?ex) (ex_reasons ?ex) main (c # cs)"
      using ok by (auto simp: exec_ok_def)
    from ended [OF this] show ?thesis using CleaningUp by (simp del: ex_simps) blast
  next
    case (Reported r)
    then obtain rest where r: "ended_ok ?w (ex_state ?ex) (ex_reasons ?ex) (wr_run r) rest"
        "report_of (ex_state ?ex) (ex_reasons ?ex) rest r"
      using ok by (auto simp: exec_ok_def)
    obtain passed where p: "es_run (ex_state ?ex) = Some (wr_run r) \<and> ew_cleanup ?w = passed @ rest
      \<and> map cr_cleanup (es_cleanup (ex_state ?ex))
          = filter (eligible_cleanup (wr_run r) (attempted_in (ex_state ?ex))) passed"
      using ended [OF r(1)] by blast
    have "wr_cleanup r = es_cleanup (ex_state ?ex) \<and> (wr_outcome r = Completed \<longrightarrow> rest = [])"
      using r(2) by (auto simp: report_of_def)
    then show ?thesis
      using p Reported by (simp del: ex_simps) (intro exI [of _ "wr_run r"] exI [of _ passed] exI [of _ rest], simp)
  next
    case (WorkflowFailed r)
    then obtain rest where r: "ended_ok ?w (ex_state ?ex) (ex_reasons ?ex) (wr_run r) rest"
        "report_of (ex_state ?ex) (ex_reasons ?ex) rest r"
      using ok by (auto simp: exec_ok_def)
    obtain passed where p: "es_run (ex_state ?ex) = Some (wr_run r) \<and> ew_cleanup ?w = passed @ rest
      \<and> map cr_cleanup (es_cleanup (ex_state ?ex))
          = filter (eligible_cleanup (wr_run r) (attempted_in (ex_state ?ex))) passed"
      using ended [OF r(1)] by blast
    have "wr_cleanup r = es_cleanup (ex_state ?ex) \<and> (wr_outcome r = Completed \<longrightarrow> rest = [])"
      using r(2) by (auto simp: report_of_def)
    then show ?thesis
      using p WorkflowFailed by (simp del: ex_simps) (intro exI [of _ "wr_run r"] exI [of _ passed] exI [of _ rest], simp)
  next
    case (HardCancelled e)
    then obtain main rest where "ended_ok ?w (ex_state ?ex) (ex_reasons ?ex) main rest"
      using ok by (auto simp: exec_ok_def)
    from ended [OF this] show ?thesis using HardCancelled by (simp del: ex_simps) blast
  qed (use ok in \<open>simp_all add: exec_ok_def\<close>)
qed

text \<open>C6. C. No call outlives its execution.  However it ends, no task is left, every operation has as
  many terminal as begin events, the attempts handed to the caller are the operations that began,
  and an interruption is recorded for exactly the operations with a dropped call.\<close>

theorem no_call_left:
  assumes "session_start s" and "session_next\<^sup>*\<^sup>* s t" and "exec_over (ex_phase (se_execution t))"
  shows "ex_tasks (se_execution t) = []
    \<and> (let jn = es_journal (ex_state (se_execution t)) in
        (\<forall>x. begins jn x = finals jn x)
      \<and> jn_attempted jn = event_refs (\<lambda>e. oe_outcome e = OpBegin) (jn_events jn)
      \<and> set (dict_keys (jn_interruptions jn))
          = event_refs (\<lambda>e. drop_event (sg_is_timeout (se_setting s)) (oe_outcome e) (oe_detail e)) (jn_events jn))"
  using reachable_ok [OF assms(1,2)] assms(3)
  by (cases "ex_phase (se_execution t)")
    (simp_all add: exec_over_def exec_ok_def settled_journal_def journal_ok_def Let_def)


subsection \<open>Witnesses\<close>

text \<open>One exposure, with a cleanup for a cancelled run.\<close>

definition demo_closing :: operation where
  "demo_closing = demo_op 1 (demo_step ''b'' ''Park'' demo_cam2 [])"

definition lone :: "operation \<Rightarrow> operation option builder" where
  "lone x = snd (builder_add (op_id x) ''g'' (Some x) {} {} Stop False 0 None empty_builder)"

definition demo_watched :: workflow where
  "demo_watched = \<lparr>ew_name = ''run'', ew_graph = frozen (lone demo_call),
    ew_cleanup = [\<lparr>cl_graph = frozen (lone demo_closing), cl_when = OnCancelled, cl_timeout = Finite 60,
       cl_origin = \<lparr>or_source = ''p'', or_path = [], or_reason = ''''\<rparr>, cl_armed_by = Some [demo_call]\<rparr>],
    ew_omissions = []\<rparr>"

definition demo_setting :: "(string, string) setting" where
  "demo_setting = \<lparr>sg_iter = sorted_list_of_set, sg_dispatcher = demo_dispatcher, sg_is_timeout = (\<lambda>_. False),
    sg_in_domain = Some (\<lambda>e. e = ''dusk''), sg_str = id\<rparr>"

fun after_events :: "('e, 'c) setting \<Rightarrow> workflow \<Rightarrow> ('e, 'v, 'c) workflow_execution \<Rightarrow> ('e, 'v, 'c) exec_event list
    \<Rightarrow> ('e, 'v, 'c) workflow_execution option" where
  "after_events sg w ex [] = Some ex"
| "after_events sg w ex (ev # evs) =
    (case exec_step sg w ex ev of None \<Rightarrow> None | Some ex' \<Rightarrow> after_events sg w ex' evs)"

definition demo_events :: "(string, unit, string) exec_event list" where
  "demo_events = [TaskStarts 0 [], CallerCancels ''dusk'', TaskWakes 0 \<lparr>wk_end = None, wk_cancel = Some ''dusk''\<rparr>,
     TaskWakes 0 cancelled_end, RunnerWakes [0],
     CleanupStarts, TaskStarts 0 [], RunnerWakes [0], CleanupSeenDone]"

definition demo_start :: "(string, unit, string) workflow_execution" where
  "demo_start = projr (start_execution demo_setting demo_watched fresh_state)"


lemma demo_starts: "start_execution demo_setting demo_watched (fresh_state :: (string, unit) execution_state) = Inr demo_start"
  unfolding demo_start_def start_execution_def
  by (simp add: begin_state_def rguard_def fresh_state_def demo_watched_def)

lemma demo_ends: "map_option (\<lambda>ex. case ex_phase ex of Reported r \<Rightarrow>
     wr_outcome r = Aborted \<and> wr_reason r = Some ''dusk'' \<and> length (wr_cleanup r) = 1 | _ \<Rightarrow> False)
   (after_events demo_setting demo_watched demo_start demo_events) = Some True"
  by code_simp

lemma lone_built: "built_graph (frozen (lone x))"
proof -
  have "wf_builder (lone x)"
    using wf_builder_add [OF wf_builder_empty, of "op_id x"] unfolding lone_def by (metis prod.collapse)
  moreover have "\<exists>g. build (lone x) = Inr g"
    by (simp add: lone_def builder_add_def empty_builder_def build_def topo_order_def
      frozen_def upt_rec rbind_Inr_iff indegrees_def deps_of_def dedup_def dependents_def subtract_def
      rguard_def Let_def)
  ultimately show ?thesis unfolding built_graph_def by (auto simp: build_def rbind_Inr_iff)
qed

lemma after_events_reach:
  "after_events (se_setting s) (se_workflow s) (se_execution s) evs = Some ex
    \<Longrightarrow> session_next\<^sup>*\<^sup>* s (s\<lparr>se_execution := ex\<rparr>)"
proof (induction evs arbitrary: s)
  case (Cons ev evs)
  then obtain ex1 where e: "exec_step (se_setting s) (se_workflow s) (se_execution s) ev = Some ex1"
      "after_events (se_setting s) (se_workflow s) ex1 evs = Some ex" by (auto split: option.splits)
  have "session_next\<^sup>*\<^sup>* (s\<lparr>se_execution := ex1\<rparr>) (s\<lparr>se_execution := ex\<rparr>)"
    using Cons.IH [of "s\<lparr>se_execution := ex1\<rparr>"] e(2) by simp
  then show ?case using session_step [OF e(1)] by (rule converse_rtranclp_into_rtranclp [rotated])
next
  case Nil
  then have "s\<lparr>se_execution := ex\<rparr> = s" by (cases s) simp
  then show ?case by simp
qed

definition demo_session :: "(string, unit, string) session" where
  "demo_session = \<lparr>se_setting = demo_setting, se_workflow = demo_watched, se_execution = demo_start\<rparr>"

lemma demo_session_starts: "session_start demo_session"
proof -
  have "refs_of (frozen (lone x)) = {op_ref x}" for x
    by (simp add: refs_of_def operations_of_def frozen_def lone_def builder_add_def empty_builder_def map_filter_simps)
  then show ?thesis
    using demo_starts
    by (simp add: session_start_def demo_session_def demo_setting_def iter_ok_sorted well_compiled_def
      demo_watched_def lone_built demo_call_def demo_closing_def demo_op_def)
qed


lemma demo_dusk_report:
  obtains t r where "session_next\<^sup>*\<^sup>* demo_session t" and "ex_phase (se_execution t) = Reported r"
    and "wr_outcome r = Aborted" and "wr_reason r = Some ''dusk''" and "length (wr_cleanup r) = 1"
proof -
  obtain ex where ex: "after_events demo_setting demo_watched demo_start demo_events = Some ex"
      "case ex_phase ex of Reported r \<Rightarrow> wr_outcome r = Aborted \<and> wr_reason r = Some ''dusk'' \<and> length (wr_cleanup r) = 1
       | _ \<Rightarrow> False"
    using demo_ends by (auto simp: map_option_eq_Some)
  have "session_next\<^sup>*\<^sup>* demo_session (demo_session\<lparr>se_execution := ex\<rparr>)"
    by (rule after_events_reach [of _ demo_events]) (simp add: demo_session_def ex(1))
  then show thesis using that [of "demo_session\<lparr>se_execution := ex\<rparr>"] ex(2) by (cases "ex_phase ex") auto
qed

lemma demo_session_simps [simp]: "se_setting demo_session = demo_setting" "se_workflow demo_session = demo_watched"
  by (simp_all add: demo_session_def)

text \<open>The caller cancels at dusk while the exposure runs: the camera is stopped, the run drains, the
  cleanup runs although its device has no client, and the report is returned.\<close>

theorem execution_outcome_witness:
  "\<exists>t r e. session_next\<^sup>*\<^sup>* demo_session t \<and> ex_phase (se_execution t) = Reported r
    \<and> failures (wr_run r) = [] \<and> all_accounted (frozen (lone demo_call)) (rr_results (wr_run r))
    \<and> claimed demo_setting e \<and> reason_of demo_setting e = ''dusk''"
proof -
  obtain t r where t: "session_next\<^sup>*\<^sup>* demo_session t" "ex_phase (se_execution t) = Reported r"
      "wr_reason r = Some ''dusk''" by (rule demo_dusk_report)
  then have "failures (wr_run r) = [] \<and> all_accounted (frozen (lone demo_call)) (rr_results (wr_run r))
      \<and> (\<exists>e. claimed demo_setting e \<and> ''dusk'' = reason_of demo_setting e)"
    using execution_outcome [OF demo_session_starts t(1)] by (simp add: demo_watched_def)
  then show ?thesis using t(1,2) by metis
qed

theorem cleanup_sequence_witness:
  "\<exists>t r. \<exists>main :: (string, unit) op_report. session_next\<^sup>*\<^sup>* demo_session t \<and> ex_phase (se_execution t) = Reported r
    \<and> map cr_cleanup (wr_cleanup r)
        = filter (eligible_cleanup main (attempted_in (ex_state (se_execution t)))) (ew_cleanup demo_watched)
    \<and> wr_cleanup r \<noteq> []"
proof -
  obtain t r where t: "session_next\<^sup>*\<^sup>* demo_session t" "ex_phase (se_execution t) = Reported r"
      "length (wr_cleanup r) = 1" by (rule demo_dusk_report)
  note cs = cleanup_sequence [OF demo_session_starts t(1), unfolded t(2) exec_phase.case demo_session_simps]
  have c: "wr_cleanup r = es_cleanup (ex_state (se_execution t))" using cs by blast
  obtain main passed rest where p: "ew_cleanup demo_watched = passed @ rest"
      "map cr_cleanup (wr_cleanup r) = filter (eligible_cleanup (main :: (string, unit) op_report)
          (attempted_in (ex_state (se_execution t)))) passed"
    unfolding c using cs by blast
  have "passed \<noteq> []" using p(2) t(3) by auto
  then have "rest = []" using p(1) by (simp add: demo_watched_def Cons_eq_append_conv)
  then show ?thesis using t p by (intro exI [of _ t] exI [of _ r] exI [of _ main]) auto
qed

theorem no_call_left_witness:
  "\<exists>t. session_next\<^sup>*\<^sup>* demo_session t \<and> exec_over (ex_phase (se_execution t)) \<and> ex_tasks (se_execution t) = []
    \<and> begins (es_journal (ex_state (se_execution t))) demo_call = finals (es_journal (ex_state (se_execution t))) demo_call"
proof -
  obtain t r where t: "session_next\<^sup>*\<^sup>* demo_session t" "ex_phase (se_execution t) = Reported r" by (rule demo_dusk_report)
  then have "exec_over (ex_phase (se_execution t))" by (simp add: exec_over_def)
  then show ?thesis using no_call_left [OF demo_session_starts t(1)] t(1) by (auto simp: Let_def)
qed


end
