(* ===== verification/Sensor_Lifecycle.thy ===== *)
theory Sensor_Lifecycle
  imports Sensor_Workflow Dag_Run "HOL-Library.Product_Lexorder"
begin

section \<open>Lifecycle tables (core/src/sensorkit/sensor/lifecycle.py)\<close>

text \<open>
  The authored tables, their check without a sensor, and \<open>TableCompiler\<close>, which expands a table
  into the planned steps that \<open>lower\<close> compiles.  The compiler's attributes are a record, each of
  its methods a function from that record to an error or a new record, in the order the code
  evaluates them.  \<open>en_ref\<close> is the identity of an entry, which \<open>_selected\<close> compares.  pydantic's
  shorthands for authored values and the texts of errors are left out.
\<close>

subsection \<open>The authored records\<close>

datatype join_scope = AnyTarget | SameDevice | SameChain

record join_clause =
  jc_name :: string
  jc_join :: join_scope
  jc_on :: dep_kind

record op_spec =
  os_command :: command
  os_optional :: bool
  os_unsupported :: if_unsupported
  os_fail_fast :: "bool option"
  os_sequence :: dep_kind
  os_timeout :: "seconds option"

definition effective_fail_fast :: "op_spec \<Rightarrow> bool option \<Rightarrow> bool \<Rightarrow> bool" where
  "effective_fail_fast spec stated table =
    (case os_fail_fast spec of
       Some b \<Rightarrow> b
     | None \<Rightarrow> (case stated of None \<Rightarrow> table | Some b \<Rightarrow> b))"

record table_entry =
  en_ref :: nat
  en_select :: selection
  en_ops :: "op_spec list"
  en_exclude :: "selection option"
  en_id :: "string option"
  en_require :: "join_clause list"

text \<open>\<open>Entry._declares_ops\<close>.\<close>

definition declares_ops :: "table_entry \<Rightarrow> bool" where
  "declares_ops e \<longleftrightarrow> en_ops e \<noteq> []"

text \<open>\<open>Entry.targets\<close>: what is selected, and of that what is not excluded.\<close>

definition entry_targets :: "table_entry \<Rightarrow> bound_sensor \<Rightarrow> selection_error + placement list" where
  "entry_targets e bs =
    rbind (matching (en_select e) (placements (bs_topology bs)) (Some bs)) (\<lambda>found.
      case en_exclude e of
        None \<Rightarrow> Inr found
      | Some x \<Rightarrow> matching (SelNot x) found (Some bs))"

record table_phase =
  ph_name :: string
  ph_entries :: "table_entry list"
  ph_after :: "string list option"
  ph_fail_fast :: "bool option"

record cleanup_spec =
  cs_name :: string
  cs_entries :: "table_entry list"
  cs_when :: cleanup_when
  cs_timeout :: seconds
  cs_armed_by :: "string list option"

record lifecycle_table =
  lt_name :: string
  lt_phases :: "table_phase list"
  lt_fail_fast :: bool
  lt_cleanup :: "cleanup_spec list"

subsection \<open>Checking a table without a sensor\<close>

datatype table_fault =
    NamedTwice "string list"
  | SharedNames "string list"
  | NamesNothing "string list"
  | RequiresOutside "string list"
  | NoNode "string \<times> string"
  | TableCycle dag_error

type_synonym symbol = "string \<times> string"

abbreviation phase_symbol :: "string \<Rightarrow> symbol" where "phase_symbol n \<equiv> (''phase'', n)"
abbreviation entry_symbol :: "string \<Rightarrow> symbol" where "entry_symbol n \<equiv> (''entry'', n)"

text \<open>\<open>sorted\<close> of a set of names.\<close>

definition sorted_names :: "string list \<Rightarrow> string list" where
  "sorted_names ns = sort (dedup ns)"

definition unique_names :: "string list \<Rightarrow> table_fault + unit" where
  "unique_names names =
    (let dupes = sorted_names (filter (\<lambda>n. 1 < count_list names n) names)
     in if dupes \<noteq> [] then Inl (NamedTwice dupes) else Inr ())"

definition disjoint_names :: "string list \<Rightarrow> string list \<Rightarrow> table_fault + unit" where
  "disjoint_names phases ids =
    (let shared = sorted_names (filter (\<lambda>n. n \<in> set ids) phases)
     in if shared \<noteq> [] then Inl (SharedNames shared) else Inr ())"

definition resolves :: "string list \<Rightarrow> string set \<Rightarrow> table_fault + unit" where
  "resolves names declared =
    (let unknown = sort (filter (\<lambda>n. n \<notin> declared) names)
     in if unknown \<noteq> [] then Inl (NamesNothing unknown) else Inr ())"

definition required_symbols :: "table_entry \<Rightarrow> string set \<Rightarrow> string set \<Rightarrow> table_fault + symbol list" where
  "required_symbols e declared ids =
    (let named = map jc_name (en_require e) in
     rbind (resolves named declared) (\<lambda>_.
       Inr (map (\<lambda>n. if n \<in> ids then entry_symbol n else phase_symbol n) named)))"

text \<open>\<open>LifecycleWorkflow.follows\<close>.\<close>

definition table_follows :: "lifecycle_table \<Rightarrow> nat \<Rightarrow> string list" where
  "table_follows t index =
    (case ph_after (lt_phases t ! index) of
       Some after \<Rightarrow> after
     | None \<Rightarrow> if index = 0 then [] else [ph_name (lt_phases t ! (index - 1))])"

text \<open>The row of an entry: its id, unless it is missing or empty.\<close>

definition row_name :: "table_entry \<Rightarrow> string \<Rightarrow> nat \<Rightarrow> string" where
  "row_name e owner position =
    (case en_id e of
       Some i \<Rightarrow> if i \<noteq> [] then i else owner @ ''['' @ nat_str position @ '']''
     | None \<Rightarrow> owner @ ''['' @ nat_str position @ '']'')"

type_synonym symbol_deps = "(symbol, symbol list) dict"

definition add_row :: "string \<Rightarrow> symbol list \<Rightarrow> string set \<Rightarrow> string set \<Rightarrow> nat \<times> table_entry
    \<Rightarrow> symbol_deps \<Rightarrow> table_fault + symbol_deps" where
  "add_row pname waits declared ids pe deps =
    (let (position, e) = pe;
         row = entry_symbol (row_name e pname position);
         deps = dict_append (phase_symbol pname) row deps in
     rbind (required_symbols e declared ids) (\<lambda>named. Inr (dict_set row (waits @ named) deps)))"

definition add_phase_rows :: "lifecycle_table \<Rightarrow> string set \<Rightarrow> string set \<Rightarrow> nat \<times> table_phase
    \<Rightarrow> symbol_deps \<Rightarrow> table_fault + symbol_deps" where
  "add_phase_rows t declared ids ip deps =
    (let (index, ph) = ip; follows = table_follows t index in
     rbind (resolves follows (set (map ph_name (lt_phases t)))) (\<lambda>_.
       rfold (add_row (ph_name ph) (map phase_symbol follows) declared ids)
         (enumerate 0 (ph_entries ph)) (dict_set (phase_symbol (ph_name ph)) [] deps)))"

definition table_dependencies :: "lifecycle_table \<Rightarrow> string set \<Rightarrow> string set \<Rightarrow> table_fault + symbol_deps" where
  "table_dependencies t declared ids =
    rfold (add_phase_rows t declared ids) (enumerate 0 (lt_phases t)) []"

text \<open>\<open>_acyclic\<close>: the ids of the nodes are their positions in the sorted list of the keys.\<close>

definition add_symbol :: "symbol \<Rightarrow> (symbol, nat) dict \<times> unit builder \<Rightarrow> (symbol, nat) dict \<times> unit builder" where
  "add_symbol s acc =
    (let (ids, b) = acc;
         (i, b') = builder_add (fst s @ '' '' @ [CHR 0x27] @ snd s @ [CHR 0x27]) (fst s) () {} {} Stop False 0 None b
     in (dict_set s i ids, b'))"

definition symbol_id :: "(symbol, nat) dict \<Rightarrow> symbol \<Rightarrow> table_fault + nat" where
  "symbol_id ids s = (case map_of ids s of None \<Rightarrow> Inl (NoNode s) | Some i \<Rightarrow> Inr i)"

definition order_symbol :: "(symbol, nat) dict \<Rightarrow> symbol \<times> symbol list \<Rightarrow> unit builder \<Rightarrow> table_fault + unit builder" where
  "order_symbol ids sd b =
    rbind (symbol_id ids (fst sd)) (\<lambda>i.
    rbind (rtraverse (symbol_id ids) (snd sd)) (\<lambda>before.
      case builder_order i (set before) b of Inl e \<Rightarrow> Inl (TableCycle e) | Inr b' \<Rightarrow> Inr b'))"

definition acyclic_symbols :: "symbol_deps \<Rightarrow> table_fault + unit" where
  "acyclic_symbols deps =
    (let (ids, b) = fold add_symbol (sort (dict_keys deps)) ([], empty_builder) in
     rbind (rfold (order_symbol ids) deps b) (\<lambda>b'.
       case build b' of Inl e \<Rightarrow> Inl (TableCycle e) | Inr _ \<Rightarrow> Inr ()))"

definition check_cleanup :: "string set \<Rightarrow> cleanup_spec \<Rightarrow> table_fault + unit" where
  "check_cleanup armable spec =
    (let ids = List.map_filter en_id (cs_entries spec);
         named = concat (map (\<lambda>e. map jc_name (en_require e)) (cs_entries spec));
         outside = sorted_names (filter (\<lambda>n. n \<notin> set ids) named) in
     rbind (unique_names ids) (\<lambda>_.
     rbind (resolves (case cs_armed_by spec of None \<Rightarrow> [] | Some ns \<Rightarrow> ns) armable) (\<lambda>_.
       if outside \<noteq> [] then Inl (RequiresOutside outside)
       else acyclic_symbols (fold (\<lambda>(position, e). dict_set (entry_symbol (row_name e (cs_name spec) position))
              (map (entry_symbol \<circ> jc_name) (en_require e))) (enumerate 0 (cs_entries spec)) []))))"

text \<open>\<open>LifecycleWorkflow.check\<close>, which adds the table's name to the error.\<close>

definition check_table :: "lifecycle_table \<Rightarrow> table_fault + unit" where
  "check_table t =
    (let phases = map ph_name (lt_phases t);
         ids = List.map_filter en_id (concat (map ph_entries (lt_phases t))) in
     rbind (unique_names phases) (\<lambda>_.
     rbind (unique_names (map cs_name (lt_cleanup t))) (\<lambda>_.
     rbind (unique_names ids) (\<lambda>_.
     rbind (disjoint_names phases ids) (\<lambda>_.
     rbind (table_dependencies t (set phases \<union> set ids) (set ids)) (\<lambda>deps.
     rbind (acyclic_symbols deps) (\<lambda>_.
       rfold (\<lambda>spec _. check_cleanup (set ids) spec) (lt_cleanup t) ())))))))"

subsection \<open>TableCompiler\<close>

datatype table_part = InPhase string | InCleanup string

datatype table_error =
    DuplicatePhase string
  | UnknownAfter string "string list"
  | DuplicateEntry table_part string
  | SelectFailed selection_error
  | SelectsNothing table_part nat
  | Overlap table_part string nat nat
  | UnknownRequire table_part string
  | NoStep table_part string
  | EmptyJoin table_part string join_scope string
  | OutsideRequires table_part "string list"
  | UnknownArming table_part "string list"
  | NoKey string
  | TooDeep string

datatype lifecycle_error = TableRefused table_error | LowerRefused workflow_error

record table_compiler =
  tc_steps :: "planned_step list"
  tc_deps :: "(string, dependency list) dict"
  tc_where :: "(string, placement) dict"
  tc_phase_steps :: "(string, string list) dict"
  tc_phase_after :: "(string, string list) dict"
  tc_entry_steps :: "(string, string list) dict"
  tc_entry_phase :: "(string, string) dict"
  tc_emitted :: nat

definition new_compiler :: table_compiler where
  "new_compiler = \<lparr>tc_steps = [], tc_deps = [], tc_where = [], tc_phase_steps = [], tc_phase_after = [],
    tc_entry_steps = [], tc_entry_phase = [], tc_emitted = 0\<rparr>"

definition key_of :: "(string, 'a) dict \<Rightarrow> string \<Rightarrow> table_error + 'a" where
  "key_of d k = (case map_of d k of None \<Rightarrow> Inl (NoKey k) | Some v \<Rightarrow> Inr v)"

text \<open>\<open>_declare_phase\<close>.  An empty phase name counts as no previous phase.\<close>

definition declare_entry :: "string \<Rightarrow> table_entry \<Rightarrow> table_compiler \<Rightarrow> table_error + table_compiler" where
  "declare_entry pname e tc =
    (case en_id e of
       None \<Rightarrow> Inr tc
     | Some i \<Rightarrow>
         if i \<in> set (dict_keys (tc_entry_phase tc)) then Inl (DuplicateEntry (InPhase pname) i)
         else Inr (tc\<lparr>tc_entry_phase := dict_set i pname (tc_entry_phase tc)\<rparr>))"

definition phase_follows :: "table_phase \<Rightarrow> string option \<Rightarrow> string list" where
  "phase_follows ph previous =
    (case ph_after ph of
       Some after \<Rightarrow> after
     | None \<Rightarrow> (case previous of Some q \<Rightarrow> if q \<noteq> [] then [q] else [] | None \<Rightarrow> []))"

definition declare_phase :: "table_phase \<Rightarrow> string option \<Rightarrow> table_compiler
    \<Rightarrow> table_error + string list \<times> table_compiler" where
  "declare_phase ph previous tc =
    (let pname = ph_name ph;
         after = phase_follows ph previous;
         unknown = filter (\<lambda>n. n \<notin> set (dict_keys (tc_phase_steps tc))) after in
     if pname \<in> set (dict_keys (tc_phase_steps tc)) then Inl (DuplicatePhase pname)
     else if unknown \<noteq> [] then Inl (UnknownAfter pname unknown)
     else rbind (rfold (declare_entry pname) (ph_entries ph)
            (tc\<lparr>tc_phase_after := dict_set pname after (tc_phase_after tc),
                tc_phase_steps := dict_set pname [] (tc_phase_steps tc)\<rparr>)) (\<lambda>tc'. Inr (after, tc')))"

text \<open>\<open>_selected\<close> and \<open>_targets\<close>.\<close>

definition some_targets :: "bound_sensor \<Rightarrow> table_part \<Rightarrow> table_entry \<Rightarrow> table_error + placement list" where
  "some_targets bs part e =
    (case entry_targets e bs of
       Inl err \<Rightarrow> Inl (SelectFailed err)
     | Inr ps \<Rightarrow> if ps = [] then Inl (SelectsNothing part (en_ref e)) else Inr ps)"

definition reach :: "table_part \<Rightarrow> table_entry \<Rightarrow> placement \<Rightarrow> (placement, table_entry) dict
    \<Rightarrow> table_error + (placement, table_entry) dict" where
  "reach part e p reached =
    (case map_of reached p of
       None \<Rightarrow> Inr (dict_set p e reached)
     | Some other \<Rightarrow>
         if en_ref other \<noteq> en_ref e then Inl (Overlap part (pl_device p) (en_ref other) (en_ref e))
         else Inr reached)"

definition selected_targets :: "bound_sensor \<Rightarrow> table_part \<Rightarrow> table_entry list \<Rightarrow> table_error + placement list list" where
  "selected_targets bs part es =
    rbind (rtraverse (some_targets bs part) es) (\<lambda>chosen.
    rbind (rfold (\<lambda>(e, ps). rfold (reach part e) ps) (zip es chosen) []) (\<lambda>_. Inr chosen))"

text \<open>\<open>_effective_steps\<close> recurses over \<open>phase_after\<close>; \<open>n\<close> bounds the depth.\<close>

primrec effective_within :: "nat \<Rightarrow> table_compiler \<Rightarrow> string \<Rightarrow> table_error + string list" where
  "effective_within 0 tc ph = Inl (TooDeep ph)"
| "effective_within (Suc n) tc ph =
    rbind (key_of (tc_phase_steps tc) ph) (\<lambda>names.
      if names \<noteq> [] then Inr names
      else rbind (key_of (tc_phase_after tc) ph) (\<lambda>follows.
           rbind (rtraverse (effective_within n tc) follows) (\<lambda>nss. Inr (dedup (concat nss)))))"

definition effective_steps :: "table_compiler \<Rightarrow> string \<Rightarrow> table_error + string list" where
  "effective_steps tc = effective_within (length (tc_phase_after tc)) tc"

definition declaring_phase :: "table_compiler \<Rightarrow> table_part \<Rightarrow> string \<Rightarrow> table_error + string" where
  "declaring_phase tc part target =
    (case map_of (tc_entry_phase tc) target of
       Some pname \<Rightarrow> Inr pname
     | None \<Rightarrow>
         if target \<in> set (dict_keys (tc_phase_after tc)) then Inr target
         else Inl (UnknownRequire part target))"

definition soft_links :: "table_compiler \<Rightarrow> table_entry \<Rightarrow> string list \<Rightarrow> table_part \<Rightarrow> table_error + string list" where
  "soft_links tc e after part =
    rbind (rtraverse (\<lambda>c. declaring_phase tc part (jc_name c)) (en_require e)) (\<lambda>required.
    rbind (rtraverse (effective_steps tc) (filter (\<lambda>f. f \<notin> set required) after)) (\<lambda>nss.
      Inr (dedup (concat nss))))"

text \<open>\<open>_step\<close>.\<close>

definition plan_step :: "lifecycle_table \<Rightarrow> string \<Rightarrow> (string + int) list \<Rightarrow> bool option \<Rightarrow> op_spec \<Rightarrow> placement
    \<Rightarrow> table_compiler \<Rightarrow> planned_step \<times> table_compiler" where
  "plan_step t owner path stated spec p tc =
    (let n = Suc (tc_emitted tc);
         s = \<lparr>ps_name = owner @ ''/'' @ pl_device p @ ''/'' @ nat_str n,
              ps_origin = \<lparr>or_source = lt_name t, or_path = path, or_reason = ''''\<rparr>,
              ps_group = owner, ps_target = Some p, ps_command = Some (os_command spec), ps_deps = [],
              ps_optional = os_optional spec,
              ps_fail_fast = effective_fail_fast spec stated (lt_fail_fast t),
              ps_unsupported = os_unsupported spec, ps_timeout = os_timeout spec,
              ps_acquisition = None, ps_delay_s = 0\<rparr>
     in (s, tc\<lparr>tc_emitted := n, tc_where := dict_set (ps_name s) p (tc_where tc)\<rparr>))"

text \<open>\<open>_emit_entry\<close>: the inner loop over the commands, the outer over the placements.\<close>

fun emit_ops :: "lifecycle_table \<Rightarrow> string \<Rightarrow> (string + int) list \<Rightarrow> bool option \<Rightarrow> string list \<Rightarrow> placement
    \<Rightarrow> (nat \<times> op_spec) list \<Rightarrow> string option \<Rightarrow> table_compiler \<Rightarrow> planned_step list \<times> table_compiler" where
  "emit_ops t owner path stated soft p [] previous tc = ([], tc)"
| "emit_ops t owner path stated soft p ((index, spec) # rest) previous tc =
    (let (s, tc1) = plan_step t owner (path @ [Inr (int index)]) stated spec p tc;
         ds = (case previous of
                 None \<Rightarrow> completion soft
               | Some q \<Rightarrow> [\<lparr>dp_on = q, dp_kind = os_sequence spec\<rparr>]);
         (ss, tc2) = emit_ops t owner path stated soft p rest (Some (ps_name s))
           (tc1\<lparr>tc_deps := dict_set (ps_name s) ds (tc_deps tc1)\<rparr>)
     in (s # ss, tc2))"

fun emit_entry :: "lifecycle_table \<Rightarrow> string \<Rightarrow> (string + int) list \<Rightarrow> bool option \<Rightarrow> string list \<Rightarrow> op_spec list
    \<Rightarrow> placement list \<Rightarrow> table_compiler \<Rightarrow> planned_step list \<times> (placement \<times> string) list \<times> table_compiler" where
  "emit_entry t owner path stated soft specs [] tc = ([], [], tc)"
| "emit_entry t owner path stated soft specs (p # ps) tc =
    (let (ss, tc1) = emit_ops t owner path stated soft p (enumerate 0 specs) None tc;
         (more, heads, tc2) = emit_entry t owner path stated soft specs ps tc1
     in (ss @ more, (case ss of [] \<Rightarrow> [] | s # _ \<Rightarrow> [(p, ps_name s)]) @ heads, tc2))"

definition position_part :: "table_entry \<Rightarrow> nat \<Rightarrow> string + int" where
  "position_part e position =
    (case en_id e of
       Some i \<Rightarrow> if i \<noteq> [] then Inl i else Inr (int position)
     | None \<Rightarrow> Inr (int position))"

text \<open>\<open>_narrowed\<close> and \<open>_join\<close>.\<close>

definition narrowed :: "table_compiler \<Rightarrow> join_clause \<Rightarrow> string list \<Rightarrow> placement \<Rightarrow> table_error + string list" where
  "narrowed tc c named p =
    (let keep = (\<lambda>test. rbind (rtraverse (\<lambda>n. rbind (key_of (tc_where tc) n) (\<lambda>q. Inr (n, q))) named)
           (\<lambda>nqs. Inr (map fst (filter (\<lambda>(_, q). test q) nqs)))) in
     case jc_join c of
       AnyTarget \<Rightarrow> Inr named
     | SameDevice \<Rightarrow> keep (\<lambda>q. pl_device q = pl_device p)
     | SameChain \<Rightarrow> keep (\<lambda>q. take (length (pl_path q)) (pl_path p) = pl_path q))"

definition join_steps :: "join_clause \<Rightarrow> string list \<Rightarrow> placement \<Rightarrow> string \<Rightarrow> table_part \<Rightarrow> table_compiler
    \<Rightarrow> table_error + table_compiler" where
  "join_steps c named p head part tc =
    (if named = [] then Inl (NoStep part (jc_name c))
     else rbind (narrowed tc c named p) (\<lambda>ns.
       if ns = [] then Inl (EmptyJoin part (jc_name c) (jc_join c) (pl_device p))
       else rbind (key_of (tc_deps tc) head) (\<lambda>ds.
         Inr (tc\<lparr>tc_deps := dict_set head (ds @ map (\<lambda>n. \<lparr>dp_on = n, dp_kind = jc_on c\<rparr>) ns) (tc_deps tc)\<rparr>))))"

type_synonym entry_heads = "(table_entry \<times> placement \<times> string) list"

definition named_by_clause :: "table_compiler \<Rightarrow> join_clause \<Rightarrow> table_error + string list" where
  "named_by_clause tc c =
    (if jc_name c \<in> set (dict_keys (tc_entry_phase tc))
     then Inr (case map_of (tc_entry_steps tc) (jc_name c) of Some ns \<Rightarrow> ns | None \<Rightarrow> [])
     else effective_steps tc (jc_name c))"

definition resolve_requires :: "entry_heads \<Rightarrow> table_part \<Rightarrow> table_compiler \<Rightarrow> table_error + table_compiler" where
  "resolve_requires heads part =
    rfold (\<lambda>(e, p, head). rfold (\<lambda>c tc.
      rbind (named_by_clause tc c) (\<lambda>named. join_steps c named p head part tc)) (en_require e)) heads"

text \<open>\<open>_compile_phase\<close> and the loop of \<open>run\<close> over the phases.\<close>

definition extend_steps :: "string \<Rightarrow> string list \<Rightarrow> (string, string list) dict \<Rightarrow> (string, string list) dict" where
  "extend_steps k names d = dict_set k ((case map_of d k of Some ns \<Rightarrow> ns | None \<Rightarrow> []) @ names) d"

definition enter_entry :: "lifecycle_table \<Rightarrow> table_phase \<Rightarrow> string list \<Rightarrow> nat \<times> table_entry \<times> placement list
    \<Rightarrow> entry_heads \<times> table_compiler \<Rightarrow> table_error + entry_heads \<times> table_compiler" where
  "enter_entry t ph after pet acc =
    (let (position, e, targets) = pet; (heads, tc) = acc in
     rbind (soft_links tc e after (InPhase (ph_name ph))) (\<lambda>soft.
       let (ss, hs, tc1) = emit_entry t (ph_name ph) [Inl (ph_name ph), position_part e position]
             (ph_fail_fast ph) soft (en_ops e) targets tc;
           names = map ps_name ss
       in Inr (heads @ map (\<lambda>(p, h). (e, p, h)) hs,
               tc1\<lparr>tc_steps := tc_steps tc1 @ ss,
                   tc_phase_steps := extend_steps (ph_name ph) names (tc_phase_steps tc1),
                   tc_entry_steps := (case en_id e of
                       None \<Rightarrow> tc_entry_steps tc1
                     | Some i \<Rightarrow> extend_steps i names (tc_entry_steps tc1))\<rparr>)))"

definition compile_phase :: "lifecycle_table \<Rightarrow> bound_sensor \<Rightarrow> table_phase \<Rightarrow> string option \<Rightarrow> table_compiler
    \<Rightarrow> table_error + table_compiler" where
  "compile_phase t bs ph previous tc =
    (let part = InPhase (ph_name ph) in
     rbind (declare_phase ph previous tc) (\<lambda>(after, tc1).
     rbind (selected_targets bs part (ph_entries ph)) (\<lambda>chosen.
     rbind (rfold (enter_entry t ph after) (enumerate 0 (zip (ph_entries ph) chosen)) ([], tc1)) (\<lambda>(heads, tc2).
       resolve_requires heads part tc2))))"

fun compile_phases :: "lifecycle_table \<Rightarrow> bound_sensor \<Rightarrow> table_phase list \<Rightarrow> string option \<Rightarrow> table_compiler
    \<Rightarrow> table_error + table_compiler" where
  "compile_phases t bs [] previous tc = Inr tc"
| "compile_phases t bs (ph # phs) previous tc =
    rbind (compile_phase t bs ph previous tc) (compile_phases t bs phs (Some (ph_name ph)))"

text \<open>\<open>_declare_cleanup\<close>, \<open>_arming\<close>, \<open>_settled\<close>, \<open>_cleanup\<close>.\<close>

definition declare_cleanup_entry :: "table_part \<Rightarrow> table_entry \<Rightarrow> (string, string list) dict
    \<Rightarrow> table_error + (string, string list) dict" where
  "declare_cleanup_entry part e declared =
    (case en_id e of
       None \<Rightarrow> Inr declared
     | Some i \<Rightarrow> if i \<in> set (dict_keys declared) then Inl (DuplicateEntry part i) else Inr (dict_set i [] declared))"

definition declare_cleanup :: "cleanup_spec \<Rightarrow> table_part \<Rightarrow> table_error + (string, string list) dict" where
  "declare_cleanup spec part =
    rbind (rfold (declare_cleanup_entry part) (cs_entries spec) []) (\<lambda>declared.
      let outside = sorted_names (filter (\<lambda>n. n \<notin> set (dict_keys declared))
            (concat (map (\<lambda>e. map jc_name (en_require e)) (cs_entries spec))))
      in if outside \<noteq> [] then Inl (OutsideRequires part outside) else Inr declared)"

definition arming_steps :: "cleanup_spec \<Rightarrow> table_part \<Rightarrow> table_compiler \<Rightarrow> table_error + string list option" where
  "arming_steps spec part tc =
    (case cs_armed_by spec of
       None \<Rightarrow> Inr None
     | Some names \<Rightarrow>
         let unknown = sorted_names (filter (\<lambda>n. n \<notin> set (dict_keys (tc_entry_phase tc))) names)
         in if unknown \<noteq> [] then Inl (UnknownArming part unknown)
            else rbind (rtraverse (key_of (tc_entry_steps tc)) names) (\<lambda>nss. Inr (Some (concat nss))))"

definition settled_steps :: "table_compiler \<Rightarrow> planned_step list \<Rightarrow> table_error + planned_step list" where
  "settled_steps tc = rtraverse (\<lambda>s. rbind (key_of (tc_deps tc) (ps_name s)) (\<lambda>ds. Inr (s\<lparr>ps_deps := ds\<rparr>)))"

definition enter_cleanup_entry :: "lifecycle_table \<Rightarrow> cleanup_spec \<Rightarrow> nat \<times> table_entry \<times> placement list
    \<Rightarrow> planned_step list \<times> entry_heads \<times> (string, string list) dict \<times> table_compiler
    \<Rightarrow> planned_step list \<times> entry_heads \<times> (string, string list) dict \<times> table_compiler" where
  "enter_cleanup_entry t spec pet acc =
    (let (position, e, targets) = pet; (steps, heads, declared, tc) = acc;
         (ss, hs, tc1) = emit_entry t (cs_name spec) [Inl ''cleanup'', Inl (cs_name spec), position_part e position]
           None [] (en_ops e) targets tc
     in (steps @ ss, heads @ map (\<lambda>(p, h). (e, p, h)) hs,
         (case en_id e of None \<Rightarrow> declared | Some i \<Rightarrow> extend_steps i (map ps_name ss) declared), tc1))"

definition compile_cleanup :: "lifecycle_table \<Rightarrow> bound_sensor \<Rightarrow> cleanup_spec \<Rightarrow> table_compiler
    \<Rightarrow> table_error + cleanup_plan \<times> table_compiler" where
  "compile_cleanup t bs spec tc =
    (let part = InCleanup (cs_name spec) in
     rbind (declare_cleanup spec part) (\<lambda>declared.
     rbind (selected_targets bs part (cs_entries spec)) (\<lambda>chosen.
     let (steps, heads, declared, tc1) =
           fold (enter_cleanup_entry t spec) (enumerate 0 (zip (cs_entries spec) chosen)) ([], [], declared, tc) in
     rbind (rfold (\<lambda>(e, p, head). rfold (\<lambda>c tc. rbind (key_of declared (jc_name c)) (\<lambda>named.
              join_steps c named p head part tc)) (en_require e)) heads tc1) (\<lambda>tc2.
     rbind (settled_steps tc2 steps) (\<lambda>settled.
     rbind (arming_steps spec part tc2) (\<lambda>armed.
       Inr (\<lparr>cpl_steps = settled, cpl_origin = \<lparr>or_source = cs_name spec, or_path = [], or_reason = ''''\<rparr>,
             cpl_when = cs_when spec, cpl_timeout = cs_timeout spec, cpl_armed_by = armed\<rparr>, tc2)))))))"

fun compile_cleanups :: "lifecycle_table \<Rightarrow> bound_sensor \<Rightarrow> cleanup_spec list \<Rightarrow> table_compiler
    \<Rightarrow> table_error + cleanup_plan list \<times> table_compiler" where
  "compile_cleanups t bs [] tc = Inr ([], tc)"
| "compile_cleanups t bs (spec # specs) tc =
    rbind (compile_cleanup t bs spec tc) (\<lambda>(plan, tc1).
    rbind (compile_cleanups t bs specs tc1) (\<lambda>(plans, tc2). Inr (plan # plans, tc2)))"

text \<open>\<open>TableCompiler.run\<close> up to the call of \<open>lower\<close>, and \<open>compile_lifecycle\<close>.\<close>

definition expand_table :: "lifecycle_table \<Rightarrow> bound_sensor \<Rightarrow> table_error + planned_step list \<times> cleanup_plan list" where
  "expand_table t bs =
    rbind (compile_phases t bs (lt_phases t) None new_compiler) (\<lambda>tc.
    rbind (compile_cleanups t bs (lt_cleanup t) tc) (\<lambda>(plans, tc1).
    rbind (settled_steps tc1 (tc_steps tc1)) (\<lambda>steps. Inr (steps, plans))))"

definition compile_lifecycle :: "lifecycle_table \<Rightarrow> bound_sensor \<Rightarrow> deadline_rule list \<Rightarrow> operator_rule list \<Rightarrow> nat
    \<Rightarrow> lifecycle_error + workflow \<times> nat" where
  "compile_lifecycle t bs deadlines rules next =
    (case expand_table t bs of
       Inl e \<Rightarrow> Inl (TableRefused e)
     | Inr (steps, plans) \<Rightarrow>
         (case lower (lt_name t) steps bs plans deadlines rules next of
            Inl e \<Rightarrow> Inl (LowerRefused e)
          | Inr r \<Rightarrow> Inr r))"

subsection \<open>Names of emitted steps\<close>

lemma digit_char: "m < 10 \<Longrightarrow> of_char (char_of (48 + m) :: char) = (48 + m :: nat)"
  by (simp add: take_bit_eq_mod)

lemma nat_str_digits: "c \<in> set (nat_str n) \<Longrightarrow> c \<noteq> CHR ''/''"
proof (induction n rule: nat_str.induct)
  case (1 n)
  have "char_of (48 + m) \<noteq> CHR ''/''" if "m < 10" for m :: nat
  proof
    assume "char_of (48 + m) = CHR ''/''"
    then have "48 + m = of_char CHR ''/''" using digit_char [OF that] by simp
    then show False by simp
  qed
  from this [of n] this [of "n mod 10"] 1 show ?case
    by (subst (asm) (2) nat_str.simps) (auto split: if_splits)
qed

lemma nat_str_inj: "nat_str m = nat_str n \<Longrightarrow> m = n"
proof (induction m arbitrary: n rule: nat_str.induct)
  case (1 m)
  have last: "last (nat_str k) = char_of (48 + k mod 10)" and len: "nat_str k \<noteq> []"
    and front: "butlast (nat_str k) = (if k < 10 then [] else nat_str (k div 10))" for k
    by (subst nat_str.simps, simp)+
  have "m mod 10 = n mod 10"
    using arg_cong [OF 1(2), of last] digit_char [of "m mod 10"] digit_char [of "n mod 10"] unfolding last
    by (metis add_left_cancel mod_less_divisor zero_less_numeral)
  moreover have "m div 10 = n div 10"
  proof (cases "m < 10")
    case True
    then have "n < 10" using arg_cong [OF 1(2), of butlast] len unfolding front by (metis (full_types))
    then show ?thesis using True by simp
  next
    case False
    then have "nat_str (m div 10) = nat_str (n div 10)"
      using arg_cong [OF 1(2), of butlast] len unfolding front by (metis (full_types))
    then show ?thesis by (rule 1(1) [OF False])
  qed
  ultimately show ?case by (metis div_mult_mod_eq)
qed

lemma last_part:
  assumes "a @ CHR ''/'' # x = b @ CHR ''/'' # y" and "CHR ''/'' \<notin> set x" and "CHR ''/'' \<notin> set y"
  shows "x = y"
proof -
  have "takeWhile (\<lambda>c. c \<noteq> CHR ''/'') (rev z @ CHR ''/'' # d) = rev z" if "CHR ''/'' \<notin> set z" for z d
    using that by (subst takeWhile_append2) auto
  then show ?thesis using arg_cong [OF assms(1), of "\<lambda>s. takeWhile (\<lambda>c. c \<noteq> CHR ''/'') (rev s)"] assms(2,3) by simp
qed

definition step_name :: "string \<Rightarrow> placement \<Rightarrow> nat \<Rightarrow> string" where
  "step_name owner p n = owner @ ''/'' @ pl_device p @ ''/'' @ nat_str n"

lemma step_name_inj: "step_name o1 p1 m = step_name o2 p2 n \<Longrightarrow> m = n"
  using last_part [of "o1 @ ''/'' @ pl_device p1" "nat_str m" "o2 @ ''/'' @ pl_device p2" "nat_str n"]
  by (auto simp: step_name_def dest: nat_str_digits intro: nat_str_inj)

definition numbered :: "nat \<Rightarrow> string \<Rightarrow> bool" where
  "numbered n s \<longleftrightarrow> (\<exists>owner p k. s = step_name owner p k \<and> k \<le> n)"

lemma numbered_Suc: "numbered n s \<Longrightarrow> numbered (Suc n) s"
  by (auto simp: numbered_def intro: le_SucI)

lemma numbered_new: "numbered n (step_name owner p n)"
  by (auto simp: numbered_def)

lemma numbered_fresh: "numbered n s \<Longrightarrow> s \<noteq> step_name owner p (Suc n)"
  by (auto simp: numbered_def dest: step_name_inj)

definition named_ok :: "table_compiler \<Rightarrow> bool" where
  "named_ok tc \<longleftrightarrow> distinct (dict_keys (tc_deps tc)) \<and> dict_keys (tc_where tc) = dict_keys (tc_deps tc)
    \<and> (\<forall>k\<in>set (dict_keys (tc_deps tc)). numbered (tc_emitted tc) k)"

lemma named_ok_new [simp]: "named_ok new_compiler"
  by (simp add: named_ok_def new_compiler_def)

text \<open>The part of the compiler that emitting steps does not touch.\<close>

definition same_tables :: "table_compiler \<Rightarrow> table_compiler \<Rightarrow> bool" where
  "same_tables tc tc' \<longleftrightarrow> tc_steps tc' = tc_steps tc \<and> tc_phase_steps tc' = tc_phase_steps tc
    \<and> tc_phase_after tc' = tc_phase_after tc \<and> tc_entry_steps tc' = tc_entry_steps tc
    \<and> tc_entry_phase tc' = tc_entry_phase tc"

lemma same_tables_refl [simp]: "same_tables tc tc"
  by (simp add: same_tables_def)

lemma same_tables_trans: "same_tables a b \<Longrightarrow> same_tables b c \<Longrightarrow> same_tables a c"
  by (simp add: same_tables_def)

text \<open>The dependencies of one placement's commands.\<close>

fun chain_deps :: "string list \<Rightarrow> string option \<Rightarrow> string list \<Rightarrow> op_spec list \<Rightarrow> dependency list list" where
  "chain_deps soft previous (n # ns) (spec # specs) =
    (case previous of None \<Rightarrow> completion soft | Some q \<Rightarrow> [\<lparr>dp_on = q, dp_kind = os_sequence spec\<rparr>])
      # chain_deps soft (Some n) ns specs"
| "chain_deps soft previous _ _ = []"

lemma length_chain_deps [simp]: "length ns = length specs \<Longrightarrow> length (chain_deps soft q ns specs) = length specs"
  by (induction soft q ns specs rule: chain_deps.induct) auto

lemma chain_deps_on:
  "ds \<in> set (chain_deps soft q ns specs) \<Longrightarrow> d \<in> set ds
    \<Longrightarrow> dp_on d \<in> set soft \<union> set ns \<union> (case q of None \<Rightarrow> {} | Some n \<Rightarrow> {n})"
  by (induction soft q ns specs rule: chain_deps.induct)
    (auto simp: completion_def split: option.splits)

lemma emit_ops_facts:
  assumes "emit_ops t owner path stated soft p xs previous tc = (ss, tc')" and "named_ok tc"
  shows "named_ok tc' \<and> same_tables tc tc'
    \<and> length ss = length xs
    \<and> tc_deps tc' = tc_deps tc @ zip (map ps_name ss) (chain_deps soft previous (map ps_name ss) (map snd xs))
    \<and> tc_where tc' = tc_where tc @ map (\<lambda>s. (ps_name s, p)) ss
    \<and> tc_emitted tc' = tc_emitted tc + length xs
    \<and> (\<forall>s\<in>set ss. ps_target s = Some p \<and> ps_deps s = [] \<and> ps_command s \<noteq> None \<and> ps_group s = owner)"
  using assms
proof (induction t owner path stated soft p xs previous tc arbitrary: ss rule: emit_ops.induct)
  case (2 t owner path stated soft p index spec rest previous tc)
  let ?n = "step_name owner p (Suc (tc_emitted tc))"
  let ?ds = "case previous of None \<Rightarrow> completion soft | Some q \<Rightarrow> [\<lparr>dp_on = q, dp_kind = os_sequence spec\<rparr>]"
  obtain s tc1 where st: "plan_step t owner (path @ [Inr (int index)]) stated spec p tc = (s, tc1)" by force
  have n: "ps_name s = ?n" "ps_target s = Some p" "ps_deps s = []" "ps_command s \<noteq> None" "ps_group s = owner"
    and tc1: "tc1 = tc\<lparr>tc_emitted := Suc (tc_emitted tc), tc_where := dict_set ?n p (tc_where tc)\<rparr>"
    using st by (auto simp: plan_step_def step_name_def Let_def)
  let ?tc = "tc1\<lparr>tc_deps := dict_set (ps_name s) ?ds (tc_deps tc1)\<rparr>"
  obtain ss' where r: "emit_ops t owner path stated soft p rest (Some (ps_name s)) ?tc = (ss', tc')" and ss: "ss = s # ss'"
    using 2(2) st by (auto simp: Let_def split: prod.splits)
  have keys: "?n \<notin> set (dict_keys (tc_deps tc))" "?n \<notin> set (dict_keys (tc_where tc))"
    using 2(3) numbered_fresh unfolding named_ok_def by metis+
  have wh: "tc_where ?tc = tc_where tc @ [(?n, p)]" and de: "tc_deps ?tc = tc_deps tc @ [(?n, ?ds)]"
    using dict_set_fresh [OF keys(1)] dict_set_fresh [OF keys(2)] by (simp_all add: tc1 n(1))
  have "named_ok ?tc"
    unfolding named_ok_def wh de using 2(3) keys numbered_Suc numbered_new
    by (auto simp: named_ok_def tc1)
  from 2(1) [OF refl st [symmetric] refl r this] show ?case
    using n wh de by (auto simp: ss same_tables_def tc1)
qed auto

text \<open>An entry emits one chain of names per placement.\<close>

definition chains :: "string list \<Rightarrow> op_spec list \<Rightarrow> string list list \<Rightarrow> (string, dependency list) dict" where
  "chains soft specs nss = concat (map (\<lambda>ns. zip ns (chain_deps soft None ns specs)) nss)"

lemma chains_keys: "\<forall>ns\<in>set nss. length ns = length specs \<Longrightarrow> dict_keys (chains soft specs nss) = concat nss"
  by (induction nss) (auto simp: chains_def)

lemma chains_on: "(n, ds) \<in> set (chains soft specs nss) \<Longrightarrow> d \<in> set ds \<Longrightarrow> dp_on d \<in> set soft \<union> set (concat nss)"
  using chain_deps_on by (fastforce simp: chains_def dest: set_zip_rightD)

definition placed_chains :: "placement list \<Rightarrow> string list list \<Rightarrow> (string, placement) dict" where
  "placed_chains ps nss = concat (map (\<lambda>(p, ns). map (\<lambda>n. (n, p)) ns) (zip ps nss))"

definition chain_heads :: "placement list \<Rightarrow> string list list \<Rightarrow> (placement \<times> string) list" where
  "chain_heads ps nss = concat (map (\<lambda>(p, ns). case ns of [] \<Rightarrow> [] | n # _ \<Rightarrow> [(p, n)]) (zip ps nss))"

lemma emit_entry_facts:
  assumes "emit_entry t owner path stated soft specs ps tc = (ss, hs, tc')" and "named_ok tc"
  obtains nss where "length nss = length ps" and "\<forall>ns\<in>set nss. length ns = length specs"
    and "map ps_name ss = concat nss" and "hs = chain_heads ps nss"
    and "tc_deps tc' = tc_deps tc @ chains soft specs nss"
    and "tc_where tc' = tc_where tc @ placed_chains ps nss"
    and "named_ok tc'" and "same_tables tc tc'"
    and "\<forall>s\<in>set ss. ps_target s \<in> Some ` set ps \<and> ps_deps s = [] \<and> ps_command s \<noteq> None \<and> ps_group s = owner"
  using assms
proof (induction t owner path stated soft specs ps tc arbitrary: ss hs thesis rule: emit_entry.induct)
  case (1 t owner path stated soft specs tc)
  show ?case by (rule 1(1) [of "[]"]) (use 1(2,3) in \<open>simp_all add: chain_heads_def chains_def placed_chains_def\<close>)
next
  case (2 t owner path stated soft specs p ps tc)
  obtain ss1 tc1 where e1: "emit_ops t owner path stated soft p (enumerate 0 specs) None tc = (ss1, tc1)" by force
  obtain ss2 hs2 where e2: "emit_entry t owner path stated soft specs ps tc1 = (ss2, hs2, tc')"
    and res: "ss = ss1 @ ss2" "hs = (case ss1 of [] \<Rightarrow> [] | s # _ \<Rightarrow> [(p, ps_name s)]) @ hs2"
    using 2(3) e1 by (auto split: prod.splits)
  note f1 = emit_ops_facts [OF e1 2(4)]
  then have ok1: "named_ok tc1" by blast
  obtain nss where nss: "length nss = length ps" "\<forall>ns\<in>set nss. length ns = length specs"
      "map ps_name ss2 = concat nss" "hs2 = chain_heads ps nss"
      "tc_deps tc' = tc_deps tc1 @ chains soft specs nss" "tc_where tc' = tc_where tc1 @ placed_chains ps nss"
      "named_ok tc'" "same_tables tc1 tc'"
      "\<forall>s\<in>set ss2. ps_target s \<in> Some ` set ps \<and> ps_deps s = [] \<and> ps_command s \<noteq> None \<and> ps_group s = owner"
    by (rule 2(1) [OF e1 [symmetric] refl _ e2 ok1])
  show ?case
  proof (rule 2(2) [of "map ps_name ss1 # nss"])
    show "hs = chain_heads (p # ps) (map ps_name ss1 # nss)"
      using res(2) nss(4) by (cases ss1) (simp_all add: chain_heads_def)
    show "same_tables tc tc'" using f1 nss(8) same_tables_trans by blast
  qed (use f1 nss res in \<open>auto simp: chains_def placed_chains_def o_def\<close>)
qed

lemma chain_heads_in: "(p, h) \<in> set (chain_heads ps nss) \<Longrightarrow> p \<in> set ps \<and> h \<in> set (concat nss)"
  by (auto simp: chain_heads_def dest: set_zip_leftD set_zip_rightD split: list.splits) (meson list.set_intros(1) set_zip_rightD)

lemma chain_heads_deps:
  assumes "(p, h) \<in> set (chain_heads ps nss)" and "\<forall>ns\<in>set nss. length ns = length specs"
  shows "(h, completion soft) \<in> set (chains soft specs nss)"
proof -
  obtain ns where ns: "ns \<in> set nss" "ns = h # tl ns"
    using assms(1) by (auto simp: chain_heads_def dest: set_zip_rightD split: list.splits)
  then obtain spec rest where "specs = spec # rest" using assms(2) by (cases specs) force+
  then have "(h, completion soft) \<in> set (zip ns (chain_deps soft None ns specs))"
    by (subst (1 2) ns(2)) simp
  then show ?thesis using ns(1) by (auto simp: chains_def)
qed

subsection \<open>Errors that a table cannot cause\<close>

text \<open>\<open>safe r P\<close>: \<open>r\<close> is no failed lookup and no exhausted recursion, and if it succeeds then with \<open>P\<close>.\<close>

fun table_internal :: "table_error \<Rightarrow> bool" where
  "table_internal (NoKey k) = True"
| "table_internal (TooDeep k) = True"
| "table_internal _ = False"

definition safe :: "table_error + 'a \<Rightarrow> ('a \<Rightarrow> bool) \<Rightarrow> bool" where
  "safe r P \<longleftrightarrow> (case r of Inl e \<Rightarrow> \<not> table_internal e | Inr a \<Rightarrow> P a)"

lemma safe_simps [simp]: "safe (Inl e) P \<longleftrightarrow> \<not> table_internal e" "safe (Inr a) P \<longleftrightarrow> P a"
  by (simp_all add: safe_def)

lemma safe_rbind: "safe r Q \<Longrightarrow> (\<And>a. r = Inr a \<Longrightarrow> Q a \<Longrightarrow> safe (f a) P) \<Longrightarrow> safe (rbind r f) P"
  by (cases r) auto

lemma safe_mono: "safe r Q \<Longrightarrow> (\<And>a. r = Inr a \<Longrightarrow> Q a \<Longrightarrow> P a) \<Longrightarrow> safe r P"
  by (cases r) auto

lemma safe_rfold:
  "I s \<Longrightarrow> (\<And>x s. x \<in> set xs \<Longrightarrow> I s \<Longrightarrow> safe (f x s) I) \<Longrightarrow> safe (rfold f xs s) I"
  by (induction xs arbitrary: s) (auto intro!: safe_rbind)

lemma safe_rtraverse:
  "(\<And>x. x \<in> set xs \<Longrightarrow> safe (f x) P) \<Longrightarrow> safe (rtraverse f xs) (\<lambda>ys. \<forall>y\<in>set ys. P y)"
proof (induction xs)
  case (Cons x xs)
  have "safe (f x) P" "safe (rtraverse f xs) (\<lambda>ys. \<forall>y\<in>set ys. P y)" using Cons by simp_all
  then show ?case by (auto intro!: safe_rbind)
qed simp

lemma safe_Inr: "safe r P \<Longrightarrow> r = Inr a \<Longrightarrow> P a"
  by simp

lemma safe_key: "k \<in> set (dict_keys d) \<Longrightarrow> (\<And>v. map_of d k = Some v \<Longrightarrow> P v) \<Longrightarrow> safe (key_of d k) P"
  unfolding key_of_def by (metis ex_map_of option.simps(5) safe_simps(2))

lemma safe_key_values:
  assumes "k \<in> set (dict_keys d)" and "\<forall>v\<in>set (map snd d). P v"
  shows "safe (key_of d k) P"
proof (rule safe_key [OF assms(1)])
  fix v
  assume "map_of d k = Some v"
  then have "(k, v) \<in> set d" by (rule map_of_SomeD)
  then show "P v" using assms(2) by force
qed

text \<open>Phases follow declared ones, so the recursion of \<open>_effective_steps\<close> descends.\<close>

definition phases_ordered :: "(string, string list) dict \<Rightarrow> bool" where
  "phases_ordered d \<longleftrightarrow> distinct (dict_keys d)
    \<and> (\<forall>i<length d. set (snd (d ! i)) \<subseteq> set (take i (dict_keys d)))"

lemma phases_ordered_snoc:
  assumes "phases_ordered d" and "k \<notin> set (dict_keys d)" and "set after \<subseteq> set (dict_keys d)"
  shows "phases_ordered (d @ [(k, after)])"
proof -
  have "set (snd ((d @ [(k, after)]) ! i)) \<subseteq> set (take i (dict_keys (d @ [(k, after)])))"
    if "i < length (d @ [(k, after)])" for i
  proof (cases "i < length d")
    case True
    then show ?thesis using assms(1) by (simp add: phases_ordered_def nth_append)
  next
    case False
    then have "i = length d" using that by simp
    then show ?thesis using assms(3) by (simp add: nth_append)
  qed
  then show ?thesis using assms(1,2) unfolding phases_ordered_def by simp
qed

lemma effective_within_safe:
  assumes "phases_ordered (tc_phase_after tc)"
    and "set (dict_keys (tc_phase_after tc)) \<subseteq> set (dict_keys (tc_phase_steps tc))"
    and "\<forall>ns\<in>set (map snd (tc_phase_steps tc)). set ns \<subseteq> M"
    and "i < n" and "i < length (tc_phase_after tc)" and "ph = dict_keys (tc_phase_after tc) ! i"
  shows "\<exists>ns. effective_within n tc ph = Inr ns \<and> set ns \<subseteq> M"
  using assms(4-6)
proof (induction n arbitrary: i ph)
  case (Suc n)
  let ?d = "tc_phase_after tc"
  have mem: "ph \<in> set (dict_keys ?d)" using Suc.prems by simp
  then have "ph \<in> set (dict_keys (tc_phase_steps tc))" using assms(2) by blast
  then obtain names where names: "map_of (tc_phase_steps tc) ph = Some names" by (metis ex_map_of)
  then have "(ph, names) \<in> set (tc_phase_steps tc)" by (rule map_of_SomeD)
  then have sub: "set names \<subseteq> M" using assms(3) by fastforce
  have di: "?d ! i = (ph, snd (?d ! i))" using Suc.prems(2,3) by (simp add: prod_eq_iff)
  then have "(ph, snd (?d ! i)) \<in> set ?d" using Suc.prems(2) by (metis nth_mem)
  then have follows: "map_of ?d ph = Some (snd (?d ! i))"
    using assms(1) by (simp add: phases_ordered_def map_of_is_SomeI)
  have below: "\<exists>ns. effective_within n tc f = Inr ns \<and> set ns \<subseteq> M" if f: "f \<in> set (snd (?d ! i))" for f
  proof -
    have "f \<in> set (take i (dict_keys ?d))" using assms(1) Suc.prems(2) f unfolding phases_ordered_def by blast
    then obtain j where "j < i" "f = dict_keys ?d ! j" using Suc.prems(2) by (auto simp: in_set_conv_nth)
    then show ?thesis using Suc.IH [of j f] Suc.prems(1,2) by simp
  qed
  have "\<exists>nss. rtraverse (effective_within n tc) fs = Inr nss \<and> set (concat nss) \<subseteq> M" if "set fs \<subseteq> set (snd (?d ! i))" for fs
    using that
  proof (induction fs)
    case (Cons f fs)
    then obtain ns nss where "effective_within n tc f = Inr ns" "set ns \<subseteq> M"
        "rtraverse (effective_within n tc) fs = Inr nss" "set (concat nss) \<subseteq> M" using below [of f] by auto
    then show ?case by simp
  qed simp
  from this [OF subset_refl] show ?case using names sub follows by (auto simp: key_of_def)
qed simp

lemma safe_rfold_all:
  assumes "I s" and "\<And>x s. x \<in> set xs \<Longrightarrow> I s \<Longrightarrow> safe (f x s) (\<lambda>t. I t \<and> Q x t \<and> (\<forall>y. Q y s \<longrightarrow> Q y t))"
  shows "safe (rfold f xs s) (\<lambda>t. I t \<and> (\<forall>x\<in>set xs. Q x t) \<and> (\<forall>y. Q y s \<longrightarrow> Q y t))"
  using assms
proof (induction xs arbitrary: s)
  case (Cons x xs)
  have "safe (f x s) (\<lambda>t. I t \<and> Q x t \<and> (\<forall>y. Q y s \<longrightarrow> Q y t))" by (rule Cons.prems(2)) (simp_all add: Cons.prems(1))
  then show ?case unfolding rfold.simps
  proof (rule safe_rbind)
    fix t
    assume t: "I t \<and> Q x t \<and> (\<forall>y. Q y s \<longrightarrow> Q y t)"
    then have "safe (rfold f xs t) (\<lambda>u. I u \<and> (\<forall>x\<in>set xs. Q x u) \<and> (\<forall>y. Q y t \<longrightarrow> Q y u))"
      by (intro Cons.IH) (use Cons.prems(2) in auto)
    then show "safe (rfold f xs t) (\<lambda>u. I u \<and> (\<forall>x\<in>set (x # xs). Q x u) \<and> (\<forall>y. Q y s \<longrightarrow> Q y u))"
      by (rule safe_mono) (use t in auto)
  qed
qed simp

subsection \<open>The compiler keeps its tables\<close>

abbreviation emitted :: "table_compiler \<Rightarrow> string set" where
  "emitted tc \<equiv> set (dict_keys (tc_deps tc))"

definition tables_ok :: "table_compiler \<Rightarrow> bool" where
  "tables_ok tc \<longleftrightarrow> named_ok tc
    \<and> map ps_name (tc_steps tc) = dict_keys (tc_deps tc)
    \<and> (\<forall>(n, ds)\<in>set (tc_deps tc). \<forall>d\<in>set ds. dp_on d \<in> emitted tc)
    \<and> phases_ordered (tc_phase_after tc) \<and> dict_keys (tc_phase_steps tc) = dict_keys (tc_phase_after tc)
    \<and> (\<forall>ns\<in>set (map snd (tc_phase_steps tc)). set ns \<subseteq> emitted tc)
    \<and> (\<forall>ns\<in>set (map snd (tc_entry_steps tc)). set ns \<subseteq> emitted tc)
    \<and> (\<forall>q\<in>set (map snd (tc_entry_phase tc)). q \<in> set (dict_keys (tc_phase_after tc)))
    \<and> (\<forall>s\<in>set (tc_steps tc). ps_target s \<noteq> None \<and> ps_command s \<noteq> None)"

text \<open>Between phases every declared entry has its steps.\<close>

definition entries_done :: "table_compiler \<Rightarrow> bool" where
  "entries_done tc \<longleftrightarrow> set (dict_keys (tc_entry_phase tc)) \<subseteq> set (dict_keys (tc_entry_steps tc))"

lemma tables_ok_new [simp]: "tables_ok new_compiler" "entries_done new_compiler"
  by (simp_all add: tables_ok_def new_compiler_def phases_ordered_def named_ok_def entries_done_def)

lemma snd_update: "x \<in> set (map snd (dict_set k v d)) \<Longrightarrow> x = v \<or> x \<in> set (map snd d)"
  by (induction d) (auto split: if_splits)

lemma map_of_snd: "map_of d k = Some v \<Longrightarrow> v \<in> set (map snd d)"
  by (metis imageI map_of_SomeD set_map snd_conv)

lemma tables_okD:
  assumes "tables_ok tc"
  shows "named_ok tc" and "map ps_name (tc_steps tc) = dict_keys (tc_deps tc)"
    and "(n, ds) \<in> set (tc_deps tc) \<Longrightarrow> d \<in> set ds \<Longrightarrow> dp_on d \<in> emitted tc"
    and "phases_ordered (tc_phase_after tc)" and "dict_keys (tc_phase_steps tc) = dict_keys (tc_phase_after tc)"
    and "ns \<in> set (map snd (tc_phase_steps tc)) \<Longrightarrow> set ns \<subseteq> emitted tc"
    and "ms \<in> set (map snd (tc_entry_steps tc)) \<Longrightarrow> set ms \<subseteq> emitted tc"
    and "q \<in> set (map snd (tc_entry_phase tc)) \<Longrightarrow> q \<in> set (dict_keys (tc_phase_after tc))"
    and "s \<in> set (tc_steps tc) \<Longrightarrow> ps_target s \<noteq> None \<and> ps_command s \<noteq> None"
  using assms unfolding tables_ok_def by blast+

lemma effective_safe:
  assumes "tables_ok tc" and "ph \<in> set (dict_keys (tc_phase_after tc))"
  shows "\<exists>ns. effective_steps tc ph = Inr ns \<and> set ns \<subseteq> emitted tc"
proof -
  obtain i where "i < length (tc_phase_after tc)" "ph = dict_keys (tc_phase_after tc) ! i"
    using assms(2) by (metis in_set_conv_nth length_map)
  then show ?thesis
    unfolding effective_steps_def
    by (intro effective_within_safe [where i = i]) (use assms(1) in \<open>auto simp: tables_ok_def\<close>)
qed

lemma effective_all_safe:
  assumes "tables_ok tc" and "set phs \<subseteq> set (dict_keys (tc_phase_after tc))"
  shows "\<exists>nss. rtraverse (effective_steps tc) phs = Inr nss \<and> set (concat nss) \<subseteq> emitted tc"
  using assms(2)
proof (induction phs)
  case (Cons ph phs)
  then show ?case using effective_safe [OF assms(1), of ph] by fastforce
qed simp

lemma declaring_phase_safe:
  "tables_ok tc \<Longrightarrow> safe (declaring_phase tc part target) (\<lambda>q. q \<in> set (dict_keys (tc_phase_after tc)))"
  using tables_okD(8) [OF _ map_of_snd] unfolding declaring_phase_def by (simp split: option.split)

definition declared_in :: "table_compiler \<Rightarrow> join_clause \<Rightarrow> bool" where
  "declared_in tc c \<longleftrightarrow> jc_name c \<in> set (dict_keys (tc_entry_phase tc)) \<union> set (dict_keys (tc_phase_after tc))"

lemma declaring_phase_declared: "declaring_phase tc part (jc_name c) = Inr q \<Longrightarrow> declared_in tc c"
  unfolding declaring_phase_def declared_in_def by (auto split: option.splits if_splits dest: map_of_Some_key)

lemma soft_links_safe:
  assumes "tables_ok tc" and "set after \<subseteq> set (dict_keys (tc_phase_after tc))"
  shows "safe (soft_links tc e after part) (\<lambda>ns. set ns \<subseteq> emitted tc \<and> (\<forall>c\<in>set (en_require e). declared_in tc c))"
  unfolding soft_links_def
proof (rule safe_rbind [OF safe_rtraverse])
  show "safe (declaring_phase tc part (jc_name c)) (\<lambda>q. q \<in> set (dict_keys (tc_phase_after tc)))" for c
    by (rule declaring_phase_safe [OF assms(1)])
  fix required
  assume "rtraverse (\<lambda>c. declaring_phase tc part (jc_name c)) (en_require e) = Inr required"
  then have decl: "\<forall>c\<in>set (en_require e). declared_in tc c"
    using declaring_phase_declared by (fastforce simp: rtraverse_Inr_iff in_set_conv_nth dest: list_all2_nthD)
  obtain nss where "rtraverse (effective_steps tc) (filter (\<lambda>f. f \<notin> set required) after) = Inr nss"
      "set (concat nss) \<subseteq> emitted tc"
    using effective_all_safe [OF assms(1), of "filter (\<lambda>f. f \<notin> set required) after"] assms(2) by auto
  then show "safe (rbind (rtraverse (effective_steps tc) (filter (\<lambda>f. f \<notin> set required) after))
      (\<lambda>nss. Inr (dedup (concat nss)))) (\<lambda>ns. set ns \<subseteq> emitted tc \<and> (\<forall>c\<in>set (en_require e). declared_in tc c))"
    using decl by simp
qed

lemma some_targets_safe: "safe (some_targets bs part e) (\<lambda>ps. ps \<noteq> [])"
  by (simp add: some_targets_def split: sum.split)

lemma reach_safe: "safe (reach part e p reached) (\<lambda>_. True)"
  by (simp add: reach_def split: option.split)

lemma selected_safe:
  "safe (selected_targets bs part es) (\<lambda>chosen. length chosen = length es \<and> (\<forall>ps\<in>set chosen. ps \<noteq> []))"
  unfolding selected_targets_def
proof (rule safe_rbind [OF safe_rtraverse [OF some_targets_safe]])
  fix chosen
  assume c: "rtraverse (some_targets bs part) es = Inr chosen" "\<forall>ps\<in>set chosen. ps \<noteq> []"
  have "safe (rfold (\<lambda>(e, ps). rfold (reach part e) ps) (zip es chosen) []) (\<lambda>_. True)"
    by (rule safe_rfold) (auto split: prod.split intro!: safe_rfold reach_safe)
  then show "safe (rbind (rfold (\<lambda>(e, ps). rfold (reach part e) ps) (zip es chosen) []) (\<lambda>_. Inr chosen))
      (\<lambda>chosen. length chosen = length es \<and> (\<forall>ps\<in>set chosen. ps \<noteq> []))"
    by (rule safe_rbind) (simp add: c rtraverse_length [OF c(1)])
qed

lemma declare_entry_safe:
  assumes "tables_ok tc" and "q \<in> set (dict_keys (tc_phase_after tc))"
  shows "safe (declare_entry q e tc) (\<lambda>tc'. tables_ok tc' \<and> tc_phase_after tc' = tc_phase_after tc
    \<and> set (dict_keys (tc_entry_phase tc')) = set (dict_keys (tc_entry_phase tc)) \<union> set_option (en_id e)
    \<and> tc_entry_steps tc' = tc_entry_steps tc)"
proof (cases "en_id e")
  case None
  then show ?thesis using assms by (simp add: declare_entry_def)
next
  case (Some i)
  let ?tc = "tc\<lparr>tc_entry_phase := dict_set i q (tc_entry_phase tc)\<rparr>"
  have "\<forall>q'\<in>set (map snd (dict_set i q (tc_entry_phase tc))). q' \<in> set (dict_keys (tc_phase_after tc))"
    using snd_update [of _ i q] tables_okD(8) [OF assms(1)] assms(2) by blast
  then have "tables_ok ?tc" using assms(1) by (simp add: tables_ok_def named_ok_def del: set_map)
  then show ?thesis using Some by (simp add: declare_entry_def)
qed

lemma declare_entries_safe:
  assumes "tables_ok tc" and "q \<in> set (dict_keys (tc_phase_after tc))"
  shows "safe (rfold (declare_entry q) es tc) (\<lambda>tc'. tables_ok tc' \<and> tc_phase_after tc' = tc_phase_after tc
    \<and> set (dict_keys (tc_entry_phase tc')) = set (dict_keys (tc_entry_phase tc)) \<union> (\<Union>e\<in>set es. set_option (en_id e))
    \<and> tc_entry_steps tc' = tc_entry_steps tc)"
  using assms
proof (induction es arbitrary: tc)
  case (Cons e es)
  show ?case unfolding rfold.simps
  proof (rule safe_rbind [OF declare_entry_safe [OF Cons.prems]])
    fix tc1
    assume t: "tables_ok tc1 \<and> tc_phase_after tc1 = tc_phase_after tc
      \<and> set (dict_keys (tc_entry_phase tc1)) = set (dict_keys (tc_entry_phase tc)) \<union> set_option (en_id e)
      \<and> tc_entry_steps tc1 = tc_entry_steps tc"
    then have "q \<in> set (dict_keys (tc_phase_after tc1))" using Cons.prems(2) by simp
    from Cons.IH [OF conjunct1 [OF t] this]
    show "safe (rfold (declare_entry q) es tc1) (\<lambda>tc'. tables_ok tc' \<and> tc_phase_after tc' = tc_phase_after tc
      \<and> set (dict_keys (tc_entry_phase tc'))
          = set (dict_keys (tc_entry_phase tc)) \<union> (\<Union>e\<in>set (e # es). set_option (en_id e))
      \<and> tc_entry_steps tc' = tc_entry_steps tc)"
      by (rule safe_mono) (use t in auto)
  qed
qed simp

lemma declare_phase_safe:
  assumes "tables_ok tc"
  shows "safe (declare_phase ph previous tc) (\<lambda>(after, tc'). tables_ok tc'
    \<and> set after \<subseteq> set (dict_keys (tc_phase_after tc')) \<and> ph_name ph \<in> set (dict_keys (tc_phase_after tc'))
    \<and> set (dict_keys (tc_entry_phase tc')) = set (dict_keys (tc_entry_phase tc)) \<union> (\<Union>e\<in>set (ph_entries ph). set_option (en_id e))
    \<and> tc_entry_steps tc' = tc_entry_steps tc)"
proof -
  let ?q = "ph_name ph" and ?after = "phase_follows ph previous"
  let ?tc = "tc\<lparr>tc_phase_after := dict_set ?q ?after (tc_phase_after tc), tc_phase_steps := dict_set ?q [] (tc_phase_steps tc)\<rparr>"
  have keys: "dict_keys (tc_phase_steps tc) = dict_keys (tc_phase_after tc)" by (rule tables_okD(5) [OF assms])
  show ?thesis
  proof (cases "?q \<in> set (dict_keys (tc_phase_steps tc)) \<or> (\<exists>n\<in>set ?after. n \<notin> set (dict_keys (tc_phase_steps tc)))")
    case True
    then show ?thesis by (auto simp: declare_phase_def Let_def filter_empty_conv)
  next
    case False
    then have new: "?q \<notin> set (dict_keys (tc_phase_after tc))" and sub: "set ?after \<subseteq> set (dict_keys (tc_phase_after tc))"
      unfolding keys by auto
    have ins: "dict_set ?q ?after (tc_phase_after tc) = tc_phase_after tc @ [(?q, ?after)]"
        "dict_set ?q [] (tc_phase_steps tc) = tc_phase_steps tc @ [(?q, [])]"
      using new unfolding keys [symmetric] by (metis dict_set_fresh keys)+
    have "tables_ok ?tc"
      using assms phases_ordered_snoc [OF tables_okD(4) [OF assms] new sub]
      unfolding tables_ok_def ins named_ok_def by auto
    moreover have "?q \<in> set (dict_keys (tc_phase_after ?tc))" by simp
    ultimately have "safe (rfold (declare_entry ?q) (ph_entries ph) ?tc) (\<lambda>tc'. tables_ok tc' \<and> tc_phase_after tc' = tc_phase_after ?tc
      \<and> set (dict_keys (tc_entry_phase tc')) = set (dict_keys (tc_entry_phase ?tc)) \<union> (\<Union>e\<in>set (ph_entries ph). set_option (en_id e))
      \<and> tc_entry_steps tc' = tc_entry_steps ?tc)"
      by (rule declare_entries_safe)
    then have "safe (rbind (rfold (declare_entry ?q) (ph_entries ph) ?tc) (\<lambda>tc'. Inr (?after, tc'))) (\<lambda>(after, tc'). tables_ok tc'
      \<and> set after \<subseteq> set (dict_keys (tc_phase_after tc')) \<and> ?q \<in> set (dict_keys (tc_phase_after tc'))
      \<and> set (dict_keys (tc_entry_phase tc')) = set (dict_keys (tc_entry_phase tc)) \<union> (\<Union>e\<in>set (ph_entries ph). set_option (en_id e))
      \<and> tc_entry_steps tc' = tc_entry_steps tc)"
      by (rule safe_rbind) (use sub in auto)
    moreover have "declare_phase ph previous tc = rbind (rfold (declare_entry ?q) (ph_entries ph) ?tc) (\<lambda>tc'. Inr (?after, tc'))"
      using False unfolding declare_phase_def Let_def by (auto simp: filter_empty_conv)
    ultimately show ?thesis by simp
  qed
qed

lemma narrowed_safe:
  assumes "named_ok tc" and "set named \<subseteq> emitted tc"
  shows "safe (narrowed tc c named p) (\<lambda>ns. set ns \<subseteq> set named)"
proof -
  have keys: "dict_keys (tc_where tc) = dict_keys (tc_deps tc)" using assms(1) by (simp add: named_ok_def)
  have "safe (rtraverse (\<lambda>n. rbind (key_of (tc_where tc) n) (\<lambda>q. Inr (n, q))) named) (\<lambda>nqs. fst ` set nqs \<subseteq> set named)"
    by (rule safe_mono [OF safe_rtraverse [where P = "\<lambda>nq. fst nq \<in> set named"]])
      (use assms(2) in \<open>auto simp: keys intro!: safe_rbind safe_key\<close>)
  then have keep: "safe (rbind (rtraverse (\<lambda>n. rbind (key_of (tc_where tc) n) (\<lambda>q. Inr (n, q))) named)
      (\<lambda>nqs. Inr (map fst (filter (\<lambda>(_, q). test q) nqs)))) (\<lambda>ns. set ns \<subseteq> set named)" for test
    by (rule safe_rbind) auto
  show ?thesis unfolding narrowed_def Let_def by (cases "jc_join c") (simp_all add: keep)
qed

text \<open>Attaching requirements changes only the dependencies of steps that exist.\<close>

definition redepend :: "table_compiler \<Rightarrow> table_compiler \<Rightarrow> bool" where
  "redepend tc tc' \<longleftrightarrow> (\<exists>ds. tc' = tc\<lparr>tc_deps := ds\<rparr> \<and> dict_keys ds = dict_keys (tc_deps tc))"

lemma redepend_refl [simp]: "redepend tc tc"
  by (auto simp: redepend_def intro: exI [of _ "tc_deps tc"])

lemma redepend_trans: "redepend a b \<Longrightarrow> redepend b c \<Longrightarrow> redepend a c"
  by (auto simp: redepend_def)

lemma dict_keys_again: "k \<in> set (dict_keys d) \<Longrightarrow> dict_keys (dict_set k v d) = dict_keys d"
  by (simp add: update_keys)

lemma deps_set:
  assumes "(n, ds) \<in> set (dict_set k v d)"
  shows "(n = k \<and> ds = v) \<or> (n, ds) \<in> set d"
  using assms by (induction d) (auto split: if_splits)

lemma join_steps_safe:
  assumes "tables_ok tc" and "set named \<subseteq> emitted tc" and "head \<in> emitted tc"
  shows "safe (join_steps c named p head part tc) (\<lambda>tc'. tables_ok tc' \<and> redepend tc tc')"
proof (cases "named = []")
  case False
  have "safe (rbind (narrowed tc c named p) (\<lambda>ns.
       if ns = [] then Inl (EmptyJoin part (jc_name c) (jc_join c) (pl_device p))
       else rbind (key_of (tc_deps tc) head) (\<lambda>ds.
         Inr (tc\<lparr>tc_deps := dict_set head (ds @ map (\<lambda>n. \<lparr>dp_on = n, dp_kind = jc_on c\<rparr>) ns) (tc_deps tc)\<rparr>))))
     (\<lambda>tc'. tables_ok tc' \<and> redepend tc tc')"
  proof (rule safe_rbind [OF narrowed_safe [OF tables_okD(1) [OF assms(1)] assms(2)]])
    fix ns
    assume ns: "set ns \<subseteq> set named"
    obtain ds where ds: "map_of (tc_deps tc) head = Some ds" using assms(3) by (metis ex_map_of)
    let ?new = "ds @ map (\<lambda>n. \<lparr>dp_on = n, dp_kind = jc_on c\<rparr>) ns"
    let ?tc = "tc\<lparr>tc_deps := dict_set head ?new (tc_deps tc)\<rparr>"
    have keys: "dict_keys (dict_set head ?new (tc_deps tc)) = dict_keys (tc_deps tc)" by (rule dict_keys_again [OF assms(3)])
    have "dp_on d \<in> emitted tc" if "(n, es) \<in> set (dict_set head ?new (tc_deps tc))" "d \<in> set es" for n es d
    proof (cases "(n, es) \<in> set (tc_deps tc)")
      case True
      then show ?thesis using tables_okD(3) [OF assms(1)] that(2) by blast
    next
      case False
      then have "es = ?new" using deps_set [OF that(1)] by blast
      then show ?thesis
        using that(2) tables_okD(3) [OF assms(1) map_of_SomeD [OF ds]] subsetD [OF subset_trans [OF ns assms(2)]] by auto
    qed
    then have "\<forall>(n, es)\<in>set (dict_set head ?new (tc_deps tc)). \<forall>d\<in>set es. dp_on d \<in> emitted tc" by blast
    then have "tables_ok ?tc" using assms(1) by (simp add: tables_ok_def named_ok_def keys del: set_map)
    moreover have "redepend tc ?tc" using keys by (auto simp: redepend_def)
    ultimately show "safe (if ns = [] then Inl (EmptyJoin part (jc_name c) (jc_join c) (pl_device p))
       else rbind (key_of (tc_deps tc) head) (\<lambda>ds.
         Inr (tc\<lparr>tc_deps := dict_set head (ds @ map (\<lambda>n. \<lparr>dp_on = n, dp_kind = jc_on c\<rparr>) ns) (tc_deps tc)\<rparr>)))
     (\<lambda>tc'. tables_ok tc' \<and> redepend tc tc')"
      using ds by (simp add: key_of_def)
  qed
  then show ?thesis using False by (simp add: join_steps_def)
qed (simp add: join_steps_def)

definition heads_ok :: "table_compiler \<Rightarrow> entry_heads \<Rightarrow> bool" where
  "heads_ok tc heads \<longleftrightarrow> (\<forall>(e, p, h)\<in>set heads. h \<in> emitted tc \<and> (\<forall>c\<in>set (en_require e). declared_in tc c))"

lemma redepend_tables:
  assumes "redepend tc tc'"
  shows "emitted tc' = emitted tc" and "declared_in tc' c = declared_in tc c"
    and "tc_entry_phase tc' = tc_entry_phase tc" and "tc_entry_steps tc' = tc_entry_steps tc"
    and "tc_phase_after tc' = tc_phase_after tc" and "tc_phase_steps tc' = tc_phase_steps tc"
    and "tc_steps tc' = tc_steps tc" and "tc_where tc' = tc_where tc" and "tc_emitted tc' = tc_emitted tc"
proof -
  obtain ds where ds: "tc' = tc\<lparr>tc_deps := ds\<rparr>" "dict_keys ds = dict_keys (tc_deps tc)"
    using assms by (auto simp: redepend_def)
  have "dict_keys (tc_deps tc') = dict_keys (tc_deps tc)" using ds by simp
  then show "emitted tc' = emitted tc" by (rule arg_cong)
  show "declared_in tc' c = declared_in tc c" unfolding ds(1) declared_in_def by simp
qed (use assms in \<open>auto simp: redepend_def\<close>)

lemma named_by_clause_safe:
  assumes "tables_ok tc" and "declared_in tc c"
  shows "\<exists>ns. named_by_clause tc c = Inr ns \<and> set ns \<subseteq> emitted tc"
proof (cases "jc_name c \<in> set (dict_keys (tc_entry_phase tc))")
  case True
  then show ?thesis
    using tables_okD(7) [OF assms(1) map_of_snd, of "jc_name c"]
    by (cases "map_of (tc_entry_steps tc) (jc_name c)") (simp_all add: named_by_clause_def)
next
  case False
  then show ?thesis using assms effective_safe [OF assms(1), of "jc_name c"] by (simp add: named_by_clause_def declared_in_def)
qed

lemma resolve_requires_safe:
  assumes "tables_ok tc" and "heads_ok tc heads"
  shows "safe (resolve_requires heads part tc) (\<lambda>tc'. tables_ok tc' \<and> redepend tc tc')"
  unfolding resolve_requires_def
proof (rule safe_rfold)
  fix x tc1
  assume x: "x \<in> set heads" and ok: "tables_ok tc1 \<and> redepend tc tc1"
  obtain e p head where xe: "x = (e, p, head)" by (cases x)
  have h: "head \<in> emitted tc1" "\<forall>c\<in>set (en_require e). declared_in tc1 c"
    using assms(2) x ok redepend_tables [of tc tc1] unfolding heads_ok_def xe by auto
  have "safe (rfold (\<lambda>c tc. rbind (named_by_clause tc c) (\<lambda>named. join_steps c named p head part tc)) (en_require e) tc1)
      (\<lambda>tc'. tables_ok tc' \<and> redepend tc tc')"
  proof (rule safe_rfold [where I = "\<lambda>tc'. tables_ok tc' \<and> redepend tc tc'", OF ok])
    fix c tc2
    assume c: "c \<in> set (en_require e)" and ok2: "tables_ok tc2 \<and> redepend tc tc2"
    have same: "emitted tc2 = emitted tc1" "declared_in tc2 c = declared_in tc1 c"
      using redepend_tables [of tc tc1] redepend_tables [of tc tc2] ok ok2 by simp_all
    then obtain ns where ns: "named_by_clause tc2 c = Inr ns" "set ns \<subseteq> emitted tc2"
      using named_by_clause_safe [OF conjunct1 [OF ok2], of c] h(2) c by auto
    have "safe (join_steps c ns p head part tc2) (\<lambda>tc'. tables_ok tc' \<and> redepend tc2 tc')"
      by (rule join_steps_safe) (use ok2 ns(2) h(1) same in auto)
    then have "safe (join_steps c ns p head part tc2) (\<lambda>tc'. tables_ok tc' \<and> redepend tc tc')"
      by (rule safe_mono) (use ok2 redepend_trans in blast)
    then show "safe (rbind (named_by_clause tc2 c) (\<lambda>named. join_steps c named p head part tc2))
        (\<lambda>tc'. tables_ok tc' \<and> redepend tc tc')" using ns(1) by simp
  qed
  then show "safe ((\<lambda>(e, p, head). rfold (\<lambda>c tc. rbind (named_by_clause tc c)
      (\<lambda>named. join_steps c named p head part tc)) (en_require e)) x tc1) (\<lambda>tc'. tables_ok tc' \<and> redepend tc tc')"
    unfolding xe by simp
qed (simp add: assms(1))

text \<open>The steps of an entry enter the tables.\<close>

lemma same_tablesD:
  assumes "same_tables tc tc'"
  shows "tc_steps tc' = tc_steps tc" and "tc_phase_steps tc' = tc_phase_steps tc"
    and "tc_phase_after tc' = tc_phase_after tc" and "tc_entry_steps tc' = tc_entry_steps tc"
    and "tc_entry_phase tc' = tc_entry_phase tc"
  using assms by (simp_all add: same_tables_def)

lemma extend_steps_sub:
  assumes "\<forall>ns\<in>set (map snd d). set ns \<subseteq> M" and "set names \<subseteq> M"
  shows "\<forall>ns\<in>set (map snd (extend_steps k names d)). set ns \<subseteq> M"
proof
  fix ns
  assume "ns \<in> set (map snd (extend_steps k names d))"
  from snd_update [OF this [unfolded extend_steps_def]] show "set ns \<subseteq> M"
  proof
    assume "ns = (case map_of d k of Some ns \<Rightarrow> ns | None \<Rightarrow> []) @ names"
    moreover have "\<forall>ns. map_of d k = Some ns \<longrightarrow> set ns \<subseteq> M" using assms(1) map_of_snd by fast
    ultimately show ?thesis using assms(2) by (auto split: option.splits)
  qed (use assms(1) in blast)
qed

lemma extend_steps_keys [simp]: "k \<in> set (dict_keys d) \<Longrightarrow> dict_keys (extend_steps k names d) = dict_keys d"
  unfolding extend_steps_def by (rule dict_keys_again)

lemma extend_steps_key_set: "set (dict_keys (extend_steps k names d)) = insert k (set (dict_keys d))"
  unfolding extend_steps_def by (rule dict_keys_set)

lemma enter_entry_safe:
  assumes ok: "tables_ok tc" and heads: "heads_ok tc heads"
    and after: "set after \<subseteq> set (dict_keys (tc_phase_after tc))" and ph: "ph_name ph \<in> set (dict_keys (tc_phase_after tc))"
  shows "safe (enter_entry t ph after (i, e, ps) (heads, tc)) (\<lambda>(heads', tc'). tables_ok tc' \<and> heads_ok tc' heads'
    \<and> tc_phase_after tc' = tc_phase_after tc \<and> tc_entry_phase tc' = tc_entry_phase tc
    \<and> set (dict_keys (tc_entry_steps tc')) = set (dict_keys (tc_entry_steps tc)) \<union> set_option (en_id e))"
  unfolding enter_entry_def prod.case Let_def
proof (rule safe_rbind [OF soft_links_safe [OF ok after]])
  fix soft
  assume soft: "set soft \<subseteq> emitted tc \<and> (\<forall>c\<in>set (en_require e). declared_in tc c)"
  obtain ss hs tc1 where em: "emit_entry t (ph_name ph) [Inl (ph_name ph), position_part e i] (ph_fail_fast ph) soft (en_ops e) ps tc
      = (ss, hs, tc1)" by (metis prod_cases3)
  obtain nss where f: "length nss = length ps" "\<forall>ns\<in>set nss. length ns = length (en_ops e)" "map ps_name ss = concat nss"
      "hs = chain_heads ps nss" "tc_deps tc1 = tc_deps tc @ chains soft (en_ops e) nss"
      "tc_where tc1 = tc_where tc @ placed_chains ps nss" "named_ok tc1" "same_tables tc tc1"
      "\<forall>s\<in>set ss. ps_target s \<in> Some ` set ps \<and> ps_deps s = [] \<and> ps_command s \<noteq> None \<and> ps_group s = ph_name ph"
    by (rule emit_entry_facts [OF em tables_okD(1) [OF ok]])
  note same = same_tablesD [OF f(8)]
  let ?tc = "tc1\<lparr>tc_steps := tc_steps tc1 @ ss, tc_phase_steps := extend_steps (ph_name ph) (map ps_name ss) (tc_phase_steps tc1),
      tc_entry_steps := (case en_id e of None \<Rightarrow> tc_entry_steps tc1
        | Some i \<Rightarrow> extend_steps i (map ps_name ss) (tc_entry_steps tc1))\<rparr>"
  have keys1: "dict_keys (tc_deps tc1) = dict_keys (tc_deps tc) @ concat nss"
    unfolding f(5) by (simp add: chains_keys [OF f(2)])
  have names: "set (map ps_name ss) \<subseteq> emitted tc1" unfolding keys1 f(3) by simp
  have grow: "emitted tc \<subseteq> emitted tc1" unfolding keys1 by simp
  have on: "\<forall>(n, ds)\<in>set (tc_deps tc1). \<forall>d\<in>set ds. dp_on d \<in> emitted tc1"
  proof (intro ballI, clarify)
    fix n ds d
    assume "(n, ds) \<in> set (tc_deps tc1)" and d: "d \<in> set ds"
    then consider "(n, ds) \<in> set (tc_deps tc)" | "(n, ds) \<in> set (chains soft (en_ops e) nss)" unfolding f(5) by auto
    then show "dp_on d \<in> emitted tc1"
    proof cases
      case 1
      then show ?thesis using tables_okD(3) [OF ok _ d] grow by blast
    next
      case 2
      from chains_on [OF this d] show ?thesis using soft grow unfolding keys1 by auto
    qed
  qed
  have phs: "\<forall>ns\<in>set (map snd (extend_steps (ph_name ph) (map ps_name ss) (tc_phase_steps tc1))). set ns \<subseteq> emitted tc1"
    by (rule extend_steps_sub [OF _ names]) (use tables_okD(6) [OF ok] grow same(2) in \<open>auto simp del: set_map\<close>)
  have ens: "\<forall>ns\<in>set (map snd (tc_entry_steps ?tc)). set ns \<subseteq> emitted tc1"
  proof -
    have "\<forall>ns\<in>set (map snd (tc_entry_steps tc1)). set ns \<subseteq> emitted tc1"
      using tables_okD(7) [OF ok] grow same(4) by (auto simp del: set_map)
    then show ?thesis using extend_steps_sub [OF _ names] by (auto split: option.split simp del: set_map)
  qed
  have pkeys: "dict_keys (extend_steps (ph_name ph) (map ps_name ss) (tc_phase_steps tc1)) = dict_keys (tc_phase_after tc)"
    using ph tables_okD(5) [OF ok] by (simp add: same(2))
  have steps: "\<forall>s\<in>set (tc_steps tc1 @ ss). ps_target s \<noteq> None \<and> ps_command s \<noteq> None"
    using tables_okD(9) [OF ok] f(9) same(1) by auto
  have "tables_ok ?tc"
    using f(7) ok on phs ens pkeys steps keys1 unfolding tables_ok_def
    by (simp add: named_ok_def same f(3) del: set_map set_append)
  moreover have "heads_ok ?tc (heads @ map (\<lambda>(p, h). (e, p, h)) hs)"
  proof -
    have decl: "declared_in ?tc c = declared_in tc c" for c by (simp add: declared_in_def same)
    have "h \<in> emitted tc1" if "(p, h) \<in> set hs" for p h
      using chain_heads_in that unfolding f(4) keys1 by fastforce
    then show ?thesis using heads soft grow unfolding heads_ok_def by (auto simp: decl)
  qed
  moreover have "set (dict_keys (tc_entry_steps ?tc)) = set (dict_keys (tc_entry_steps tc)) \<union> set_option (en_id e)"
    by (simp add: same(4) extend_steps_key_set [simplified] split: option.split)
  ultimately show "safe (case emit_entry t (ph_name ph) [Inl (ph_name ph), position_part e i] (ph_fail_fast ph) soft (en_ops e) ps tc of
       (ss, hs, tc1) \<Rightarrow> Inr (heads @ map (\<lambda>(p, h). (e, p, h)) hs,
          tc1\<lparr>tc_steps := tc_steps tc1 @ ss, tc_phase_steps := extend_steps (ph_name ph) (map ps_name ss) (tc_phase_steps tc1),
            tc_entry_steps := (case en_id e of None \<Rightarrow> tc_entry_steps tc1
              | Some i \<Rightarrow> extend_steps i (map ps_name ss) (tc_entry_steps tc1))\<rparr>))
     (\<lambda>(heads', tc'). tables_ok tc' \<and> heads_ok tc' heads' \<and> tc_phase_after tc' = tc_phase_after tc
       \<and> tc_entry_phase tc' = tc_entry_phase tc
       \<and> set (dict_keys (tc_entry_steps tc')) = set (dict_keys (tc_entry_steps tc)) \<union> set_option (en_id e))"
    unfolding em by (simp add: same)
qed

lemma entries_entered:
  assumes "tables_ok tc" and "heads_ok tc heads" and "set after \<subseteq> set (dict_keys (tc_phase_after tc))"
    and "ph_name ph \<in> set (dict_keys (tc_phase_after tc))"
  shows "safe (rfold (enter_entry t ph after) xs (heads, tc)) (\<lambda>(heads', tc'). tables_ok tc' \<and> heads_ok tc' heads'
    \<and> tc_phase_after tc' = tc_phase_after tc \<and> tc_entry_phase tc' = tc_entry_phase tc
    \<and> set (dict_keys (tc_entry_steps tc')) = set (dict_keys (tc_entry_steps tc)) \<union> (\<Union>(i, e, ps)\<in>set xs. set_option (en_id e)))"
  using assms
proof (induction xs arbitrary: heads tc)
  case (Cons x xs)
  obtain i e ps where x: "x = (i, e, ps)" by (cases x)
  show ?case unfolding rfold.simps x
  proof (rule safe_rbind [OF enter_entry_safe [OF Cons.prems]])
    fix acc
    assume a: "case acc of (heads', tc') \<Rightarrow> tables_ok tc' \<and> heads_ok tc' heads' \<and> tc_phase_after tc' = tc_phase_after tc
      \<and> tc_entry_phase tc' = tc_entry_phase tc
      \<and> set (dict_keys (tc_entry_steps tc')) = set (dict_keys (tc_entry_steps tc)) \<union> set_option (en_id e)"
    obtain heads1 tc1 where acc: "acc = (heads1, tc1)" by force
    then have "safe (rfold (enter_entry t ph after) xs (heads1, tc1)) (\<lambda>(heads', tc'). tables_ok tc' \<and> heads_ok tc' heads'
        \<and> tc_phase_after tc' = tc_phase_after tc1 \<and> tc_entry_phase tc' = tc_entry_phase tc1
        \<and> set (dict_keys (tc_entry_steps tc')) = set (dict_keys (tc_entry_steps tc1)) \<union> (\<Union>(i, e, ps)\<in>set xs. set_option (en_id e)))"
      using a Cons.prems(3,4) by (intro Cons.IH) simp_all
    then show "safe (rfold (enter_entry t ph after) xs acc) (\<lambda>(heads', tc'). tables_ok tc' \<and> heads_ok tc' heads'
        \<and> tc_phase_after tc' = tc_phase_after tc \<and> tc_entry_phase tc' = tc_entry_phase tc
        \<and> set (dict_keys (tc_entry_steps tc')) = set (dict_keys (tc_entry_steps tc))
            \<union> (\<Union>(i, e, ps)\<in>set ((i, e, ps) # xs). set_option (en_id e)))"
      unfolding acc by (rule safe_mono) (use a acc in \<open>auto simp: Un_assoc\<close>)
  qed
qed simp

lemma zipped_entries:
  "length chosen = length es \<Longrightarrow> (\<Union>(i, e, ps)\<in>set (enumerate 0 (zip es chosen)). F e) = (\<Union>e\<in>set es. F e)"
proof -
  assume len: "length chosen = length es"
  have "(\<Union>(i, e, ps)\<in>set (enumerate k (zip es chosen)). F e) = (\<Union>(e, ps)\<in>set (zip es chosen). F e)" for k
    by (force simp: in_set_conv_nth nth_enumerate_eq)
  moreover have "(\<Union>(e, ps)\<in>set (zip es chosen). F e) = (\<Union>e\<in>fst ` set (zip es chosen). F e)" by auto
  ultimately show ?thesis using len by (simp flip: set_map)
qed

lemma entries_done_redepend:
  assumes "redepend tc tc'"
  shows "entries_done tc' = entries_done tc"
  by (simp add: entries_done_def redepend_tables(3,4) [OF assms])

lemma compile_phase_safe:
  assumes "tables_ok tc" and "entries_done tc"
  shows "safe (compile_phase t bs ph previous tc) (\<lambda>tc'. tables_ok tc' \<and> entries_done tc')"
  unfolding compile_phase_def Let_def
proof (rule safe_rbind [OF declare_phase_safe [OF assms(1)]])
  fix acc
  assume d: "declare_phase ph previous tc = Inr acc" and a: "case acc of (after, tc') \<Rightarrow> tables_ok tc' \<and> set after \<subseteq> set (dict_keys (tc_phase_after tc'))
    \<and> ph_name ph \<in> set (dict_keys (tc_phase_after tc'))
    \<and> set (dict_keys (tc_entry_phase tc')) = set (dict_keys (tc_entry_phase tc)) \<union> (\<Union>e\<in>set (ph_entries ph). set_option (en_id e))
    \<and> tc_entry_steps tc' = tc_entry_steps tc"
  obtain after tc1 where acc: "acc = (after, tc1)" by force
  note a1 = a [unfolded acc prod.case]
  have pn: "ph_name ph \<in> set (dict_keys (tc_phase_after tc1))" using a1 by blast
  show "safe (case acc of (after, tc1) \<Rightarrow> rbind (selected_targets bs (InPhase (ph_name ph)) (ph_entries ph)) (\<lambda>chosen.
      rbind (rfold (enter_entry t ph after) (enumerate 0 (zip (ph_entries ph) chosen)) ([], tc1)) (\<lambda>(heads, tc2).
        resolve_requires heads (InPhase (ph_name ph)) tc2))) (\<lambda>tc'. tables_ok tc' \<and> entries_done tc')"
    unfolding acc prod.case
  proof (rule safe_rbind [OF selected_safe])
    fix chosen :: "placement list list"
    assume ch: "length chosen = length (ph_entries ph) \<and> (\<forall>ps\<in>set chosen. ps \<noteq> [])"
    have "heads_ok tc1 []" by (simp add: heads_ok_def)
    note entered = entries_entered [OF conjunct1 [OF a1] this conjunct1 [OF conjunct2 [OF a1]] pn,
        of t "enumerate 0 (zip (ph_entries ph) chosen)"]
    have ed: "entries_done tc'"
      if "set (dict_keys (tc_entry_steps tc')) = set (dict_keys (tc_entry_steps tc1))
          \<union> (\<Union>(i, e, ps)\<in>set (enumerate 0 (zip (ph_entries ph) chosen)). set_option (en_id e))"
        and "tc_entry_phase tc' = tc_entry_phase tc1" for tc'
      using that a1 assms(2) unfolding entries_done_def zipped_entries [OF conjunct1 [OF ch]] by auto
    have "safe (rfold (enter_entry t ph after) (enumerate 0 (zip (ph_entries ph) chosen)) ([], tc1)) (\<lambda>(heads', tc'). tables_ok tc' \<and> heads_ok tc' heads'
      \<and> entries_done tc')"
      by (rule safe_mono [OF entered]) (simp only: prod.case_eq_if ed)
    then show "safe (rbind (rfold (enter_entry t ph after) (enumerate 0 (zip (ph_entries ph) chosen)) ([], tc1)) (\<lambda>(heads, tc2).
        resolve_requires heads (InPhase (ph_name ph)) tc2)) (\<lambda>tc'. tables_ok tc' \<and> entries_done tc')"
    proof (rule safe_rbind)
      fix acc2
      assume "case acc2 of (heads', tc') \<Rightarrow> tables_ok tc' \<and> heads_ok tc' heads' \<and> entries_done tc'"
      then obtain heads tc2 where t2: "acc2 = (heads, tc2)" "tables_ok tc2" "heads_ok tc2 heads" "entries_done tc2" by (cases acc2) auto
      show "safe (case acc2 of (heads, tc2) \<Rightarrow> resolve_requires heads (InPhase (ph_name ph)) tc2) (\<lambda>tc'. tables_ok tc' \<and> entries_done tc')"
        unfolding t2(1) prod.case
        by (rule safe_mono [OF resolve_requires_safe [OF t2(2,3)]])
          (use t2(4) entries_done_redepend in blast)
    qed
  qed
qed

lemma compile_phases_safe:
  "tables_ok tc \<Longrightarrow> entries_done tc \<Longrightarrow> safe (compile_phases t bs phs previous tc) (\<lambda>tc'. tables_ok tc' \<and> entries_done tc')"
proof (induction phs arbitrary: previous tc)
  case (Cons ph phs)
  show ?case unfolding compile_phases.simps
    by (rule safe_rbind [OF compile_phase_safe [OF Cons.prems]]) (rule Cons.IH, simp_all)
qed simp

subsection \<open>Cleanups only add to what the phases emitted\<close>

text \<open>\<open>own tc0 ns tc\<close>: since \<open>tc0\<close> the steps \<open>ns\<close> were emitted, and they depend on each other only.\<close>

definition own :: "table_compiler \<Rightarrow> string list \<Rightarrow> table_compiler \<Rightarrow> bool" where
  "own tc0 ns tc \<longleftrightarrow> named_ok tc \<and> same_tables tc0 tc
    \<and> (\<exists>new. tc_deps tc = tc_deps tc0 @ new \<and> dict_keys new = ns
        \<and> (\<forall>(n, ds)\<in>set new. \<forall>d\<in>set ds. dp_on d \<in> set ns))"

lemma own_start: "named_ok tc \<Longrightarrow> own tc [] tc"
  by (simp add: own_def)

lemma own_emits:
  assumes "own tc0 ms tc" and "emit_entry t owner path stated [] specs ps tc = (ss, hs, tc')"
  shows "own tc0 (ms @ map ps_name ss) tc' \<and> snd ` set hs \<subseteq> set (map ps_name ss)
    \<and> (\<forall>s\<in>set ss. ps_target s \<noteq> None \<and> ps_command s \<noteq> None)"
proof -
  obtain new where new: "tc_deps tc = tc_deps tc0 @ new" "dict_keys new = ms"
      "\<forall>(n, ds)\<in>set new. \<forall>d\<in>set ds. dp_on d \<in> set ms" and ok: "named_ok tc" "same_tables tc0 tc"
    using assms(1) by (auto simp: own_def)
  obtain nss where f: "length nss = length ps" "\<forall>ns\<in>set nss. length ns = length specs" "map ps_name ss = concat nss"
      "hs = chain_heads ps nss" "tc_deps tc' = tc_deps tc @ chains [] specs nss" "named_ok tc'" "same_tables tc tc'"
      "\<forall>s\<in>set ss. ps_target s \<in> Some ` set ps \<and> ps_deps s = [] \<and> ps_command s \<noteq> None \<and> ps_group s = owner"
    by (rule emit_entry_facts [OF assms(2) ok(1)])
  let ?new = "new @ chains [] specs nss"
  have on: "dp_on d \<in> set (ms @ concat nss)" if "(n, ds) \<in> set ?new" "d \<in> set ds" for n ds d
  proof (cases "(n, ds) \<in> set new")
    case True
    then show ?thesis using new(3) that(2) by auto
  next
    case False
    then have "(n, ds) \<in> set (chains [] specs nss)" using that(1) by simp
    from chains_on [OF this that(2)] show ?thesis by simp
  qed
  have "own tc0 (ms @ map ps_name ss) tc'"
    unfolding own_def f(3)
    using f(5,6) new(1,2) on same_tables_trans [OF ok(2) f(7)] chains_keys [OF f(2), of "[]"]
    by (intro conjI exI [of _ ?new]) auto
  moreover have "snd ` set hs \<subseteq> set (map ps_name ss)"
    unfolding f(3,4) using chain_heads_in by fastforce
  ultimately show ?thesis using f(8) by auto
qed

lemma dict_set_append: "k \<notin> set (dict_keys xs) \<Longrightarrow> dict_set k v (xs @ ys) = xs @ dict_set k v ys"
  by (induction xs) auto

lemma own_joins:
  assumes "own tc0 ms tc" and "set named \<subseteq> set ms" and "head \<in> set ms"
  shows "safe (join_steps c named p head part tc) (own tc0 ms)"
proof (cases "named = []")
  case False
  obtain new where new: "tc_deps tc = tc_deps tc0 @ new" "dict_keys new = ms"
      "\<forall>(n, ds)\<in>set new. \<forall>d\<in>set ds. dp_on d \<in> set ms" and ok: "named_ok tc" "same_tables tc0 tc"
    using assms(1) by (auto simp: own_def)
  have "set named \<subseteq> emitted tc" using assms(2) new(1,2) by auto
  then have "safe (rbind (narrowed tc c named p) (\<lambda>ns.
       if ns = [] then Inl (EmptyJoin part (jc_name c) (jc_join c) (pl_device p))
       else rbind (key_of (tc_deps tc) head) (\<lambda>ds.
         Inr (tc\<lparr>tc_deps := dict_set head (ds @ map (\<lambda>n. \<lparr>dp_on = n, dp_kind = jc_on c\<rparr>) ns) (tc_deps tc)\<rparr>))))
     (own tc0 ms)"
  proof (rule safe_rbind [OF narrowed_safe [OF ok(1)]])
    fix ns
    assume ns: "set ns \<subseteq> set named"
    have fresh: "head \<notin> set (dict_keys (tc_deps tc0))"
      using ok(1) assms(3) unfolding named_ok_def new(1) by (auto simp: new(2) [symmetric])
    obtain ds where ds: "map_of new head = Some ds" using assms(3) unfolding new(2) [symmetric] by (metis ex_map_of)
    have "map_of (tc_deps tc0) head = None" using fresh unfolding map_of_None_key .
    then have look: "map_of (tc_deps tc) head = Some ds" using ds by (simp add: new(1) map_add_def)
    let ?new = "ds @ map (\<lambda>n. \<lparr>dp_on = n, dp_kind = jc_on c\<rparr>) ns"
    have upd: "dict_set head ?new (tc_deps tc) = tc_deps tc0 @ dict_set head ?new new"
      unfolding new(1) by (rule dict_set_append [OF fresh])
    have keys: "dict_keys (dict_set head ?new new) = ms" using assms(3) new(2) by (simp add: dict_keys_again)
    have on: "dp_on d \<in> set ms" if "(n, es) \<in> set (dict_set head ?new new)" "d \<in> set es" for n es d
    proof (cases "(n, es) \<in> set new")
      case True
      then show ?thesis using new(3) that(2) by auto
    next
      case False
      then have "es = ?new" using deps_set [OF that(1)] by blast
      then show ?thesis
        using that(2) new(3) map_of_SomeD [OF ds] subsetD [OF subset_trans [OF ns assms(2)]] by auto
    qed
    let ?tc = "tc\<lparr>tc_deps := dict_set head ?new (tc_deps tc)\<rparr>"
    have "dict_keys (tc_deps ?tc) = dict_keys (tc_deps tc)" using upd keys new(1,2) by simp
    then have "named_ok ?tc" using ok(1) by (simp add: named_ok_def del: set_map)
    then have "own tc0 ms ?tc" using ok(2) upd keys on unfolding own_def same_tables_def by auto
    then show "safe (if ns = [] then Inl (EmptyJoin part (jc_name c) (jc_join c) (pl_device p))
       else rbind (key_of (tc_deps tc) head) (\<lambda>ds.
         Inr (tc\<lparr>tc_deps := dict_set head (ds @ map (\<lambda>n. \<lparr>dp_on = n, dp_kind = jc_on c\<rparr>) ns) (tc_deps tc)\<rparr>)))
     (own tc0 ms)"
      using look by (simp add: key_of_def)
  qed
  then show ?thesis using False by (simp add: join_steps_def)
qed (simp add: join_steps_def)

lemma settled_safe:
  assumes "\<forall>s\<in>set ss. ps_name s \<in> emitted tc"
  shows "safe (settled_steps tc ss) (\<lambda>ss'. list_all2 (\<lambda>s s'. \<exists>ds. map_of (tc_deps tc) (ps_name s) = Some ds
    \<and> s' = s\<lparr>ps_deps := ds\<rparr>) ss ss')"
  using assms
proof (induction ss)
  case (Cons s ss)
  then obtain ds where ds: "map_of (tc_deps tc) (ps_name s) = Some ds" by (metis ex_map_of list.set_intros(1))
  have "safe (settled_steps tc ss) (\<lambda>ss'. list_all2 (\<lambda>s s'. \<exists>ds. map_of (tc_deps tc) (ps_name s) = Some ds
    \<and> s' = s\<lparr>ps_deps := ds\<rparr>) ss ss')" using Cons by simp
  then show ?case using ds by (auto simp: settled_steps_def key_of_def intro!: safe_rbind)
qed (simp add: settled_steps_def)

text \<open>What \<open>lower\<close> asks of a list of steps.\<close>

definition lowerable :: "planned_step list \<Rightarrow> bool" where
  "lowerable ss \<longleftrightarrow> checked ss = Inr (step_dict ss)"

lemma settled_lowerable:
  assumes "list_all2 (\<lambda>s s'. \<exists>ds. map_of deps (ps_name s) = Some ds \<and> s' = s\<lparr>ps_deps := ds\<rparr>) ss ss'"
    and "distinct (map ps_name ss)" and "\<forall>s\<in>set ss. ps_target s \<noteq> None \<and> ps_command s \<noteq> None"
    and "\<forall>s\<in>set ss. \<forall>ds. map_of deps (ps_name s) = Some ds \<longrightarrow> (\<forall>d\<in>set ds. dp_on d \<in> set (map ps_name ss))"
  shows "lowerable ss' \<and> map ps_name ss' = map ps_name ss"
proof -
  have names: "map ps_name ss' = map ps_name ss"
    using assms(1) by (induction rule: list_all2_induct) auto
  have mem: "\<exists>s\<in>set ss. \<exists>ds. map_of deps (ps_name s) = Some ds \<and> s' = s\<lparr>ps_deps := ds\<rparr>" if "s' \<in> set ss'" for s'
    using assms(1) that by (induction rule: list_all2_induct) auto
  have "(\<forall>s\<in>set ss'. paired s) \<and> (\<forall>s\<in>set ss'. \<forall>d\<in>set (ps_deps s). dp_on d \<in> ps_name ` set ss')"
    using mem assms(3,4) names unfolding paired_def set_map [symmetric] by fastforce
  then show ?thesis unfolding lowerable_def checked_ok using assms(2) names by metis
qed

lemma named_distinct:
  "own tc0 ns tc \<Longrightarrow> distinct ns \<and> set ns \<subseteq> emitted tc"
  unfolding own_def named_ok_def by auto

lemma own_lookup:
  assumes "own tc0 ns tc" and "n \<in> set ns" and "map_of (tc_deps tc) n = Some ds" and "d \<in> set ds"
  shows "dp_on d \<in> set ns"
proof -
  obtain new where new: "tc_deps tc = tc_deps tc0 @ new" "dict_keys new = ns"
      "\<forall>(n, ds)\<in>set new. \<forall>d\<in>set ds. dp_on d \<in> set ns" and ok: "named_ok tc"
    using assms(1) by (auto simp: own_def)
  have "n \<notin> set (dict_keys (tc_deps tc0))"
    using ok assms(2) unfolding named_ok_def new(1) by (auto simp: new(2) [symmetric])
  then have "(n, ds) \<in> set new" using map_of_SomeD [OF assms(3)] unfolding new(1) by force
  then show ?thesis using new(3) assms(4) by auto
qed

lemma own_prefix:
  assumes "own tc0 ns tc" and "n \<in> emitted tc0"
  shows "map_of (tc_deps tc) n = map_of (tc_deps tc0) n"
proof -
  obtain new where new: "tc_deps tc = tc_deps tc0 @ new" and ok: "named_ok tc" "dict_keys new = ns"
    using assms(1) by (auto simp: own_def)
  have "n \<notin> set (dict_keys new)" using ok(1) assms(2) unfolding named_ok_def new by auto
  then have "map_of new n = None" unfolding map_of_None_key .
  then show ?thesis unfolding new by (simp add: map_add_def split: option.split)
qed

lemma own_trans:
  assumes "own a ms b" and "own b ns c"
  shows "own a (ms @ ns) c"
proof -
  obtain new1 new2 where "tc_deps b = tc_deps a @ new1" "dict_keys new1 = ms" "tc_deps c = tc_deps b @ new2" "dict_keys new2 = ns"
      "\<forall>(n, ds)\<in>set new1. \<forall>d\<in>set ds. dp_on d \<in> set ms" "\<forall>(n, ds)\<in>set new2. \<forall>d\<in>set ds. dp_on d \<in> set ns"
    using assms by (auto simp: own_def)
  then show ?thesis
    using assms same_tables_trans unfolding own_def by (intro conjI exI [of _ "new1 @ new2"]) auto
qed

text \<open>One cleanup.\<close>

lemma declare_cleanup_safe:
  "safe (declare_cleanup spec part) (\<lambda>declared. set (map snd declared) \<subseteq> {[]}
    \<and> (\<forall>e\<in>set (cs_entries spec). \<forall>c\<in>set (en_require e). jc_name c \<in> set (dict_keys declared)))"
  unfolding declare_cleanup_def
proof (rule safe_rbind [OF safe_rfold [where I = "\<lambda>d. set (map snd d) \<subseteq> {[]}"]])
  fix e and d :: "(string, string list) dict"
  assume d: "set (map snd d) \<subseteq> {[]}"
  have "set (map snd (dict_set i [] d)) \<subseteq> {[]}" for i using snd_update [of _ i "[]" d] d by blast
  then show "safe (declare_cleanup_entry part e d) (\<lambda>d. set (map snd d) \<subseteq> {[]})"
    using d by (simp add: declare_cleanup_entry_def split: option.split del: set_map)
next
  fix declared :: "(string, string list) dict"
  assume d: "set (map snd declared) \<subseteq> {[]}"
  let ?outside = "sorted_names (filter (\<lambda>n. n \<notin> set (dict_keys declared)) (concat (map (\<lambda>e. map jc_name (en_require e)) (cs_entries spec))))"
  have "?outside = [] \<longleftrightarrow> (\<forall>e\<in>set (cs_entries spec). \<forall>c\<in>set (en_require e). jc_name c \<in> set (dict_keys declared))"
    unfolding sorted_names_def sort_eq_Nil dedup_eq_Nil filter_empty_conv by auto
  then show "safe (let outside = ?outside in if outside \<noteq> [] then Inl (OutsideRequires part outside) else Inr declared)
    (\<lambda>declared. set (map snd declared) \<subseteq> {[]}
      \<and> (\<forall>e\<in>set (cs_entries spec). \<forall>c\<in>set (en_require e). jc_name c \<in> set (dict_keys declared)))"
    using d by (simp add: Let_def del: set_map)
qed simp

definition cleanup_inv :: "table_compiler \<Rightarrow> cleanup_spec \<Rightarrow> string set
    \<Rightarrow> planned_step list \<times> entry_heads \<times> (string, string list) dict \<times> table_compiler \<Rightarrow> bool" where
  "cleanup_inv tc0 spec ids acc = (case acc of (steps, heads, declared, tc) \<Rightarrow>
     own tc0 (map ps_name steps) tc \<and> ids \<subseteq> set (dict_keys declared)
     \<and> (\<forall>ns\<in>set (map snd declared). set ns \<subseteq> set (map ps_name steps))
     \<and> (\<forall>(e, p, h)\<in>set heads. e \<in> set (cs_entries spec) \<and> h \<in> set (map ps_name steps))
     \<and> (\<forall>s\<in>set steps. ps_target s \<noteq> None \<and> ps_command s \<noteq> None))"

lemma cleanup_inv_step:
  assumes inv: "cleanup_inv tc0 spec ids acc" and e: "fst (snd pet) \<in> set (cs_entries spec)"
  shows "cleanup_inv tc0 spec ids (enter_cleanup_entry t spec pet acc)"
proof -
  obtain position e ps where pet: "pet = (position, e, ps)" by (cases pet)
  obtain steps heads declared tc where acc: "acc = (steps, heads, declared, tc)" by (cases acc)
  obtain ss hs tc1 where em: "emit_entry t (cs_name spec) [Inl ''cleanup'', Inl (cs_name spec), position_part e position]
      None [] (en_ops e) ps tc = (ss, hs, tc1)" by (metis prod_cases3)
  note inv' = inv [unfolded cleanup_inv_def acc prod.case]
  note em' = own_emits [OF conjunct1 [OF inv'] em]
  let ?names = "map ps_name (steps @ ss)"
  have declared: "\<forall>ns\<in>set (map snd (case en_id e of None \<Rightarrow> declared | Some i \<Rightarrow> extend_steps i (map ps_name ss) declared)). set ns \<subseteq> set ?names"
  proof -
    have "\<forall>ns\<in>set (map snd declared). set ns \<subseteq> set (map ps_name steps)" using inv' by (elim conjE)
    then have old: "\<forall>ns\<in>set (map snd declared). set ns \<subseteq> set ?names" unfolding map_append set_append by blast
    show ?thesis
    proof (cases "en_id e")
      case (Some i)
      show ?thesis unfolding Some option.case by (rule extend_steps_sub [OF old]) auto
    qed (use old in simp)
  qed
  have keys: "ids \<subseteq> set (dict_keys (case en_id e of None \<Rightarrow> declared | Some i \<Rightarrow> extend_steps i (map ps_name ss) declared))"
  proof -
    have "ids \<subseteq> set (dict_keys declared)" using inv' by (elim conjE)
    then show ?thesis by (cases "en_id e") (auto simp: extend_steps_key_set [simplified])
  qed
  have heads: "\<forall>(e', p, h)\<in>set (heads @ map (\<lambda>(p, h). (e, p, h)) hs). e' \<in> set (cs_entries spec) \<and> h \<in> set ?names"
  proof -
    have "\<forall>(e, p, h)\<in>set heads. e \<in> set (cs_entries spec) \<and> h \<in> set (map ps_name steps)" using inv' by (elim conjE)
    moreover have "h \<in> set (map ps_name ss)" if "(p, h) \<in> set hs" for p h using em' that by force
    moreover have "e \<in> set (cs_entries spec)" using e pet by simp
    ultimately show ?thesis by auto
  qed
  have "own tc0 ?names tc1" using em' by simp
  then show ?thesis
    unfolding enter_cleanup_entry_def pet acc prod.case em Let_def cleanup_inv_def
    using declared keys heads inv' em' by (simp add: ball_Un del: set_map)
qed

lemma own_same: "own tc0 ns tc \<Longrightarrow> same_tables tc0 tc"
  by (simp add: own_def)

lemma cleanup_requires_safe:
  fixes declared :: "(string, string list) dict"
  assumes "own tc0 ns tc" and "\<forall>ms\<in>set (map snd declared). set ms \<subseteq> set ns"
    and "\<forall>(e, p, h)\<in>set heads. h \<in> set ns \<and> (\<forall>c\<in>set (en_require e). jc_name c \<in> set (dict_keys declared))"
  shows "safe (rfold (\<lambda>(e, p, head). rfold (\<lambda>c tc. rbind (key_of declared (jc_name c)) (\<lambda>named.
      join_steps c named p head part tc)) (en_require e)) heads tc) (own tc0 ns)"
proof (rule safe_rfold [where I = "own tc0 ns", OF assms(1)])
  fix x tc1
  assume x: "x \<in> set heads" and ok: "own tc0 ns tc1"
  obtain e p head where xe: "x = (e, p, head)" by (cases x)
  have h: "head \<in> set ns" "\<forall>c\<in>set (en_require e). jc_name c \<in> set (dict_keys declared)"
    using assms(3) x unfolding xe by auto
  have "safe (rfold (\<lambda>c tc. rbind (key_of declared (jc_name c)) (\<lambda>named. join_steps c named p head part tc)) (en_require e) tc1)
      (own tc0 ns)"
  proof (rule safe_rfold [where I = "own tc0 ns", OF ok])
    fix c tc2
    assume c: "c \<in> set (en_require e)" and ok2: "own tc0 ns tc2"
    have "safe (key_of declared (jc_name c)) (\<lambda>named. set named \<subseteq> set ns)"
      by (rule safe_key_values) (use h(2) c assms(2) in blast)+
    then show "safe (rbind (key_of declared (jc_name c)) (\<lambda>named. join_steps c named p head part tc2)) (own tc0 ns)"
      by (rule safe_rbind) (rule own_joins [OF ok2 _ h(1)])
  qed
  then show "safe ((\<lambda>(e, p, head). rfold (\<lambda>c tc. rbind (key_of declared (jc_name c)) (\<lambda>named.
      join_steps c named p head part tc)) (en_require e)) x tc1) (own tc0 ns)"
    unfolding xe by simp
qed

lemma arming_safe:
  assumes "entries_done tc" and "\<forall>ns\<in>set (map snd (tc_entry_steps tc)). set ns \<subseteq> M"
  shows "safe (arming_steps spec part tc) (\<lambda>armed. \<forall>xs. armed = Some xs \<longrightarrow> set xs \<subseteq> M)"
proof (cases "cs_armed_by spec")
  case (Some names)
  let ?unknown = "sorted_names (filter (\<lambda>n. n \<notin> set (dict_keys (tc_entry_phase tc))) names)"
  show ?thesis
  proof (cases "?unknown = []")
    case True
    then have "set names \<subseteq> set (dict_keys (tc_entry_steps tc))"
      using assms(1) unfolding sorted_names_def sort_eq_Nil dedup_eq_Nil filter_empty_conv entries_done_def by blast
    then have "safe (key_of (tc_entry_steps tc) n) (\<lambda>ns. set ns \<subseteq> M)" if "n \<in> set names" for n
      using that assms(2) by (intro safe_key_values) blast+
    then have "safe (rtraverse (key_of (tc_entry_steps tc)) names) (\<lambda>nss. \<forall>ns\<in>set nss. set ns \<subseteq> M)"
      by (rule safe_rtraverse)
    then have "safe (rbind (rtraverse (key_of (tc_entry_steps tc)) names) (\<lambda>nss. Inr (Some (concat nss))))
        (\<lambda>armed. \<forall>xs. armed = Some xs \<longrightarrow> set xs \<subseteq> M)"
      by (rule safe_rbind) auto
    then show ?thesis using Some True by (simp add: arming_steps_def)
  qed (simp add: arming_steps_def Some Let_def)
qed (simp add: arming_steps_def)

lemma compile_cleanup_safe:
  assumes "named_ok tc" and "entries_done tc" and "\<forall>ns\<in>set (map snd (tc_entry_steps tc)). set ns \<subseteq> M"
  shows "safe (compile_cleanup t bs spec tc) (\<lambda>(plan, tc'). (\<exists>ns. own tc ns tc') \<and> lowerable (cpl_steps plan)
    \<and> (\<forall>xs. cpl_armed_by plan = Some xs \<longrightarrow> set xs \<subseteq> M))"
  unfolding compile_cleanup_def Let_def
proof (rule safe_rbind [OF declare_cleanup_safe], rule safe_rbind [OF selected_safe])
  fix declared :: "(string, string list) dict" and chosen :: "placement list list"
  assume d: "set (map snd declared) \<subseteq> {[]}
      \<and> (\<forall>e\<in>set (cs_entries spec). \<forall>c\<in>set (en_require e). jc_name c \<in> set (dict_keys declared))"
    and len: "length chosen = length (cs_entries spec) \<and> (\<forall>ps\<in>set chosen. ps \<noteq> [])"
  let ?acc = "fold (enter_cleanup_entry t spec) (enumerate 0 (zip (cs_entries spec) chosen)) ([], [], declared, tc)"
  have cinv: "cleanup_inv tc spec (set (dict_keys declared)) ?acc"
  proof (rule fold_invariant [where Q = "\<lambda>pet. fst (snd pet) \<in> set (cs_entries spec)"])
    show "fst (snd x) \<in> set (cs_entries spec)" if "x \<in> set (enumerate 0 (zip (cs_entries spec) chosen))" for x
    proof -
      obtain i e ps where x: "x = (i, e, ps)" by (cases x)
      then have "(e, ps) \<in> set (zip (cs_entries spec) chosen)" using that by (metis enumerate_eq_zip set_zip_rightD)
      then show ?thesis unfolding x by (auto dest: set_zip_leftD)
    qed
    have "ms = []" if "ms \<in> set (map snd declared)" for ms using subsetD [OF conjunct1 [OF d] that] by (rule singletonD)
    then have "\<forall>ms\<in>set (map snd declared). set ms \<subseteq> {}" by simp
    then show "cleanup_inv tc spec (set (dict_keys declared)) ([], [], declared, tc)"
      using own_start [OF assms(1)] by (simp add: cleanup_inv_def del: set_map)
  qed (rule cleanup_inv_step)
  obtain steps heads decl tc1 where acc: "?acc = (steps, heads, decl, tc1)" by (rule prod_cases4)
  have inv: "own tc (map ps_name steps) tc1" "set (dict_keys declared) \<subseteq> set (dict_keys decl)"
      "\<forall>ns\<in>set (map snd decl). set ns \<subseteq> set (map ps_name steps)"
      "\<forall>(e, p, h)\<in>set heads. e \<in> set (cs_entries spec) \<and> h \<in> set (map ps_name steps)"
      "\<forall>s\<in>set steps. ps_target s \<noteq> None \<and> ps_command s \<noteq> None"
    using cinv unfolding acc cleanup_inv_def prod.case by simp_all
  have heads: "\<forall>(e, p, h)\<in>set heads. h \<in> set (map ps_name steps)
      \<and> (\<forall>c\<in>set (en_require e). jc_name c \<in> set (dict_keys decl))"
    using inv(2,4) d by blast
  have settle: "safe (rbind (settled_steps tc2 steps) (\<lambda>settled. rbind (arming_steps spec (InCleanup (cs_name spec)) tc2) (\<lambda>armed.
      Inr (\<lparr>cpl_steps = settled, cpl_origin = \<lparr>or_source = cs_name spec, or_path = [], or_reason = ''''\<rparr>,
        cpl_when = cs_when spec, cpl_timeout = cs_timeout spec, cpl_armed_by = armed\<rparr>, tc2))))
      (\<lambda>(plan, tc'). (\<exists>ns. own tc ns tc') \<and> lowerable (cpl_steps plan)
        \<and> (\<forall>xs. cpl_armed_by plan = Some xs \<longrightarrow> set xs \<subseteq> M))"
    if own2: "own tc (map ps_name steps) tc2" for tc2
  proof (rule safe_rbind [OF settled_safe])
    show "\<forall>s\<in>set steps. ps_name s \<in> emitted tc2" using named_distinct [OF own2] by auto
    fix ss'
    assume ss: "list_all2 (\<lambda>s s'. \<exists>ds. map_of (tc_deps tc2) (ps_name s) = Some ds \<and> s' = s\<lparr>ps_deps := ds\<rparr>) steps ss'"
    have low: "lowerable ss'"
    proof (rule conjunct1 [OF settled_lowerable [OF ss conjunct1 [OF named_distinct [OF own2]] inv(5)]], intro ballI allI impI)
      fix s ds d
      assume "s \<in> set steps" "map_of (tc_deps tc2) (ps_name s) = Some ds" "d \<in> set ds"
      then show "dp_on d \<in> set (map ps_name steps)" by (intro own_lookup [OF own2, of "ps_name s" ds]) simp_all
    qed
    note same = same_tablesD [OF own_same [OF own2]]
    have done2: "entries_done tc2" using assms(2) by (simp add: entries_done_def same)
    have M2: "\<forall>ns\<in>set (map snd (tc_entry_steps tc2)). set ns \<subseteq> M" unfolding same by (rule assms(3))
    show "safe (rbind (arming_steps spec (InCleanup (cs_name spec)) tc2) (\<lambda>armed.
      Inr (\<lparr>cpl_steps = ss', cpl_origin = \<lparr>or_source = cs_name spec, or_path = [], or_reason = ''''\<rparr>,
        cpl_when = cs_when spec, cpl_timeout = cs_timeout spec, cpl_armed_by = armed\<rparr>, tc2)))
      (\<lambda>(plan, tc'). (\<exists>ns. own tc ns tc') \<and> lowerable (cpl_steps plan)
        \<and> (\<forall>xs. cpl_armed_by plan = Some xs \<longrightarrow> set xs \<subseteq> M))"
      by (rule safe_rbind [OF arming_safe [OF done2 M2]]) (use low own2 in auto)
  qed
  show "safe (case ?acc of (steps, heads, declared, tc1) \<Rightarrow>
     rbind (rfold (\<lambda>(e, p, head). rfold (\<lambda>c tc. rbind (key_of declared (jc_name c)) (\<lambda>named.
              join_steps c named p head (InCleanup (cs_name spec)) tc)) (en_require e)) heads tc1) (\<lambda>tc2.
     rbind (settled_steps tc2 steps) (\<lambda>settled.
     rbind (arming_steps spec (InCleanup (cs_name spec)) tc2) (\<lambda>armed.
       Inr (\<lparr>cpl_steps = settled, cpl_origin = \<lparr>or_source = cs_name spec, or_path = [], or_reason = ''''\<rparr>,
             cpl_when = cs_when spec, cpl_timeout = cs_timeout spec, cpl_armed_by = armed\<rparr>, tc2)))))
     (\<lambda>(plan, tc'). (\<exists>ns. own tc ns tc') \<and> lowerable (cpl_steps plan)
       \<and> (\<forall>xs. cpl_armed_by plan = Some xs \<longrightarrow> set xs \<subseteq> M))"
    unfolding acc prod.case
    by (rule safe_rbind [OF cleanup_requires_safe [OF inv(1,3) heads]]) (rule settle)
qed

lemma compile_cleanups_safe:
  assumes "named_ok tc" and "entries_done tc" and "\<forall>ns\<in>set (map snd (tc_entry_steps tc)). set ns \<subseteq> M"
  shows "safe (compile_cleanups t bs specs tc) (\<lambda>(plans, tc'). (\<exists>ns. own tc ns tc')
    \<and> (\<forall>plan\<in>set plans. lowerable (cpl_steps plan) \<and> (\<forall>xs. cpl_armed_by plan = Some xs \<longrightarrow> set xs \<subseteq> M)))"
  using assms
proof (induction specs arbitrary: tc)
  case Nil
  then show ?case using own_start by auto
next
  case (Cons spec specs)
  show ?case unfolding compile_cleanups.simps
  proof (rule safe_rbind [OF compile_cleanup_safe [OF Cons.prems]])
    fix acc :: "cleanup_plan \<times> table_compiler"
    assume a: "case acc of (plan, tc') \<Rightarrow> (\<exists>ns. own tc ns tc') \<and> lowerable (cpl_steps plan)
      \<and> (\<forall>xs. cpl_armed_by plan = Some xs \<longrightarrow> set xs \<subseteq> M)"
    obtain plan tc1 where acc: "acc = (plan, tc1)" by force
    obtain ns1 where ns1: "own tc ns1 tc1" using a unfolding acc by auto
    have later: "\<exists>ns. own tc ns c" if "own tc1 ns c" for ns c using own_trans [OF ns1 that] by (rule exI)
    note same = same_tablesD [OF own_same [OF ns1]]
    have "named_ok tc1" "entries_done tc1" "\<forall>ns\<in>set (map snd (tc_entry_steps tc1)). set ns \<subseteq> M"
      using ns1 Cons.prems(2,3) by (simp_all add: own_def entries_done_def same del: set_map)
    from Cons.IH [OF this]
    show "safe (case acc of (plan, tc1) \<Rightarrow> rbind (compile_cleanups t bs specs tc1) (\<lambda>(plans, tc2). Inr (plan # plans, tc2)))
      (\<lambda>(plans, tc'). (\<exists>ns. own tc ns tc')
        \<and> (\<forall>plan\<in>set plans. lowerable (cpl_steps plan) \<and> (\<forall>xs. cpl_armed_by plan = Some xs \<longrightarrow> set xs \<subseteq> M)))"
      unfolding acc prod.case
      by (rule safe_rbind) (use a acc later in auto)
  qed
qed

text \<open>An expanded table is what \<open>lower\<close> accepts: every list of steps is checked without an error.\<close>

lemma expand_table_safe:
  "safe (expand_table t bs) (\<lambda>(steps, plans). lowerable steps
    \<and> (\<forall>plan\<in>set plans. lowerable (cpl_steps plan)
        \<and> (\<forall>xs. cpl_armed_by plan = Some xs \<longrightarrow> set xs \<subseteq> set (map ps_name steps))))"
  unfolding expand_table_def
proof (rule safe_rbind [OF compile_phases_safe [OF tables_ok_new]])
  fix tc
  assume tc: "tables_ok tc \<and> entries_done tc"
  note ok = tables_okD [OF conjunct1 [OF tc]]
  have entries: "\<forall>ns\<in>set (map snd (tc_entry_steps tc)). set ns \<subseteq> emitted tc" using ok(7) by blast
  show "safe (rbind (compile_cleanups t bs (lt_cleanup t) tc) (\<lambda>(plans, tc1).
      rbind (settled_steps tc1 (tc_steps tc1)) (\<lambda>steps. Inr (steps, plans))))
    (\<lambda>(steps, plans). lowerable steps \<and> (\<forall>plan\<in>set plans. lowerable (cpl_steps plan)
        \<and> (\<forall>xs. cpl_armed_by plan = Some xs \<longrightarrow> set xs \<subseteq> set (map ps_name steps))))"
  proof (rule safe_rbind [OF compile_cleanups_safe [OF ok(1) conjunct2 [OF tc] entries]])
    fix acc :: "cleanup_plan list \<times> table_compiler"
    assume a: "case acc of (plans, tc') \<Rightarrow> (\<exists>ns. own tc ns tc')
      \<and> (\<forall>plan\<in>set plans. lowerable (cpl_steps plan) \<and> (\<forall>xs. cpl_armed_by plan = Some xs \<longrightarrow> set xs \<subseteq> emitted tc))"
    obtain plans tc1 where acc: "acc = (plans, tc1)" by force
    obtain ns where ns: "own tc ns tc1" using a unfolding acc by auto
    have names: "map ps_name (tc_steps tc1) = dict_keys (tc_deps tc)" and steps: "tc_steps tc1 = tc_steps tc"
      using ok(2) same_tablesD [OF own_same [OF ns]] by simp_all
    have dist: "distinct (map ps_name (tc_steps tc1))" using ok(1) unfolding names by (simp add: named_ok_def)
    have mem: "ps_name s \<in> emitted tc" if "s \<in> set (tc_steps tc1)" for s
      using that unfolding names [symmetric] set_map by (rule imageI)
    have "emitted tc \<subseteq> emitted tc1" using ns by (auto simp: own_def)
    then have "\<forall>s\<in>set (tc_steps tc1). ps_name s \<in> emitted tc1" using mem by blast
    then show "safe (case acc of (plans, tc1) \<Rightarrow> rbind (settled_steps tc1 (tc_steps tc1)) (\<lambda>steps. Inr (steps, plans)))
      (\<lambda>(steps, plans). lowerable steps \<and> (\<forall>plan\<in>set plans. lowerable (cpl_steps plan)
        \<and> (\<forall>xs. cpl_armed_by plan = Some xs \<longrightarrow> set xs \<subseteq> set (map ps_name steps))))"
      unfolding acc prod.case
    proof (rule safe_rbind [OF settled_safe])
      fix ss'
      assume ss: "list_all2 (\<lambda>s s'. \<exists>ds. map_of (tc_deps tc1) (ps_name s) = Some ds \<and> s' = s\<lparr>ps_deps := ds\<rparr>) (tc_steps tc1) ss'"
      have "lowerable ss' \<and> map ps_name ss' = map ps_name (tc_steps tc1)"
      proof (rule settled_lowerable [OF ss dist], unfold steps names [unfolded steps])
        show "\<forall>s\<in>set (tc_steps tc). ps_target s \<noteq> None \<and> ps_command s \<noteq> None" using ok(9) by blast
        show "\<forall>s\<in>set (tc_steps tc). \<forall>ds. map_of (tc_deps tc1) (ps_name s) = Some ds \<longrightarrow> (\<forall>d\<in>set ds. dp_on d \<in> emitted tc)"
        proof (intro ballI allI impI)
          fix s ds d
          assume s: "s \<in> set (tc_steps tc)" and ds: "map_of (tc_deps tc1) (ps_name s) = Some ds" and d: "d \<in> set ds"
          have "map_of (tc_deps tc) (ps_name s) = Some ds"
            using ds own_prefix [OF ns mem [unfolded steps, OF s]] by simp
          then show "dp_on d \<in> emitted tc" by (intro ok(3) [OF map_of_SomeD d])
        qed
      qed
      then have "lowerable ss'" "map ps_name ss' = dict_keys (tc_deps tc)" unfolding names by simp_all
      then show "safe (Inr (ss', plans)) (\<lambda>(steps, plans). lowerable steps \<and> (\<forall>plan\<in>set plans. lowerable (cpl_steps plan)
        \<and> (\<forall>xs. cpl_armed_by plan = Some xs \<longrightarrow> set xs \<subseteq> set (map ps_name steps))))"
        using a unfolding acc prod.case by (simp del: set_map)
    qed
  qed
qed

subsection \<open>Phases run in their order\<close>

text \<open>Which steps wait for which; requirements only ever add to it.\<close>

definition links_of :: "(string, dependency list) dict \<Rightarrow> (string \<times> string) set" where
  "links_of deps = {(n, m). \<exists>ds. (n, ds) \<in> set deps \<and> m \<in> dp_on ` set ds}"

lemma links_of_append [simp]: "links_of (a @ b) = links_of a \<union> links_of b"
  by (auto simp: links_of_def)

lemma links_of_extend:
  assumes "map_of d k = Some ds" and "distinct (dict_keys d)"
  shows "links_of d \<subseteq> links_of (dict_set k (ds @ extra) d)"
proof
  fix e
  assume "e \<in> links_of d"
  then obtain n m es where e: "e = (n, m)" "(n, es) \<in> set d" "m \<in> dp_on ` set es" by (auto simp: links_of_def)
  have look: "map_of d n = Some es" using assms(2) e(2) by (rule map_of_is_SomeI)
  have "map_of (dict_set k (ds @ extra) d) n = Some (if n = k then ds @ extra else es)"
    using look by simp
  then have "(n, if n = k then ds @ extra else es) \<in> set (dict_set k (ds @ extra) d)" by (rule map_of_SomeD)
  moreover have "m \<in> dp_on ` set (if n = k then ds @ extra else es)" using e(3) look assms(1) by auto
  ultimately show "e \<in> links_of (dict_set k (ds @ extra) d)" unfolding e(1) links_of_def by blast
qed

text \<open>What one step of the compilation keeps of the tables, and adds to the links.\<close>

definition grows :: "table_compiler \<Rightarrow> table_compiler \<Rightarrow> bool" where
  "grows tc tc' \<longleftrightarrow> named_ok tc' \<and> redepend tc tc' \<and> links_of (tc_deps tc) \<subseteq> links_of (tc_deps tc')"

lemma grows_refl: "named_ok tc \<Longrightarrow> grows tc tc"
  by (simp add: grows_def)

lemma grows_trans: "grows a b \<Longrightarrow> grows b c \<Longrightarrow> grows a c"
  unfolding grows_def using redepend_trans by blast

lemma join_grows:
  assumes "join_steps c named p head part tc = Inr tc'" and "named_ok tc"
  shows "grows tc tc'"
proof -
  obtain ns ds where ds: "map_of (tc_deps tc) head = Some ds"
    and tc': "tc' = tc\<lparr>tc_deps := dict_set head (ds @ map (\<lambda>n. \<lparr>dp_on = n, dp_kind = jc_on c\<rparr>) ns) (tc_deps tc)\<rparr>"
    using assms(1) by (auto simp: join_steps_def key_of_def rbind_Inr_iff split: if_splits option.splits)
  have keys: "dict_keys (tc_deps tc') = dict_keys (tc_deps tc)"
    unfolding tc' using map_of_Some_key [OF ds] by (simp add: dict_keys_again)
  then have "redepend tc tc'" by (auto simp: redepend_def tc')
  moreover have "named_ok tc'" using assms(2) keys by (simp add: named_ok_def tc')
  moreover have "links_of (tc_deps tc) \<subseteq> links_of (tc_deps tc')"
    using links_of_extend [OF ds, of "map (\<lambda>n. \<lparr>dp_on = n, dp_kind = jc_on c\<rparr>) ns"] assms(2) by (simp add: tc' named_ok_def)
  ultimately show ?thesis by (simp add: grows_def)
qed

lemma resolve_grows:
  assumes "resolve_requires heads part tc = Inr tc'" and "named_ok tc"
  shows "grows tc tc'"
proof (rule rfold_invariant [OF assms(1) [unfolded resolve_requires_def], where P = "grows tc"])
  fix x tc1 tc2
  assume ok: "grows tc tc1"
    and st: "(\<lambda>(e, p, head). rfold (\<lambda>c tc. rbind (named_by_clause tc c) (\<lambda>named. join_steps c named p head part tc)) (en_require e)) x tc1 = Inr tc2"
  obtain e p head where x: "x = (e, p, head)" by (cases x)
  show "grows tc tc2"
    using st unfolding x prod.case
  proof (rule rfold_invariant [where P = "grows tc"])
    fix c tc3 tc4
    assume "grows tc tc3" and "rbind (named_by_clause tc3 c) (\<lambda>named. join_steps c named p head part tc3) = Inr tc4"
    then show "grows tc tc4"
      using join_grows grows_trans unfolding rbind_Inr_iff by (metis grows_def)
  qed (rule ok)
qed (rule grows_refl [OF assms(2)])

text \<open>A chain of commands waits, command by command, for what its first one waits for.\<close>

lemma chain_waits:
  "length ns = length specs \<Longrightarrow> m \<in> set ns \<Longrightarrow> (m, q) \<in> (links_of (zip ns (chain_deps soft (Some q) ns specs)))\<^sup>+"
proof (induction soft "Some q" ns specs arbitrary: q rule: chain_deps.induct)
  case (1 soft n ns spec specs)
  let ?L = "links_of (zip (n # ns) (chain_deps soft (Some q) (n # ns) (spec # specs)))"
  have head: "(n, q) \<in> ?L" by (auto simp: links_of_def)
  have sub: "links_of (zip ns (chain_deps soft (Some n) ns specs)) \<subseteq> ?L" by (auto simp: links_of_def)
  show ?case
  proof (cases "m = n")
    case False
    then have "(m, n) \<in> (links_of (zip ns (chain_deps soft (Some n) ns specs)))\<^sup>+" using 1 by simp
    then have "(m, n) \<in> ?L\<^sup>+" by (rule trancl_mono) (rule sub)
    then show ?thesis using head by (rule trancl_into_trancl)
  qed (use head in blast)
qed auto

lemma chains_wait:
  assumes "ns \<in> set nss" and "length ns = length specs" and "m \<in> set ns" and "x \<in> set soft"
  shows "(m, x) \<in> (links_of (chains soft specs nss))\<^sup>+"
proof -
  obtain n ns' where ns: "ns = n # ns'" using assms(3) by (cases ns) auto
  obtain spec specs' where specs: "specs = spec # specs'" using assms(2) ns by (cases specs) auto
  let ?L = "links_of (zip ns (chain_deps soft None ns specs))"
  have head: "(n, x) \<in> ?L" using assms(4) by (force simp: links_of_def ns specs completion_def)
  have sub: "links_of (zip ns' (chain_deps soft (Some n) ns' specs')) \<subseteq> ?L" by (auto simp: links_of_def ns specs)
  have "(m, x) \<in> ?L\<^sup>+"
  proof (cases "m = n")
    case False
    then have "(m, n) \<in> (links_of (zip ns' (chain_deps soft (Some n) ns' specs')))\<^sup>+"
      using chain_waits [of ns' specs' m n soft] assms(2,3) ns specs by simp
    then have "(m, n) \<in> ?L\<^sup>+" by (rule trancl_mono) (rule sub)
    then show ?thesis using head by (rule trancl_into_trancl)
  qed (use head in blast)
  moreover have "?L \<subseteq> links_of (chains soft specs nss)" using assms(1) by (auto simp: links_of_def chains_def)
  ultimately show ?thesis by (rule trancl_mono)
qed

text \<open>\<open>grouped\<close>: the steps of a phase are the emitted ones of its group, in order.\<close>

definition group_names :: "string \<Rightarrow> planned_step list \<Rightarrow> string list" where
  "group_names q ss = map ps_name (filter (\<lambda>s. ps_group s = q) ss)"

definition grouped :: "table_compiler \<Rightarrow> bool" where
  "grouped tc \<longleftrightarrow> (\<forall>s\<in>set (tc_steps tc). ps_group s \<in> set (dict_keys (tc_phase_steps tc)))
    \<and> (\<forall>q ns. map_of (tc_phase_steps tc) q = Some ns \<longrightarrow> ns = group_names q (tc_steps tc))"

lemma grouped_new [simp]: "grouped new_compiler"
  by (simp add: grouped_def new_compiler_def)

lemma traversed_arg: "rtraverse f xs = Inr ys \<Longrightarrow> x \<in> set xs \<Longrightarrow> \<exists>y\<in>set ys. f x = Inr y"
  by (induction xs arbitrary: ys) (auto simp: rbind_Inr_iff)

lemma traversed_result: "rtraverse f xs = Inr ys \<Longrightarrow> y \<in> set ys \<Longrightarrow> \<exists>x\<in>set xs. f x = Inr y"
  by (induction xs arbitrary: ys) (auto simp: rbind_Inr_iff)

text \<open>What a phase waits for through \<open>soft_links\<close>.\<close>

lemma soft_links_cover:
  assumes "soft_links tc e after part = Inr soft" and "f \<in> set after"
    and "\<forall>c\<in>set (en_require e). declaring_phase tc part (jc_name c) \<noteq> Inr f"
    and "map_of (tc_phase_steps tc) f = Some ns" and "dict_keys (tc_phase_steps tc) = dict_keys (tc_phase_after tc)"
  shows "set ns \<subseteq> set soft"
proof -
  obtain required nss where req: "rtraverse (\<lambda>c. declaring_phase tc part (jc_name c)) (en_require e) = Inr required"
    and nss: "rtraverse (effective_steps tc) (filter (\<lambda>f. f \<notin> set required) after) = Inr nss"
    and soft: "soft = dedup (concat nss)"
    using assms(1) by (auto simp: soft_links_def rbind_Inr_iff)
  have "f \<notin> set required"
    using assms(3) traversed_result [OF req] by blast
  then have "f \<in> set (filter (\<lambda>f. f \<notin> set required) after)" using assms(2) by simp
  then obtain ms where ms: "ms \<in> set nss" "effective_steps tc f = Inr ms"
    using traversed_arg [OF nss] by blast
  have "f \<in> set (dict_keys (tc_phase_after tc))" using map_of_Some_key [OF assms(4)] assms(5) by metis
  then obtain n where n: "length (tc_phase_after tc) = Suc n" by (cases "tc_phase_after tc") auto
  have "ns = [] \<or> ms = ns"
    using ms(2) assms(4) unfolding effective_steps_def n by (auto simp: key_of_def split: if_splits)
  then show ?thesis using ms(1) unfolding soft by auto
qed

lemma enter_entry_facts:
  assumes "enter_entry t ph after (position, e, ps) (heads, tc) = Inr (heads', tc')" and "named_ok tc"
  obtains ss soft where "soft_links tc e after (InPhase (ph_name ph)) = Inr soft"
    and "tc_steps tc' = tc_steps tc @ ss" and "\<forall>s\<in>set ss. ps_group s = ph_name ph"
    and "tc_phase_steps tc' = extend_steps (ph_name ph) (map ps_name ss) (tc_phase_steps tc)"
    and "named_ok tc'" and "links_of (tc_deps tc) \<subseteq> links_of (tc_deps tc')"
    and "tc_phase_after tc' = tc_phase_after tc" and "tc_entry_phase tc' = tc_entry_phase tc"
    and "\<forall>s\<in>set ss. \<forall>x\<in>set soft. (ps_name s, x) \<in> (links_of (tc_deps tc'))\<^sup>+"
proof -
  obtain soft where soft: "soft_links tc e after (InPhase (ph_name ph)) = Inr soft"
    using assms(1) by (auto simp: enter_entry_def rbind_Inr_iff)
  obtain ss hs tc1 where em: "emit_entry t (ph_name ph) [Inl (ph_name ph), position_part e position]
      (ph_fail_fast ph) soft (en_ops e) ps tc = (ss, hs, tc1)" by (metis prod_cases3)
  obtain nss where f: "length nss = length ps" "\<forall>ns\<in>set nss. length ns = length (en_ops e)" "map ps_name ss = concat nss"
      "hs = chain_heads ps nss" "tc_deps tc1 = tc_deps tc @ chains soft (en_ops e) nss"
      "tc_where tc1 = tc_where tc @ placed_chains ps nss" "named_ok tc1" "same_tables tc tc1"
      "\<forall>s\<in>set ss. ps_target s \<in> Some ` set ps \<and> ps_deps s = [] \<and> ps_command s \<noteq> None \<and> ps_group s = ph_name ph"
    by (rule emit_entry_facts [OF em assms(2)])
  have tc': "tc' = tc1\<lparr>tc_steps := tc_steps tc1 @ ss,
        tc_phase_steps := extend_steps (ph_name ph) (map ps_name ss) (tc_phase_steps tc1),
        tc_entry_steps := (case en_id e of None \<Rightarrow> tc_entry_steps tc1
          | Some i \<Rightarrow> extend_steps i (map ps_name ss) (tc_entry_steps tc1))\<rparr>"
    using assms(1) soft em by (simp add: enter_entry_def Let_def)
  note same = same_tablesD [OF f(8)]
  show thesis
  proof (rule that [OF soft])
    show "\<forall>s\<in>set ss. \<forall>x\<in>set soft. (ps_name s, x) \<in> (links_of (tc_deps tc'))\<^sup>+"
    proof (intro ballI)
      fix s x
      assume s: "s \<in> set ss" and x: "x \<in> set soft"
      then have "ps_name s \<in> set (concat nss)" unfolding f(3) [symmetric] by simp
      then obtain ns where "ns \<in> set nss" "ps_name s \<in> set ns" by auto
      then have "(ps_name s, x) \<in> (links_of (chains soft (en_ops e) nss))\<^sup>+"
        using chains_wait f(2) x by blast
      then show "(ps_name s, x) \<in> (links_of (tc_deps tc'))\<^sup>+" by (rule trancl_mono) (simp add: tc' f(5))
    qed
  qed (use f(5,7,9) in \<open>simp_all add: tc' same named_ok_def\<close>)
qed

text \<open>\<open>phase_grown tc0 q fs tc\<close>: since \<open>tc0\<close> steps of the phase \<open>q\<close> were added, and each of them
  waits for all steps of the phases \<open>fs\<close>.\<close>

definition phase_grown :: "table_compiler \<Rightarrow> string \<Rightarrow> string set \<Rightarrow> table_compiler \<Rightarrow> bool" where
  "phase_grown tc0 q fs tc \<longleftrightarrow> named_ok tc \<and> grouped tc
    \<and> tc_phase_after tc = tc_phase_after tc0 \<and> tc_entry_phase tc = tc_entry_phase tc0
    \<and> dict_keys (tc_phase_steps tc) = dict_keys (tc_phase_steps tc0)
    \<and> links_of (tc_deps tc0) \<subseteq> links_of (tc_deps tc)
    \<and> (\<exists>ss. tc_steps tc = tc_steps tc0 @ ss \<and> (\<forall>s\<in>set ss. ps_group s = q
        \<and> (\<forall>f\<in>fs. \<forall>x\<in>set (group_names f (tc_steps tc0)). (ps_name s, x) \<in> (links_of (tc_deps tc))\<^sup>+)))"

lemma phase_grown_start: "named_ok tc \<Longrightarrow> grouped tc \<Longrightarrow> phase_grown tc q fs tc"
  by (simp add: phase_grown_def)

lemma phase_grown_grows:
  assumes "phase_grown tc0 q fs tc" and "grows tc tc'"
  shows "phase_grown tc0 q fs tc'"
proof -
  note same = redepend_tables [of tc tc']
  have g: "named_ok tc'" "redepend tc tc'" "links_of (tc_deps tc) \<subseteq> links_of (tc_deps tc')"
    using assms(2) by (simp_all add: grows_def)
  obtain ss where ss: "tc_steps tc = tc_steps tc0 @ ss"
      "\<forall>s\<in>set ss. ps_group s = q \<and> (\<forall>f\<in>fs. \<forall>x\<in>set (group_names f (tc_steps tc0)). (ps_name s, x) \<in> (links_of (tc_deps tc))\<^sup>+)"
    using assms(1) by (auto simp: phase_grown_def)
  have "\<forall>s\<in>set ss. ps_group s = q \<and> (\<forall>f\<in>fs. \<forall>x\<in>set (group_names f (tc_steps tc0)). (ps_name s, x) \<in> (links_of (tc_deps tc'))\<^sup>+)"
    using ss(2) trancl_mono [OF _ g(3)] by blast
  moreover have "grouped tc'"
    using assms(1) unfolding phase_grown_def grouped_def same(6,7) [OF g(2)] by blast
  ultimately show ?thesis
    using assms(1) g ss(1) unfolding phase_grown_def same(3,5,6,7) [OF g(2)] by blast
qed

lemma extend_steps_map: "map_of (extend_steps k names d) = (map_of d)(k \<mapsto> (case map_of d k of Some ns \<Rightarrow> ns | None \<Rightarrow> []) @ names)"
  by (simp add: extend_steps_def)

lemma group_names_append [simp]: "group_names q (a @ b) = group_names q a @ group_names q b"
  by (simp add: group_names_def)

lemma group_names_all: "\<forall>s\<in>set ss. ps_group s = q \<Longrightarrow> group_names f ss = (if f = q then map ps_name ss else [])"
  by (induction ss) (auto simp: group_names_def)

lemma grouped_extend:
  assumes "grouped tc" and "q \<in> set (dict_keys (tc_phase_steps tc))" and "\<forall>s\<in>set ss. ps_group s = q"
    and "tc_steps tc' = tc_steps tc @ ss" and "tc_phase_steps tc' = extend_steps q (map ps_name ss) (tc_phase_steps tc)"
  shows "grouped tc'"
proof -
  obtain ms where "map_of (tc_phase_steps tc) q = Some ms" using assms(2) unfolding ex_map_of [symmetric] by (rule exE)
  then have "ns = group_names f (tc_steps tc')" if "map_of (tc_phase_steps tc') f = Some ns" for f ns
    using that assms(1) unfolding assms(4,5) group_names_append group_names_all [OF assms(3)]
    by (auto simp: grouped_def extend_steps_map split: if_splits)
  moreover have "dict_keys (tc_phase_steps tc') = dict_keys (tc_phase_steps tc)"
    using assms(2) unfolding assms(5) by (rule extend_steps_keys)
  ultimately show ?thesis
    using assms(1,2,3) unfolding grouped_def assms(4) by (simp add: ball_Un del: set_map)
qed

lemma entry_grown:
  assumes st: "enter_entry t ph after pet acc = Inr acc'" and ok: "phase_grown tc0 (ph_name ph) fs (snd acc)"
    and keys: "dict_keys (tc_phase_steps tc0) = dict_keys (tc_phase_after tc0)" "ph_name ph \<in> set (dict_keys (tc_phase_steps tc0))"
    and fs: "fs \<subseteq> set after" "fs \<subseteq> set (dict_keys (tc_phase_steps tc0))" "ph_name ph \<notin> fs"
    and req: "\<forall>f\<in>fs. \<forall>c\<in>set (en_require (fst (snd pet))). declaring_phase tc0 (InPhase (ph_name ph)) (jc_name c) \<noteq> Inr f"
  shows "phase_grown tc0 (ph_name ph) fs (snd acc')"
proof -
  obtain position e ps where pet: "pet = (position, e, ps)" by (cases pet)
  obtain heads tc where acc: "acc = (heads, tc)" by (cases acc)
  obtain heads' tc' where acc': "acc' = (heads', tc')" by (cases acc')
  have tc: "named_ok tc" "grouped tc" "tc_phase_after tc = tc_phase_after tc0" "tc_entry_phase tc = tc_entry_phase tc0"
      "dict_keys (tc_phase_steps tc) = dict_keys (tc_phase_steps tc0)" "links_of (tc_deps tc0) \<subseteq> links_of (tc_deps tc)"
    using ok unfolding acc phase_grown_def snd_conv by blast+
  obtain ss0 where ss0: "tc_steps tc = tc_steps tc0 @ ss0" "\<forall>s\<in>set ss0. ps_group s = ph_name ph
      \<and> (\<forall>f\<in>fs. \<forall>x\<in>set (group_names f (tc_steps tc0)). (ps_name s, x) \<in> (links_of (tc_deps tc))\<^sup>+)"
    using ok unfolding acc phase_grown_def snd_conv by blast
  obtain ss soft where f: "soft_links tc e after (InPhase (ph_name ph)) = Inr soft"
      "tc_steps tc' = tc_steps tc @ ss" "\<forall>s\<in>set ss. ps_group s = ph_name ph"
      "tc_phase_steps tc' = extend_steps (ph_name ph) (map ps_name ss) (tc_phase_steps tc)"
      "named_ok tc'" "links_of (tc_deps tc) \<subseteq> links_of (tc_deps tc')"
      "tc_phase_after tc' = tc_phase_after tc" "tc_entry_phase tc' = tc_entry_phase tc"
      "\<forall>s\<in>set ss. \<forall>x\<in>set soft. (ps_name s, x) \<in> (links_of (tc_deps tc'))\<^sup>+"
    by (rule enter_entry_facts [OF st [unfolded pet acc acc'] tc(1)])
  have decl: "declaring_phase tc part n = declaring_phase tc0 part n" for part n
    by (simp add: declaring_phase_def tc(3,4))
  have covered: "set (group_names g (tc_steps tc0)) \<subseteq> set soft" if g: "g \<in> fs" for g
  proof -
    have "g \<in> set (dict_keys (tc_phase_steps tc))" using fs(2) g unfolding tc(5) by blast
    then obtain ns where ns: "map_of (tc_phase_steps tc) g = Some ns" unfolding ex_map_of [symmetric] by (rule exE)
    have "set ns \<subseteq> set soft"
    proof (rule soft_links_cover [OF f(1) _ _ ns])
      show "g \<in> set after" using fs(1) g by blast
      show "\<forall>c\<in>set (en_require e). declaring_phase tc (InPhase (ph_name ph)) (jc_name c) \<noteq> Inr g"
        using req g unfolding decl pet by simp
      show "dict_keys (tc_phase_steps tc) = dict_keys (tc_phase_after tc)" using keys(1) unfolding tc(3,5) .
    qed
    moreover have "ns = group_names g (tc_steps tc)" using tc(2) ns unfolding grouped_def by blast
    ultimately show ?thesis unfolding ss0(1) group_names_append by simp
  qed
  have "(ps_name s, x) \<in> (links_of (tc_deps tc'))\<^sup>+"
    if "s \<in> set (ss0 @ ss)" "g \<in> fs" "x \<in> set (group_names g (tc_steps tc0))" for s g x
  proof (cases "s \<in> set ss")
    case True
    then show ?thesis using f(9) covered [OF that(2)] that(3) by blast
  next
    case False
    then have "(ps_name s, x) \<in> (links_of (tc_deps tc))\<^sup>+" using ss0(2) that by simp
    then show ?thesis by (rule trancl_mono) (rule f(6))
  qed
  then have waits: "\<forall>s\<in>set (ss0 @ ss). ps_group s = ph_name ph
      \<and> (\<forall>f\<in>fs. \<forall>x\<in>set (group_names f (tc_steps tc0)). (ps_name s, x) \<in> (links_of (tc_deps tc'))\<^sup>+)"
    using ss0(2) f(3) by (simp add: ball_Un)
  have "grouped tc'" by (rule grouped_extend [OF tc(2) _ f(3,2,4)]) (use keys(2) in \<open>simp add: tc(5)\<close>)
  moreover have "dict_keys (tc_phase_steps tc') = dict_keys (tc_phase_steps tc0)"
    using keys(2) unfolding f(4) tc(5) [symmetric] by (rule extend_steps_keys)
  ultimately show ?thesis
    unfolding acc' snd_conv phase_grown_def using f(5,6,7,8) tc(3,4,6) waits ss0(1) f(2)
    by (intro conjI exI [of _ "ss0 @ ss"]) auto
qed

text \<open>The entries a phase declares are its own.\<close>

lemma declared_entries:
  assumes "rfold (declare_entry q) es tc = Inr tc'"
  shows "tc_steps tc' = tc_steps tc \<and> tc_phase_steps tc' = tc_phase_steps tc \<and> tc_deps tc' = tc_deps tc
    \<and> (\<forall>i r. map_of (tc_entry_phase tc') i = Some r
        \<longrightarrow> map_of (tc_entry_phase tc) i = Some r \<or> (r = q \<and> Some i \<in> en_id ` set es))"
  using assms
proof (induction es arbitrary: tc)
  case (Cons e es)
  obtain tc1 where tc1: "declare_entry q e tc = Inr tc1" and rest: "rfold (declare_entry q) es tc1 = Inr tc'"
    using Cons.prems by (auto simp: rbind_Inr_iff)
  have "tc_steps tc1 = tc_steps tc \<and> tc_phase_steps tc1 = tc_phase_steps tc \<and> tc_deps tc1 = tc_deps tc
      \<and> (\<forall>i r. map_of (tc_entry_phase tc1) i = Some r \<longrightarrow> map_of (tc_entry_phase tc) i = Some r \<or> (r = q \<and> en_id e = Some i))"
    using tc1 by (auto simp: declare_entry_def split: option.splits if_splits)
  then show ?case using Cons.IH [OF rest] by (auto simp: image_iff) metis
qed simp

lemma declared_phase:
  assumes "declare_phase ph previous tc = Inr (after, tc1)"
  shows "after = phase_follows ph previous" and "ph_name ph \<notin> set (dict_keys (tc_phase_steps tc))"
    and "set after \<subseteq> set (dict_keys (tc_phase_steps tc))"
    and "tc_steps tc1 = tc_steps tc" and "tc_phase_steps tc1 = tc_phase_steps tc @ [(ph_name ph, [])]"
    and "tc_deps tc1 = tc_deps tc"
    and "map_of (tc_entry_phase tc1) i = Some r
      \<Longrightarrow> map_of (tc_entry_phase tc) i = Some r \<or> (r = ph_name ph \<and> Some i \<in> en_id ` set (ph_entries ph))"
proof -
  let ?tc = "tc\<lparr>tc_phase_after := dict_set (ph_name ph) (phase_follows ph previous) (tc_phase_after tc),
      tc_phase_steps := dict_set (ph_name ph) [] (tc_phase_steps tc)\<rparr>"
  have new: "ph_name ph \<notin> set (dict_keys (tc_phase_steps tc))" and after: "after = phase_follows ph previous"
    and sub: "\<forall>n\<in>set after. n \<in> set (dict_keys (tc_phase_steps tc))"
    and fold: "rfold (declare_entry (ph_name ph)) (ph_entries ph) ?tc = Inr tc1"
    using assms unfolding declare_phase_def Let_def
    by (auto simp: rbind_Inr_iff filter_empty_conv simp del: set_map split: if_splits)
  show "after = phase_follows ph previous" "ph_name ph \<notin> set (dict_keys (tc_phase_steps tc))"
      "set after \<subseteq> set (dict_keys (tc_phase_steps tc))" using new after sub by blast+
  show "tc_steps tc1 = tc_steps tc" "tc_phase_steps tc1 = tc_phase_steps tc @ [(ph_name ph, [])]" "tc_deps tc1 = tc_deps tc"
    using declared_entries [OF fold] dict_set_fresh [OF new] by simp_all
  show "map_of (tc_entry_phase tc1) i = Some r
      \<Longrightarrow> map_of (tc_entry_phase tc) i = Some r \<or> (r = ph_name ph \<and> Some i \<in> en_id ` set (ph_entries ph))"
    using declared_entries [OF fold] by simp
qed

text \<open>No entry of the phase requires the phase \<open>f\<close> or one of its entries.\<close>

definition free_of :: "table_phase list \<Rightarrow> string \<Rightarrow> table_phase \<Rightarrow> bool" where
  "free_of phs f ph \<longleftrightarrow> (\<forall>e\<in>set (ph_entries ph). \<forall>c\<in>set (en_require e). jc_name c \<noteq> f
    \<and> (\<forall>ph'\<in>set phs. ph_name ph' = f \<longrightarrow> Some (jc_name c) \<notin> en_id ` set (ph_entries ph')))"

definition origins :: "table_phase list \<Rightarrow> table_compiler \<Rightarrow> bool" where
  "origins phs tc \<longleftrightarrow> dict_keys (tc_phase_steps tc) = map ph_name phs
    \<and> (\<forall>i r. map_of (tc_entry_phase tc) i = Some r \<longrightarrow> (\<exists>ph\<in>set phs. ph_name ph = r \<and> Some i \<in> en_id ` set (ph_entries ph)))"

lemma compile_phase_grown:
  assumes "compile_phase t bs ph previous tc = Inr tc'" and tabs: "tables_ok tc" and gr: "grouped tc" and orig: "origins phs tc"
  shows "ph_name ph \<notin> ph_name ` set phs \<and> set (phase_follows ph previous) \<subseteq> ph_name ` set phs
    \<and> grouped tc' \<and> origins (phs @ [ph]) tc' \<and> links_of (tc_deps tc) \<subseteq> links_of (tc_deps tc')
    \<and> (\<exists>ss. tc_steps tc' = tc_steps tc @ ss \<and> (\<forall>s\<in>set ss. ps_group s = ph_name ph
        \<and> (\<forall>f\<in>set (phase_follows ph previous). free_of phs f ph
            \<longrightarrow> (\<forall>x\<in>set (group_names f (tc_steps tc)). (ps_name s, x) \<in> (links_of (tc_deps tc'))\<^sup>+))))"
proof -
  let ?q = "ph_name ph" and ?part = "InPhase (ph_name ph)"
  obtain after tc1 chosen heads tc2 where d: "declare_phase ph previous tc = Inr (after, tc1)"
    and en: "rfold (enter_entry t ph after) (enumerate 0 (zip (ph_entries ph) chosen)) ([], tc1) = Inr (heads, tc2)"
    and res: "resolve_requires heads ?part tc2 = Inr tc'"
    using assms(1) unfolding compile_phase_def Let_def by (auto simp: rbind_Inr_iff)
  note D = declared_phase [OF d]
  have keys: "set (dict_keys (tc_phase_steps tc)) = ph_name ` set phs" using orig unfolding origins_def by (metis set_map)
  have tabs1: "tables_ok tc1" and in1: "ph_name ph \<in> set (dict_keys (tc_phase_after tc1))"
    using safe_Inr [OF declare_phase_safe [OF tabs] d] by simp_all
  note ok1 = tables_okD(1) [OF tabs1]
  have "map_of (tc_phase_steps tc) ?q = None" using D(2) unfolding map_of_None_key .
  then have gr1: "grouped tc1"
    using gr D(2) by (auto simp: grouped_def D(4,5) map_add_def group_names_def filter_empty_conv simp del: set_map
        split: option.splits if_splits)
  define fs where "fs = {f \<in> set after. free_of phs f ph}"
  have fsq: "?q \<notin> fs" "fs \<subseteq> set after" "fs \<subseteq> set (dict_keys (tc_phase_steps tc1))"
    using D(2,3) by (auto simp: fs_def D(5))
  have req: "declaring_phase tc1 ?part (jc_name c) \<noteq> Inr f" if "f \<in> fs" "e \<in> set (ph_entries ph)" "c \<in> set (en_require e)" for f e c
  proof
    assume decl: "declaring_phase tc1 ?part (jc_name c) = Inr f"
    have free: "jc_name c \<noteq> f" "\<forall>ph'\<in>set phs. ph_name ph' = f \<longrightarrow> Some (jc_name c) \<notin> en_id ` set (ph_entries ph')"
      using that unfolding fs_def free_of_def by blast+
    then have "map_of (tc_entry_phase tc1) (jc_name c) = Some f"
      using decl by (auto simp: declaring_phase_def split: option.splits if_splits)
    moreover have "f \<noteq> ?q" using that(1) fsq(1) by blast
    ultimately have "map_of (tc_entry_phase tc) (jc_name c) = Some f" using D(7) by blast
    then show False using orig free(2) unfolding origins_def by blast
  qed
  have "phase_grown tc1 ?q fs (snd (heads, tc2))"
  proof (rule rfold_invariant [OF en, where P = "\<lambda>acc. phase_grown tc1 ?q fs (snd acc)"])
    show "phase_grown tc1 ?q fs (snd ([] :: entry_heads, tc1))" using phase_grown_start [OF ok1 gr1] by simp
    fix pet acc acc'
    assume mem: "pet \<in> set (enumerate 0 (zip (ph_entries ph) chosen))" and inv: "phase_grown tc1 ?q fs (snd acc)"
      and st: "enter_entry t ph after pet acc = Inr acc'"
    obtain i e ps where pet: "pet = (i, e, ps)" by (cases pet)
    then have "(e, ps) \<in> set (zip (ph_entries ph) chosen)" using mem by (metis enumerate_eq_zip set_zip_rightD)
    then have "e \<in> set (ph_entries ph)" by (rule set_zip_leftD)
    then show "phase_grown tc1 ?q fs (snd acc')"
      using req pet by (intro entry_grown [OF st inv tables_okD(5) [OF tabs1] _ fsq(2,3,1)]) (auto simp: D(5))
  qed
  moreover have "grows tc2 tc'"
    using calculation by (intro resolve_grows [OF res]) (simp add: phase_grown_def)
  ultimately have fin: "phase_grown tc1 ?q fs tc'" using phase_grown_grows by (metis snd_conv)
  have "origins (phs @ [ph]) tc'"
  proof -
    have "dict_keys (tc_phase_steps tc') = map ph_name (phs @ [ph])" "tc_entry_phase tc' = tc_entry_phase tc1"
      using fin orig by (simp_all add: phase_grown_def origins_def D(5))
    moreover have "\<exists>ph'\<in>set (phs @ [ph]). ph_name ph' = r \<and> Some i \<in> en_id ` set (ph_entries ph')"
      if "map_of (tc_entry_phase tc1) i = Some r" for i r
      using D(7) [OF that] orig unfolding origins_def by auto
    ultimately show ?thesis unfolding origins_def by simp
  qed
  then show ?thesis
    using fin D(1,2,3) unfolding phase_grown_def fs_def keys D(4,6) by auto
qed

text \<open>\<open>in_order phs tc\<close>: every step of a phase waits for the steps of the phases it follows.\<close>

definition previous_name :: "table_phase list \<Rightarrow> nat \<Rightarrow> string option" where
  "previous_name phs i = (if i = 0 then None else Some (ph_name (phs ! (i - 1))))"

definition in_order :: "table_phase list \<Rightarrow> table_compiler \<Rightarrow> bool" where
  "in_order phs tc \<longleftrightarrow> (\<forall>i<length phs. \<forall>f\<in>set (phase_follows (phs ! i) (previous_name phs i)).
     f \<in> ph_name ` set (take i phs)
     \<and> (free_of phs f (phs ! i) \<longrightarrow> (\<forall>s\<in>set (tc_steps tc). \<forall>x\<in>set (tc_steps tc).
         ps_group s = ph_name (phs ! i) \<longrightarrow> ps_group x = f \<longrightarrow> (ps_name s, ps_name x) \<in> (links_of (tc_deps tc))\<^sup>+)))"

lemma group_names_in: "x \<in> set ss \<Longrightarrow> ps_group x = f \<Longrightarrow> ps_name x \<in> set (group_names f ss)"
  by (simp add: group_names_def)

lemma in_order_phase:
  assumes "compile_phase t bs ph (previous_name (phs @ [ph]) (length phs)) tc = Inr tc'"
    and "tables_ok tc" and gr: "grouped tc" and orig: "origins phs tc" and ord: "in_order phs tc" and "distinct (map ph_name phs)"
  shows "in_order (phs @ [ph]) tc' \<and> grouped tc' \<and> origins (phs @ [ph]) tc' \<and> distinct (map ph_name (phs @ [ph]))"
proof -
  let ?prev = "previous_name (phs @ [ph]) (length phs)"
  note G = compile_phase_grown [OF assms(1,2) gr orig]
  obtain ss where ss: "tc_steps tc' = tc_steps tc @ ss" "\<forall>s\<in>set ss. ps_group s = ph_name ph
      \<and> (\<forall>f\<in>set (phase_follows ph ?prev). free_of phs f ph
            \<longrightarrow> (\<forall>x\<in>set (group_names f (tc_steps tc)). (ps_name s, x) \<in> (links_of (tc_deps tc'))\<^sup>+))"
    using G by blast
  have new: "ph_name ph \<notin> ph_name ` set phs" and fol: "set (phase_follows ph ?prev) \<subseteq> ph_name ` set phs"
    and mono: "links_of (tc_deps tc) \<subseteq> links_of (tc_deps tc')" using G by blast+
  have "dict_keys (tc_phase_steps tc) = map ph_name phs" using orig by (simp add: origins_def)
  then have "set (dict_keys (tc_phase_steps tc)) = ph_name ` set phs" by simp
  then have old: "\<forall>s\<in>set (tc_steps tc). ps_group s \<in> ph_name ` set phs" using gr unfolding grouped_def by blast
  have free: "free_of phs f p" if "free_of (phs @ [ph]) f p" for f p using that by (simp add: free_of_def)
  have "f \<in> ph_name ` set (take i (phs @ [ph])) \<and> (free_of (phs @ [ph]) f ((phs @ [ph]) ! i)
      \<longrightarrow> (\<forall>s\<in>set (tc_steps tc'). \<forall>x\<in>set (tc_steps tc'). ps_group s = ph_name ((phs @ [ph]) ! i)
        \<longrightarrow> ps_group x = f \<longrightarrow> (ps_name s, ps_name x) \<in> (links_of (tc_deps tc'))\<^sup>+))"
    if i: "i < length (phs @ [ph])" and f: "f \<in> set (phase_follows ((phs @ [ph]) ! i) (previous_name (phs @ [ph]) i))" for i f
  proof (cases "i < length phs")
    case True
    have prev: "previous_name (phs @ [ph]) i = previous_name phs i" using True by (auto simp: previous_name_def nth_append)
    have at: "(phs @ [ph]) ! i = phs ! i" "take i (phs @ [ph]) = take i phs" using True by (simp_all add: nth_append)
    have fi: "f \<in> ph_name ` set (take i phs)"
      using ord True f unfolding in_order_def prev at by blast
    then have fin: "f \<in> ph_name ` set phs" using set_take_subset by fastforce
    have gin: "ph_name (phs ! i) \<in> ph_name ` set phs" using True by simp
    have mem: "s \<in> set (tc_steps tc)" if "s \<in> set (tc_steps tc')" "ps_group s \<in> ph_name ` set phs" for s
      using that ss new by auto
    have "(ps_name s, ps_name x) \<in> (links_of (tc_deps tc'))\<^sup>+"
      if "free_of phs f (phs ! i)" "s \<in> set (tc_steps tc')" "x \<in> set (tc_steps tc')" "ps_group s = ph_name (phs ! i)" "ps_group x = f" for s x
    proof -
      have "s \<in> set (tc_steps tc)" "x \<in> set (tc_steps tc)" using mem that fin gin by simp_all
      then have "(ps_name s, ps_name x) \<in> (links_of (tc_deps tc))\<^sup>+"
        using ord True f that unfolding in_order_def prev at by blast
      then show ?thesis by (rule trancl_mono) (rule mono)
    qed
    then show ?thesis unfolding at using fi free by blast
  next
    case False
    then have i: "i = length phs" using i by simp
    have at: "(phs @ [ph]) ! i = ph" "take i (phs @ [ph]) = phs" unfolding i by simp_all
    have f': "f \<in> set (phase_follows ph ?prev)" using f unfolding at i by simp
    then have fin: "f \<in> ph_name ` set phs" using fol by blast
    have "(ps_name s, ps_name x) \<in> (links_of (tc_deps tc'))\<^sup>+"
      if "free_of phs f ph" "s \<in> set (tc_steps tc')" "x \<in> set (tc_steps tc')" "ps_group s = ph_name ph" "ps_group x = f" for s x
    proof -
      have "s \<notin> set (tc_steps tc)" using old new that(4) by metis
      then have "s \<in> set ss" using that(2) ss(1) by simp
      moreover have "x \<in> set (tc_steps tc)" using that(3,5) ss fin new by auto
      ultimately show ?thesis using ss(2) f' that(1,5) group_names_in by blast
    qed
    then show ?thesis unfolding at using fin free by blast
  qed
  then have "in_order (phs @ [ph]) tc'" unfolding in_order_def by blast
  then show ?thesis using G new assms(6) by simp
qed

lemma phases_in_order:
  "compile_phases t bs rest (previous_name (phs @ rest) (length phs)) tc = Inr tc' \<Longrightarrow> tables_ok tc \<Longrightarrow> entries_done tc \<Longrightarrow> grouped tc
    \<Longrightarrow> origins phs tc \<Longrightarrow> in_order phs tc \<Longrightarrow> distinct (map ph_name phs) \<Longrightarrow> in_order (phs @ rest) tc'"
proof (induction rest arbitrary: phs tc)
  case (Cons ph rest)
  obtain tc1 where one: "compile_phase t bs ph (previous_name (phs @ ph # rest) (length phs)) tc = Inr tc1"
    and more: "compile_phases t bs rest (Some (ph_name ph)) tc1 = Inr tc'"
    using Cons.prems(1) by (auto simp: rbind_Inr_iff)
  have "previous_name (phs @ ph # rest) (length phs) = previous_name (phs @ [ph]) (length phs)"
    by (auto simp: previous_name_def nth_append)
  note O = in_order_phase [OF one [unfolded this] Cons.prems(2,4-7)]
  have "tables_ok tc1" "entries_done tc1" using safe_Inr [OF compile_phase_safe [OF Cons.prems(2,3)] one] by simp_all
  moreover have "compile_phases t bs rest (previous_name ((phs @ [ph]) @ rest) (length (phs @ [ph]))) tc1 = Inr tc'"
    using more by (simp add: previous_name_def)
  ultimately have "in_order ((phs @ [ph]) @ rest) tc'"
    using conjunct1 [OF O] conjunct1 [OF conjunct2 [OF O]] conjunct1 [OF conjunct2 [OF conjunct2 [OF O]]]
      conjunct2 [OF conjunct2 [OF conjunct2 [OF O]]] by (intro Cons.IH)
  then show ?case by simp
qed simp

definition step_links :: "planned_step list \<Rightarrow> (string \<times> string) set" where
  "step_links ss = {(n, m). \<exists>s\<in>set ss. ps_name s = n \<and> m \<in> dp_on ` set (ps_deps s)}"

lemma settled_links:
  assumes "settled_steps tc ss = Inr ss'" and "distinct (dict_keys deps)" and "map ps_name ss = dict_keys deps"
    and "\<forall>n\<in>set (dict_keys deps). map_of (tc_deps tc) n = map_of deps n"
  shows "links_of deps \<subseteq> step_links ss' \<and> map (\<lambda>s. (ps_name s, ps_group s)) ss' = map (\<lambda>s. (ps_name s, ps_group s)) ss"
proof
  show "links_of deps \<subseteq> step_links ss'"
  proof
    fix e
    assume "e \<in> links_of deps"
    then obtain n m ds where e: "e = (n, m)" "(n, ds) \<in> set deps" "m \<in> dp_on ` set ds" by (auto simp: links_of_def)
    have n: "n \<in> set (dict_keys deps)" using e(2) by force
    then have "n \<in> ps_name ` set ss" unfolding assms(3) [symmetric] set_map .
    then obtain s where s: "s \<in> set ss" "ps_name s = n" by auto
    have "map_of (tc_deps tc) n = Some ds"
      using bspec [OF assms(4) n] map_of_is_SomeI [OF assms(2) e(2)] by (rule trans)
    then have "s\<lparr>ps_deps := ds\<rparr> \<in> set ss'"
      using traversed_arg [OF assms(1) [unfolded settled_steps_def] s(1)] s(2) by (auto simp: key_of_def)
    moreover have "ps_name (s\<lparr>ps_deps := ds\<rparr>) = n \<and> m \<in> dp_on ` set (ps_deps (s\<lparr>ps_deps := ds\<rparr>))"
      using e(3) s(2) by simp
    ultimately show "e \<in> step_links ss'" unfolding e(1) step_links_def by blast
  qed
  show "map (\<lambda>s. (ps_name s, ps_group s)) ss' = map (\<lambda>s. (ps_name s, ps_group s)) ss"
    using assms(1) unfolding settled_steps_def
    by (induction ss arbitrary: ss') (auto simp: rbind_Inr_iff)
qed

lemma expanded_in_order:
  assumes "expand_table t bs = Inr (steps, plans)" and "i < length (lt_phases t)"
    and "f \<in> set (phase_follows (lt_phases t ! i) (previous_name (lt_phases t) i))"
  shows "f \<in> ph_name ` set (take i (lt_phases t))"
    and "free_of (lt_phases t) f (lt_phases t ! i) \<Longrightarrow> s \<in> set steps \<Longrightarrow> x \<in> set steps
      \<Longrightarrow> ps_group s = ph_name (lt_phases t ! i) \<Longrightarrow> ps_group x = f \<Longrightarrow> (ps_name s, ps_name x) \<in> (step_links steps)\<^sup>+"
proof -
  obtain tc tc1 where ph: "compile_phases t bs (lt_phases t) None new_compiler = Inr tc"
    and cl: "compile_cleanups t bs (lt_cleanup t) tc = Inr (plans, tc1)" and st: "settled_steps tc1 (tc_steps tc1) = Inr steps"
    using assms(1) by (auto simp: expand_table_def rbind_Inr_iff)
  have tabs: "tables_ok tc" "entries_done tc"
    using safe_Inr [OF compile_phases_safe [OF tables_ok_new] ph] by simp_all
  have entries: "\<forall>ns\<in>set (map snd (tc_entry_steps tc)). set ns \<subseteq> emitted tc" using tables_okD(7) [OF tabs(1)] by blast
  obtain ns where own: "own tc ns tc1"
    using safe_Inr [OF compile_cleanups_safe [OF tables_okD(1) [OF tabs(1)] tabs(2) entries] cl] by auto
  have "origins [] new_compiler" "in_order [] new_compiler" by (simp_all add: origins_def in_order_def new_compiler_def)
  then have ord: "in_order (lt_phases t) tc"
    using phases_in_order [of t bs "lt_phases t" "[]" new_compiler tc] ph by (simp add: previous_name_def)
  show "f \<in> ph_name ` set (take i (lt_phases t))" using ord assms(2,3) unfolding in_order_def by blast
  note names = tables_okD(2) [OF tabs(1)]
  have steps: "tc_steps tc1 = tc_steps tc" using same_tablesD [OF own_same [OF own]] by simp
  have dist: "distinct (dict_keys (tc_deps tc))" using tables_okD(1) [OF tabs(1)] by (simp add: named_ok_def)
  note S = settled_links [OF st [unfolded steps] dist names] own_prefix [OF own]
  have sub: "links_of (tc_deps tc) \<subseteq> step_links steps"
    and same: "map (\<lambda>s. (ps_name s, ps_group s)) steps = map (\<lambda>s. (ps_name s, ps_group s)) (tc_steps tc)"
    using S by blast+
  have mem: "\<exists>s'\<in>set (tc_steps tc). ps_name s' = ps_name s \<and> ps_group s' = ps_group s" if "s \<in> set steps" for s
  proof -
    have "(ps_name s, ps_group s) \<in> set (map (\<lambda>s. (ps_name s, ps_group s)) steps)" using that by simp
    then show ?thesis unfolding same by auto
  qed
  assume free: "free_of (lt_phases t) f (lt_phases t ! i)" and s: "s \<in> set steps" and x: "x \<in> set steps"
    and g: "ps_group s = ph_name (lt_phases t ! i)" "ps_group x = f"
  obtain s' x' where "s' \<in> set (tc_steps tc)" "ps_name s' = ps_name s" "ps_group s' = ps_group s"
      "x' \<in> set (tc_steps tc)" "ps_name x' = ps_name x" "ps_group x' = ps_group x"
    using mem [OF s] mem [OF x] by blast
  then have "(ps_name s, ps_name x) \<in> (links_of (tc_deps tc))\<^sup>+"
    using ord assms(2,3) free g unfolding in_order_def by metis
  then show "(ps_name s, ps_name x) \<in> (step_links steps)\<^sup>+" by (rule trancl_mono) (rule sub)
qed

subsection \<open>From the links of the steps to the graph\<close>

definition kept_links :: "planned_step list \<Rightarrow> string list \<Rightarrow> (string \<times> string) set" where
  "kept_links steps omitted = {(a, b). a \<notin> set omitted \<and> (\<exists>k. inherits steps omitted a k b)}"

lemma link_paths:
  assumes "(n, m) \<in> (step_links steps)\<^sup>+" and "m \<notin> set omitted"
  shows "\<exists>p. (\<exists>k. inherits steps omitted n k p) \<and> (p = m \<or> (p, m) \<in> (kept_links steps omitted)\<^sup>+)"
  using assms(1)
proof (induction rule: converse_trancl_induct)
  case (base n)
  then obtain s d where s: "s \<in> set steps" "ps_name s = n" "d \<in> set (ps_deps s)" "dp_on d = m" by (auto simp: step_links_def)
  then have "inherits steps omitted n (dp_kind d) m" using inherits.direct [OF s(1,3)] assms(2) by simp
  then show ?case by blast
next
  case (step n n')
  obtain s d where s: "s \<in> set steps" "ps_name s = n" "d \<in> set (ps_deps s)" "dp_on d = n'"
    using step.hyps(1) by (auto simp: step_links_def)
  obtain p k where p: "inherits steps omitted n' k p" "p = m \<or> (p, m) \<in> (kept_links steps omitted)\<^sup>+" using step.IH by blast
  show ?case
  proof (cases "n' \<in> set omitted")
    case True
    then have "inherits steps omitted n (both_kinds (dp_kind d) k) p" using inherits.through [OF s(1,3)] p(1) s(2,4) by simp
    then show ?thesis using p(2) by blast
  next
    case False
    then have "inherits steps omitted n (dp_kind d) n'" using inherits.direct [OF s(1,3)] s(2,4) by simp
    moreover have "(n', p) \<in> kept_links steps omitted" using False p(1) by (auto simp: kept_links_def)
    then have "(n', m) \<in> (kept_links steps omitted)\<^sup>+" using p(2) by auto
    ultimately show ?thesis by blast
  qed
qed

lemma kept_path:
  assumes "(n, m) \<in> (step_links steps)\<^sup>+" and "n \<notin> set omitted" and "m \<notin> set omitted"
  shows "(n, m) \<in> (kept_links steps omitted)\<^sup>+"
proof -
  obtain p k where p: "inherits steps omitted n k p" "p = m \<or> (p, m) \<in> (kept_links steps omitted)\<^sup>+"
    using link_paths [OF assms(1,3)] by blast
  have "(n, p) \<in> kept_links steps omitted" using assms(2) p(1) by (auto simp: kept_links_def)
  then show ?thesis using p(2) by auto
qed

lemma graph_follows_links:
  assumes comp: "compile_steps steps facts deadlines rules next0 = Inr ((g, operations, omissions), next1)"
    and i: "i < length (g_nodes g)" and j: "j < length (g_nodes g)"
    and path: "(ps_name (kept_steps facts steps ! i), ps_name (kept_steps facts steps ! j)) \<in> (step_links steps)\<^sup>+"
  shows "(j, i) \<in> (waits_for g)\<^sup>+"
proof -
  let ?om = "omitted_names facts steps" and ?kept = "kept_steps facts steps"
  note C = compile_ok [OF comp]
  have len: "length ?kept = length (g_nodes g)" using C(5) by (rule list_all2_lengthD)
  obtain by_name where "checked steps = Inr by_name" using comp by (auto simp: compile_steps_def rbind_Inr_iff)
  then have closed: "\<forall>s\<in>set steps. \<forall>d\<in>set (ps_deps s). dp_on d \<in> ps_name ` set steps" unfolding checked_ok by blast
  note kf = kept_filter [OF C(1), of facts, symmetric]
  have kept: "ps_name (?kept ! k) \<notin> set ?om" if "k < length (g_nodes g)" for k
  proof -
    have "?kept ! k \<in> set ?kept" using that len by simp
    then show ?thesis unfolding kf by simp
  qed
  have edge: "\<exists>l<length (g_nodes g). n = ps_name (?kept ! l) \<and> (l, k) \<in> waits_for g"
    if e: "(ps_name (?kept ! k), n) \<in> kept_links steps ?om" and k: "k < length (g_nodes g)" for k n
  proof -
    obtain kind where inh: "inherits steps ?om (ps_name (?kept ! k)) kind n" using e by (auto simp: kept_links_def)
    from inherits_target [OF inh, of "ps_name ` set steps"] closed have "n \<notin> set ?om" "n \<in> ps_name ` set steps" by blast+
    then have "n \<in> ps_name ` set ?kept" unfolding kf by auto
    then obtain l where l: "l < length ?kept" "n = ps_name (?kept ! l)" by (auto simp: in_set_conv_nth)
    then have "l \<in> deps_of g k" using C(10) inh k len by auto
    then show ?thesis using l len by (auto simp: waits_for_def)
  qed
  have "\<exists>l<length (g_nodes g). m = ps_name (?kept ! l) \<and> (l, i) \<in> (waits_for g)\<^sup>+"
    if "(ps_name (?kept ! i), m) \<in> (kept_links steps ?om)\<^sup>+" for m
    using that
  proof (induction rule: trancl_induct)
    case (base m)
    from edge [OF base i] show ?case by blast
  next
    case (step n m)
    then obtain l where l: "l < length (g_nodes g)" "n = ps_name (?kept ! l)" "(l, i) \<in> (waits_for g)\<^sup>+" by blast
    obtain l' where "l' < length (g_nodes g)" "m = ps_name (?kept ! l')" "(l', l) \<in> waits_for g"
      using edge [OF step.hyps(2) [unfolded l(2)] l(1)] by blast
    moreover from this have "(l', i) \<in> (waits_for g)\<^sup>+" using l(3) by (meson trancl_into_trancl2)
    ultimately show ?case by blast
  qed
  from this [OF kept_path [OF path kept [OF i] kept [OF j]]]
  obtain l where l: "l < length (g_nodes g)" "ps_name (?kept ! j) = ps_name (?kept ! l)" "(l, i) \<in> (waits_for g)\<^sup>+" by blast
  have "distinct (map ps_name ?kept)" using C(1) by (simp add: kept_steps_def distinct_map_filter)
  then have "l = j" using l(1,2) j len by (metis length_map nth_eq_iff_index_eq nth_map)
  then show ?thesis using l(3) by simp
qed

subsection \<open>Claims\<close>

text \<open>C9. A phase runs after the phases it follows: in the main graph of a compiled table, every
  operation of a phase waits, possibly through others, for every operation of each phase it
  follows, unless one of its entries requires that phase or an entry of it (then the join says what
  is waited for).  The phases followed are the stated ones or else the one before, and they come
  earlier in the table.\<close>

theorem phases_keep_order:
  assumes "compile_lifecycle t bs deadlines rules n = Inr (w, n')" and "i < length (lt_phases t)"
    and "f \<in> set (phase_follows (lt_phases t ! i) (previous_name (lt_phases t) i))"
  shows "f \<in> ph_name ` set (take i (lt_phases t))
    \<and> (free_of (lt_phases t) f (lt_phases t ! i) \<longrightarrow>
        (\<forall>a<length (g_nodes (ew_graph w)). \<forall>b<length (g_nodes (ew_graph w)).
          n_group (g_nodes (ew_graph w) ! a) = ph_name (lt_phases t ! i) \<and> n_group (g_nodes (ew_graph w) ! b) = f
          \<longrightarrow> (b, a) \<in> (waits_for (ew_graph w))\<^sup>+))"
proof -
  obtain steps plans where ex: "expand_table t bs = Inr (steps, plans)"
    and low: "lower (lt_name t) steps bs plans deadlines rules n = Inr (w, n')"
    using assms(1) by (auto simp: compile_lifecycle_def rbind_Inr_iff split: sum.splits)
  obtain operations omissions refused next1 where
    comp: "compile_steps steps bs deadlines rules n = Inr ((ew_graph w, operations, omissions), next1)"
    by (rule lower_ok [OF low])
  note O = expanded_in_order [OF ex assms(2,3)]
  have nodes: "list_all2 (node_for bs deadlines rules) (kept_steps bs steps) (g_nodes (ew_graph w))"
    using compile_ok(5) [OF comp] .
  have kept: "kept_steps bs steps ! k \<in> set steps \<and> ps_group (kept_steps bs steps ! k) = n_group (g_nodes (ew_graph w) ! k)"
    if "k < length (g_nodes (ew_graph w))" for k
  proof -
    have "k < length (kept_steps bs steps)" using that list_all2_lengthD [OF nodes] by simp
    then have "kept_steps bs steps ! k \<in> set (kept_steps bs steps)" by (rule nth_mem)
    then have "kept_steps bs steps ! k \<in> set steps" by (simp add: kept_steps_def)
    then show ?thesis using list_all2_nthD2 [OF nodes that] by (simp add: node_for_def)
  qed
  have "(b, a) \<in> (waits_for (ew_graph w))\<^sup>+"
    if "free_of (lt_phases t) f (lt_phases t ! i)" "a < length (g_nodes (ew_graph w))" "b < length (g_nodes (ew_graph w))"
      "n_group (g_nodes (ew_graph w) ! a) = ph_name (lt_phases t ! i)" "n_group (g_nodes (ew_graph w) ! b) = f" for a b
    by (rule graph_follows_links [OF comp that(2,3)], rule O(2) [OF that(1)]) (use kept that in simp_all)
  then show ?thesis using O(1) by blast
qed

text \<open>C30. Compiling a table fails for a reason of the table or the sensor only: none of the
  compiler's own lookups fails and its recursion over the phases ends, and what it hands to
  \<open>lower\<close> is not refused for a repeated step name, a command without target, a dependency on no
  step or cleanup armed by no step.\<close>

theorem table_error_reasons:
  assumes "compile_lifecycle t bs deadlines rules n = Inl e"
  shows "case e of TableRefused err \<Rightarrow> \<not> table_internal err | LowerRefused err \<Rightarrow> \<not> step_fault err"
proof (cases "expand_table t bs")
  case (Inl e')
  then show ?thesis using assms expand_table_safe [of t bs] by (auto simp: compile_lifecycle_def)
next
  case (Inr r)
  obtain steps plans where r: "r = (steps, plans)" by force
  obtain w where w: "e = LowerRefused w" "lower (lt_name t) steps bs plans deadlines rules n = Inl w"
    using assms Inr r by (auto simp: compile_lifecycle_def split: sum.splits)
  have "lowerable steps" "\<forall>plan\<in>set plans. lowerable (cpl_steps plan)
      \<and> (\<forall>xs. cpl_armed_by plan = Some xs \<longrightarrow> set xs \<subseteq> set (map ps_name steps))"
    using safe_Inr [OF expand_table_safe Inr] unfolding r by simp_all
  then have "\<not> step_fault w" unfolding lowerable_def using lower_checked [OF _ _ _ w(2)] by blast
  then show ?thesis using w(1) by simp
qed

subsection \<open>Witnesses\<close>

definition demo_op_spec :: "dep_kind \<Rightarrow> op_spec" where
  "demo_op_spec sequence = \<lparr>os_command = \<lparr>cmd_tag = ''Capture'', cmd_args = []\<rparr>, os_optional = False, os_unsupported = Refuse,
      os_fail_fast = None, os_sequence = sequence, os_timeout = None\<rparr>"

definition demo_entry :: "nat \<Rightarrow> string \<Rightarrow> table_entry" where
  "demo_entry ref device = \<lparr>en_ref = ref, en_select = IsRef device, en_ops = [demo_op_spec Success],
    en_exclude = None, en_id = None, en_require = []\<rparr>"

definition demo_phase :: "string \<Rightarrow> table_entry \<Rightarrow> string list option \<Rightarrow> table_phase" where
  "demo_phase name e after = \<lparr>ph_name = name, ph_entries = [e], ph_after = after, ph_fail_fast = None\<rparr>"

definition demo_table :: "table_phase list \<Rightarrow> lifecycle_table" where
  "demo_table phases = \<lparr>lt_name = ''startup'', lt_phases = phases, lt_fail_fast = False, lt_cleanup = []\<rparr>"

definition demo_ordered :: lifecycle_table where
  "demo_ordered = demo_table [demo_phase ''open'' (demo_entry 0 ''cam1'') None, demo_phase ''expose'' (demo_entry 1 ''cam2'') None]"

lemma demo_ordered_compiles:
  "case compile_lifecycle demo_ordered demo_sensor [] [] 0 of
     Inr (w, n) \<Rightarrow> map n_group (g_nodes (ew_graph w)) = [''open'', ''expose''] | Inl e \<Rightarrow> False"
  by code_simp

theorem phases_keep_order_witness:
  "\<exists>w n. compile_lifecycle demo_ordered demo_sensor [] [] 0 = Inr (w, n) \<and> (0, 1) \<in> (waits_for (ew_graph w))\<^sup>+"
proof -
  obtain w n where w: "compile_lifecycle demo_ordered demo_sensor [] [] 0 = Inr (w, n)"
    and g: "map n_group (g_nodes (ew_graph w)) = [''open'', ''expose'']"
    using demo_ordered_compiles by (auto split: sum.splits)
  have len: "length (g_nodes (ew_graph w)) = 2" using arg_cong [OF g, of length] by simp
  have at: "n_group (g_nodes (ew_graph w) ! 0) = ''open''" "n_group (g_nodes (ew_graph w) ! 1) = ''expose''"
    using arg_cong [OF g, of "\<lambda>xs. xs ! 0"] arg_cong [OF g, of "\<lambda>xs. xs ! 1"] len by simp_all
  have "1 < length (lt_phases demo_ordered)" by (simp add: demo_ordered_def demo_table_def)
  note O = phases_keep_order [OF w this, of "''open''"]
  show ?thesis
    using O w len at
    by (auto simp: demo_ordered_def demo_table_def demo_phase_def phase_follows_def previous_name_def free_of_def demo_entry_def)
qed

definition demo_twice :: lifecycle_table where
  "demo_twice = demo_table [demo_phase ''open'' (demo_entry 0 ''cam1'') None, demo_phase ''open'' (demo_entry 1 ''cam2'') None]"

theorem table_error_reasons_witness:
  "\<exists>err. compile_lifecycle demo_twice demo_sensor [] [] 0 = Inl (TableRefused err) \<and> \<not> table_internal err"
proof -
  have "case compile_lifecycle demo_twice demo_sensor [] [] 0 of Inl (TableRefused e) \<Rightarrow> True | _ \<Rightarrow> False" by code_simp
  then obtain err where "compile_lifecycle demo_twice demo_sensor [] [] 0 = Inl (TableRefused err)"
    by (auto split: sum.splits lifecycle_error.splits)
  then show ?thesis using table_error_reasons [of demo_twice demo_sensor "[]" "[]" 0] by force
qed

subsection \<open>Where the order is lost\<close>

text \<open>The wait of an entry's later commands rests on its first one.  When that is skipped for a failed
  requirement it does not wait for the phase it follows, and the next command (\<open>sequence\<close> completion)
  starts while an operation of that phase still runs.  Nodes: 0 is of the phase followed, 1 is required
  and fails, 2 and 3 are the commands of the entry.\<close>

definition demo_skipping :: lifecycle_table where
  "demo_skipping = demo_table
     [demo_phase ''open'' (demo_entry 0 ''cam1'') None,
      demo_phase ''ready'' (demo_entry 1 ''cam2'') (Some []),
      demo_phase ''expose'' ((demo_entry 2 ''cam2'')\<lparr>en_ops := [demo_op_spec Success, demo_op_spec Completion],
         en_require := [\<lparr>jc_name = ''ready'', jc_join = AnyTarget, jc_on = Success\<rparr>]\<rparr>) (Some [''open''])]"

type_synonym skip_config = "(operation option, string, unit, unit) config"

definition skipping_start :: "operation option graph \<Rightarrow> skip_config" where
  "skipping_start g = execute sorted_list_of_set ''r'' g []"

definition skipping_next :: "operation option graph \<Rightarrow> skip_config \<Rightarrow> skip_config option" where
  "skipping_next g cfg = on_event sorted_list_of_set ''r'' None g cfg (Ended [(1, Raised ''boom'')])"

definition running_after :: "skip_config option \<Rightarrow> nat list" where
  "running_after c = (case c of Some (Waiting s) \<Rightarrow> rs_running s | _ \<Rightarrow> [])"

lemma skipped_head_loses_wait:
  "case compile_lifecycle demo_skipping demo_sensor [] [] 0 of
     Inr (w, n) \<Rightarrow> map n_group (g_nodes (ew_graph w)) = [''open'', ''ready'', ''expose'', ''expose'']
       \<and> (0, 2) \<in> waits_for (ew_graph w) \<and> (2, 3) \<in> waits_for (ew_graph w)
       \<and> running_after (Some (skipping_start (ew_graph w))) = [0, 1]
       \<and> running_after (skipping_next (ew_graph w) (skipping_start (ew_graph w))) = [0, 3]
   | Inl e \<Rightarrow> False"
  unfolding waits_for_def mem_Collect_eq prod.case by code_simp

text \<open>A phase whose name is empty passes the check, which takes the next phase to follow it; the
  compiler takes the empty name for no previous phase.\<close>

definition demo_unnamed :: lifecycle_table where
  "demo_unnamed = demo_table [demo_phase '''' (demo_entry 0 ''cam1'') None, demo_phase ''expose'' (demo_entry 1 ''cam2'') None]"

lemma unnamed_phase_unordered:
  "check_table demo_unnamed = Inr () \<and> table_follows demo_unnamed 1 = ['''']
   \<and> (case compile_lifecycle demo_unnamed demo_sensor [] [] 0 of
        Inr (w, n) \<Rightarrow> map snd (g_deps (ew_graph w)) = [{}, {}] | Inl e \<Rightarrow> False)"
  by code_simp

end
